(* ===== verification/HROS_Prelude.thy ===== *)
theory HROS_Prelude
  imports Main "HOL-Library.Word"
begin

unbundle bit_operations_syntax

text \<open>
  Shared vocabulary of the development: the machine integers of the Rust sources, the
  checked and shifting operations they use from Rust's core library, byte characters,
  fixed-size arrays as lists, and the generic facts on words and lists that the component
  theories rely on.

  Integers. Rust's \<open>u8\<close>, \<open>u16\<close>, \<open>u32\<close>, \<open>u64\<close> are words of that width. The kernel runs on two
  32-bit targets (ARM Cortex-M and RV32), so a \<open>usize\<close> that carries an address or user data
  is a \<open>u32\<close> as well; a \<open>usize\<close> that only indexes a fixed array is a \<open>nat\<close>, with the bound
  part of an invariant. Arithmetic follows the release profile of \<^verbatim>\<open>Cargo.toml\<close>, which leaves
  overflow checks off: \<open>+\<close>, \<open>-\<close>, \<open>*\<close> wrap around and the amount of a shift is taken modulo the
  width.

  Errors. A Rust \<open>Result<T, E>\<close> is \<open>E + T\<close>, with the error on the left.
\<close>

section \<open>Machine integers\<close>

type_synonym u8 = "8 word"
type_synonym u16 = "16 word"
type_synonym u32 = "32 word"
type_synonym u64 = "64 word"

text \<open>The architectures the sources select with \<^verbatim>\<open>cfg(target_arch = ...)\<close>; \<open>Host\<close> stands for
  every other one (the hosted test build).\<close>

datatype arch = Arm | Riscv32 | Host

named_theorems bits_simps \<open>reduction of word equations to their bits\<close>
named_theorems rust_defs \<open>definitions of the Rust core operations\<close>

declare bit_simps [bits_simps]

text \<open>\<open>checked_mul\<close> and \<open>checked_add\<close> of Rust's \<open>u32\<close>: \<open>None\<close> on overflow.\<close>

definition checked_mul :: "u32 \<Rightarrow> u32 \<Rightarrow> u32 option" where
  "checked_mul a b = (if uint a * uint b < 2 ^ 32 then Some (a * b) else None)"

definition checked_add :: "u32 \<Rightarrow> u32 \<Rightarrow> u32 option" where
  "checked_add a b = (if uint a + uint b < 2 ^ 32 then Some (a + b) else None)"

text \<open>\<open>1u32 << n\<close> with the release build's masked shift amount.\<close>

definition shl1 :: "nat \<Rightarrow> u32" where
  "shl1 n = push_bit (n mod 32) 1"

declare checked_mul_def [rust_defs] checked_add_def [rust_defs] shl1_def [rust_defs]

lemma unat_less_u32: "unat (a :: u32) < 2 ^ 32"
  using unsigned_less [of a, where 'a = nat] by simp

text \<open>Extensionality of words, with the index bounded by the width.\<close>

lemma word_bits_eq_iff: "v = w \<longleftrightarrow> (\<forall>n<LENGTH('a). bit v n \<longleftrightarrow> bit w n)" for v w :: "'a::len word"
  by (auto intro: bit_word_eqI)

lemma bit_word_bound: "bit w n \<Longrightarrow> n < LENGTH('a)" for w :: "'a::len word"
  by (rule bit_imp_le_length)

lemma bit_u32_bound: "bit (w :: u32) n \<Longrightarrow> n < 32"
  using bit_word_bound [of w n] by simp

lemma bit_u64_bound: "bit (w :: u64) n \<Longrightarrow> n < 64"
  using bit_word_bound [of w n] by simp

lemma unat_mult_u32: "unat a * unat b < 2 ^ 32 \<Longrightarrow> unat (a * b :: u32) = unat a * unat b"
  by (simp add: unat_word_ariths)

lemma unat_add_u32: "unat a + unat b < 2 ^ 32 \<Longrightarrow> unat (a + b :: u32) = unat a + unat b"
  by (simp add: unat_word_ariths)

lemma checked_mul_unat:
  "checked_mul a b = (if unat a * unat b < 2 ^ 32 then Some (a * b) else None)"
  using of_nat_less_iff [of "unat a * unat b" "2 ^ 32", where 'a = int]
  by (simp add: checked_mul_def)

lemma checked_add_unat:
  "checked_add a b = (if unat a + unat b < 2 ^ 32 then Some (a + b) else None)"
  using of_nat_less_iff [of "unat a + unat b" "2 ^ 32", where 'a = int]
  by (simp add: checked_add_def)

lemma checked_mul_Some: "checked_mul a b = Some c \<longleftrightarrow> unat c = unat a * unat b"
  using unat_less_u32 [of c]
  by (auto simp: checked_mul_unat unat_mult_u32 word_unat_eq_iff)

lemma checked_add_Some: "checked_add a b = Some c \<longleftrightarrow> unat c = unat a + unat b"
  using unat_less_u32 [of c]
  by (auto simp: checked_add_unat unat_add_u32 word_unat_eq_iff)

lemma bit_shl1 [bits_simps]: "bit (shl1 n) k \<longleftrightarrow> k = n mod 32"
  by (auto simp: shl1_def bit_simps)

text \<open>Testing one bit the way the code does, by masking and comparing with zero.\<close>

lemma and_shl1_eq_0: "w AND shl1 n = 0 \<longleftrightarrow> \<not> bit w (n mod 32)"
  by (auto simp: word_bits_eq_iff bits_simps dest: spec [of _ "n mod 32"])

lemma drop_bit_and_1_eq: "drop_bit n w AND 1 = 1 \<longleftrightarrow> bit w n" for w :: "'a::len word"
  by (auto simp: word_bits_eq_iff bit_simps)

lemma and_eq_mask_iff: "v AND m = m \<longleftrightarrow> (\<forall>k. bit m k \<longrightarrow> bit v k)" for v m :: "'a::len word"
  by (auto simp: word_bits_eq_iff bit_simps dest: bit_word_bound)

section \<open>Characters and arrays\<close>

text \<open>Source text is a list of bytes; a byte is an Isabelle character, read as a number by
  \<open>of_char\<close>. A Rust range pattern \<open>lo..=hi\<close> compares these numbers.\<close>

definition in_range :: "char \<Rightarrow> char \<Rightarrow> char \<Rightarrow> bool" where
  "in_range lo hi c \<longleftrightarrow> (of_char lo :: nat) \<le> of_char c \<and> (of_char c :: nat) \<le> of_char hi"

text \<open>\<open>xs.get(i)\<close> on a slice.\<close>

definition arr_get :: "'a list \<Rightarrow> nat \<Rightarrow> 'a option" where
  "arr_get xs i = (if i < length xs then Some (xs ! i) else None)"

text \<open>\<open>dst[..n].copy_from_slice(src)\<close> for a source of length \<open>n\<close> that fits: the prefix is
  replaced and the rest of the array is kept.\<close>

definition copy_prefix :: "'a list \<Rightarrow> 'a list \<Rightarrow> 'a list" where
  "copy_prefix src dst = src @ drop (length src) dst"

lemma length_copy_prefix [simp]:
  "length src \<le> length dst \<Longrightarrow> length (copy_prefix src dst) = length dst"
  by (simp add: copy_prefix_def)

lemma take_copy_prefix [simp]: "take (length src) (copy_prefix src dst) = src"
  by (simp add: copy_prefix_def)

text \<open>\<open>(0..n).find(p)\<close>: the least index below \<open>n\<close> that satisfies \<open>p\<close>.\<close>

definition find_index :: "nat \<Rightarrow> (nat \<Rightarrow> bool) \<Rightarrow> nat option" where
  "find_index n p = List.find p [0..<n]"

lemma find_index_Some:
  "find_index n p = Some i \<longleftrightarrow> i < n \<and> p i \<and> (\<forall>j<i. \<not> p j)"
  by (auto simp: find_index_def find_Some_iff intro!: exI [of _ i])

lemma find_index_None: "find_index n p = None \<longleftrightarrow> (\<forall>i<n. \<not> p i)"
  by (auto simp: find_index_def find_None_iff)

end
