(* ===== verification/Interfaces.thy ===== *)
theory Interfaces
  imports HROS_Prelude
begin

text \<open>
  The interfaces that components offer each other, as locales: the laws a provider promises
  and what a client may conclude from them alone. Each locale is interpreted on the model's
  own definitions in the theory of the component that provides them.
\<close>

section \<open>A set of exclusively owned resources\<close>

text \<open>A history of registry calls, in the order in which the atomic operations take effect
  (whoever issues them: the command loop or an interrupt handler), and the result of each
  call.\<close>

datatype cap_call = Acquire nat | Release nat

fun call_id :: "cap_call \<Rightarrow> nat" where
  "call_id (Acquire i) = i"
| "call_id (Release i) = i"

fun run_calls :: "('r \<Rightarrow> nat \<Rightarrow> bool \<times> 'r) \<Rightarrow> ('r \<Rightarrow> nat \<Rightarrow> 'r) \<Rightarrow> 'r \<Rightarrow> cap_call list \<Rightarrow> bool list \<times> 'r" where
  "run_calls acq rel r [] = ([], r)"
| "run_calls acq rel r (Acquire i # cs) =
    (let (b, r') = acq r i; (bs, r'') = run_calls acq rel r' cs in (b # bs, r''))"
| "run_calls acq rel r (Release i # cs) =
    (let (bs, r'') = run_calls acq rel (rel r i) cs in (True # bs, r''))"

text \<open>The state after a history, one call at a time.\<close>

lemma snd_run_calls [simp]:
  "snd (run_calls acq rel r (Acquire i # cs)) = snd (run_calls acq rel (snd (acq r i)) cs)"
  "snd (run_calls acq rel r (Release i # cs)) = snd (run_calls acq rel (rel r i) cs)"
  by (auto simp: Let_def split: prod.splits)

lemma run_calls_append:
  "run_calls acq rel r (cs @ ds) =
    (let (bs, r') = run_calls acq rel r cs; (bs', r'') = run_calls acq rel r' ds in (bs @ bs', r''))"
  by (induction acq rel r cs rule: run_calls.induct) (auto simp: Let_def split: prod.splits)

locale capability_set =
  fixes acq :: "'r \<Rightarrow> nat \<Rightarrow> bool \<times> 'r"
    and rel :: "'r \<Rightarrow> nat \<Rightarrow> 'r"
    and avail :: "'r \<Rightarrow> nat \<Rightarrow> bool"
    and invar :: "'r \<Rightarrow> bool"
    and claimed :: "'r \<Rightarrow> nat set"
    and ids :: "nat set"
  assumes acq_fst: "invar r \<Longrightarrow> i \<in> ids \<Longrightarrow> fst (acq r i) \<longleftrightarrow> i \<notin> claimed r"
    and acq_snd: "invar r \<Longrightarrow> i \<in> ids \<Longrightarrow> claimed (snd (acq r i)) = insert i (claimed r)"
    and rel_claimed: "invar r \<Longrightarrow> i \<in> ids \<Longrightarrow> claimed (rel r i) = claimed r - {i}"
    and avail_iff: "invar r \<Longrightarrow> i \<in> ids \<Longrightarrow> avail r i \<longleftrightarrow> i \<notin> claimed r"
    and invar_acq: "invar r \<Longrightarrow> i \<in> ids \<Longrightarrow> invar (snd (acq r i))"
    and invar_rel: "invar r \<Longrightarrow> i \<in> ids \<Longrightarrow> invar (rel r i)"
begin

lemma run_invar:
  "invar r \<Longrightarrow> call_id ` set cs \<subseteq> ids \<Longrightarrow> invar (snd (run_calls acq rel r cs))"
proof (induction cs arbitrary: r)
  case (Cons c cs)
  then show ?case
    by (cases c) (auto simp del: run_calls.simps simp: invar_acq invar_rel)
qed simp

lemma run_keeps_claim:
  "invar r \<Longrightarrow> call_id ` set cs \<subseteq> ids \<Longrightarrow> i \<in> claimed r \<Longrightarrow> Release i \<notin> set cs \<Longrightarrow>
    i \<in> claimed (snd (run_calls acq rel r cs))"
proof (induction cs arbitrary: r)
  case (Cons c cs)
  show ?case
  proof (cases c)
    case (Acquire j)
    with Cons.prems have "invar (snd (acq r j))" "i \<in> claimed (snd (acq r j))"
      by (auto simp: invar_acq acq_snd)
    with Cons Acquire show ?thesis
      by (auto simp del: run_calls.simps)
  next
    case (Release j)
    with Cons.prems have "invar (rel r j)" "i \<in> claimed (rel r j)"
      by (auto simp: invar_rel rel_claimed)
    with Cons Release show ?thesis
      by (auto simp del: run_calls.simps)
  qed
qed simp

lemma run_keeps_free:
  "invar r \<Longrightarrow> call_id ` set cs \<subseteq> ids \<Longrightarrow> i \<notin> claimed r \<Longrightarrow> Acquire i \<notin> set cs \<Longrightarrow>
    i \<notin> claimed (snd (run_calls acq rel r cs))"
proof (induction cs arbitrary: r)
  case (Cons c cs)
  show ?case
  proof (cases c)
    case (Acquire j)
    with Cons.prems have "invar (snd (acq r j))" "i \<notin> claimed (snd (acq r j))"
      by (auto simp: invar_acq acq_snd)
    with Cons Acquire show ?thesis
      by (auto simp del: run_calls.simps)
  next
    case (Release j)
    with Cons.prems have "invar (rel r j)" "i \<notin> claimed (rel r j)"
      by (auto simp: invar_rel rel_claimed)
    with Cons Release show ?thesis
      by (auto simp del: run_calls.simps)
  qed
qed simp

text \<open>Exclusive ownership: after an acquisition of \<open>i\<close>, no other acquisition of \<open>i\<close> succeeds
  until someone releases \<open>i\<close>, whatever else happens in between.\<close>

lemma acquire_exclusive:
  assumes "invar r" "i \<in> ids" "call_id ` set cs \<subseteq> ids" "Release i \<notin> set cs"
  shows "\<not> fst (acq (snd (run_calls acq rel r (Acquire i # cs))) i)"
proof -
  let ?r = "snd (acq r i)"
  have "invar ?r" "i \<in> claimed ?r"
    using assms by (auto simp: invar_acq acq_snd)
  then have "i \<in> claimed (snd (run_calls acq rel ?r cs))" "invar (snd (run_calls acq rel ?r cs))"
    using assms run_keeps_claim run_invar by blast+
  with \<open>i \<in> ids\<close> show ?thesis
    by (simp add: acq_fst del: run_calls.simps)
qed

text \<open>Progress: a released resource can be acquired again by the first one who asks.\<close>

lemma release_reusable:
  assumes "invar r" "i \<in> ids" "call_id ` set cs \<subseteq> ids" "Acquire i \<notin> set cs"
  shows "fst (acq (snd (run_calls acq rel r (Release i # cs))) i)"
proof -
  let ?r = "rel r i"
  have "invar ?r" "i \<notin> claimed ?r"
    using assms by (auto simp: invar_rel rel_claimed)
  then have "i \<notin> claimed (snd (run_calls acq rel ?r cs))" "invar (snd (run_calls acq rel ?r cs))"
    using assms run_keeps_free run_invar by blast+
  with \<open>i \<in> ids\<close> show ?thesis
    by (simp add: acq_fst del: run_calls.simps)
qed

end

section \<open>A bounded first-in first-out queue\<close>

text \<open>A history of queue calls by one producer and one consumer, in the order in which they
  take effect; \<open>run_fifo\<close> collects the items that were accepted and those that were returned.\<close>

datatype 'a fifo_op = Push 'a | Pop

fun run_fifo ::
    "('q \<Rightarrow> 'a \<Rightarrow> bool \<times> 'q) \<Rightarrow> ('q \<Rightarrow> 'a option \<times> 'q) \<Rightarrow> 'q \<Rightarrow> 'a fifo_op list \<Rightarrow> 'a list \<times> 'a list \<times> 'q" where
  "run_fifo push pop q [] = ([], [], q)"
| "run_fifo push pop q (Push x # ops) =
    (let (b, q1) = push q x; (acc, out, q2) = run_fifo push pop q1 ops
     in (if b then x # acc else acc, out, q2))"
| "run_fifo push pop q (Pop # ops) =
    (let (r, q1) = pop q; (acc, out, q2) = run_fifo push pop q1 ops
     in (acc, (case r of None \<Rightarrow> out | Some x \<Rightarrow> x # out), q2))"

locale bounded_fifo =
  fixes push :: "'q \<Rightarrow> 'a \<Rightarrow> bool \<times> 'q"
    and pop :: "'q \<Rightarrow> 'a option \<times> 'q"
    and invar :: "'q \<Rightarrow> bool"
    and contents :: "'q \<Rightarrow> 'a list"
    and cap :: nat
  assumes push_fst: "invar q \<Longrightarrow> fst (push q x) \<longleftrightarrow> length (contents q) < cap"
    and push_snd: "invar q \<Longrightarrow> contents (snd (push q x)) =
      (if length (contents q) < cap then contents q @ [x] else contents q)"
    and push_invar: "invar q \<Longrightarrow> invar (snd (push q x))"
    and pop_fst: "invar q \<Longrightarrow> fst (pop q) = (case contents q of [] \<Rightarrow> None | x # xs \<Rightarrow> Some x)"
    and pop_snd: "invar q \<Longrightarrow> contents (snd (pop q)) = tl (contents q)"
    and pop_invar: "invar q \<Longrightarrow> invar (snd (pop q))"
begin

text \<open>No item is lost, duplicated or reordered: what was there and what was accepted, in
  order, is what came out followed by what is still there.\<close>

lemma fifo_order:
  assumes "invar q" "run_fifo push pop q ops = (acc, out, q')"
  shows "invar q' \<and> contents q @ acc = out @ contents q'"
  using assms
proof (induction ops arbitrary: q acc out)
  case (Cons op ops)
  show ?case
  proof (cases op)
    case (Push x)
    obtain acc1 where run: "run_fifo push pop (snd (push q x)) ops = (acc1, out, q')"
      and acc: "acc = (if fst (push q x) then x # acc1 else acc1)"
      using Cons.prems(2) Push by (auto simp: Let_def split: prod.splits)
    show ?thesis
      using Cons.IH [OF push_invar [OF Cons.prems(1)] run] acc Cons.prems(1)
      by (auto simp: push_fst push_snd split: if_splits)
  next
    case Pop
    obtain out1 where run: "run_fifo push pop (snd (pop q)) ops = (acc, out1, q')"
      and out: "out = (case fst (pop q) of None \<Rightarrow> out1 | Some x \<Rightarrow> x # out1)"
      using Cons.prems(2) Pop by (auto simp: Let_def split: prod.splits)
    show ?thesis
      using Cons.IH [OF pop_invar [OF Cons.prems(1)] run] out Cons.prems(1)
      by (auto simp: pop_fst pop_snd split: list.splits)
  qed
qed auto

text \<open>A queue that has room for a whole burst accepts all of it.\<close>

lemma fifo_accepts_burst:
  assumes "invar q" "length (contents q) + length xs \<le> cap"
  shows "\<exists>q'. run_fifo push pop q (map Push xs) = (xs, [], q') \<and> contents q' = contents q @ xs"
  using assms
proof (induction xs arbitrary: q)
  case (Cons x xs)
  let ?q = "snd (push q x)"
  have step: "fst (push q x)" "contents ?q = contents q @ [x]" "invar ?q"
    using Cons.prems by (auto simp: push_fst push_snd push_invar)
  then obtain q' where "run_fifo push pop ?q (map Push xs) = (xs, [], q')"
    "contents q' = contents ?q @ xs"
    using Cons.IH [of ?q] Cons.prems by auto
  with step show ?case
    by (auto simp: split_def Let_def)
qed auto

end

section \<open>A bounded finite map\<close>

text \<open>A table of at most \<open>cap\<close> entries: an insertion is refused exactly when the table is full
  and the key is new. \<open>ok\<close> is the set of keys the table can hold.\<close>

fun insert_all :: "('t \<Rightarrow> 'k \<Rightarrow> 'v \<Rightarrow> 't option) \<Rightarrow> 't \<Rightarrow> ('k \<times> 'v) list \<Rightarrow> 't option" where
  "insert_all ins t [] = Some t"
| "insert_all ins t (kv # kvs) =
    (case ins t (fst kv) (snd kv) of None \<Rightarrow> None | Some t' \<Rightarrow> insert_all ins t' kvs)"

locale bounded_map =
  fixes lookup :: "'t \<Rightarrow> 'k \<Rightarrow> 'v option"
    and ins :: "'t \<Rightarrow> 'k \<Rightarrow> 'v \<Rightarrow> 't option"
    and invar :: "'t \<Rightarrow> bool"
    and ok :: "'k set"
    and cap :: nat
  assumes finite_dom: "invar t \<Longrightarrow> finite (dom (lookup t))"
    and card_dom: "invar t \<Longrightarrow> card (dom (lookup t)) \<le> cap"
    and ins_refused: "invar t \<Longrightarrow> k \<in> ok \<Longrightarrow>
      ins t k v = None \<longleftrightarrow> k \<notin> dom (lookup t) \<and> card (dom (lookup t)) = cap"
    and ins_lookup: "invar t \<Longrightarrow> k \<in> ok \<Longrightarrow> ins t k v = Some t' \<Longrightarrow>
      lookup t' = (lookup t)(k \<mapsto> v)"
    and ins_invar: "invar t \<Longrightarrow> k \<in> ok \<Longrightarrow> ins t k v = Some t' \<Longrightarrow> invar t'"
begin

lemma insert_all_lookup:
  "invar t \<Longrightarrow> fst ` set kvs \<subseteq> ok \<Longrightarrow> insert_all ins t kvs = Some t' \<Longrightarrow>
    invar t' \<and> lookup t' = lookup t ++ map_of (rev kvs)"
proof (induction kvs arbitrary: t)
  case (Cons kv kvs)
  then obtain t1 where t1: "ins t (fst kv) (snd kv) = Some t1" "insert_all ins t1 kvs = Some t'"
    by (auto split: option.splits)
  moreover have "invar t1" "lookup t1 = (lookup t)(fst kv \<mapsto> snd kv)"
    using Cons.prems t1(1) by (auto intro: ins_invar ins_lookup)
  ultimately show ?case
    using Cons.IH [of t1] Cons.prems by (cases kv) (auto simp: map_add_def fun_eq_iff split: option.splits)
qed simp

text \<open>Bindings succeed as long as the distinct names fit.\<close>

lemma insert_all_succeeds:
  "invar t \<Longrightarrow> fst ` set kvs \<subseteq> ok \<Longrightarrow> card (dom (lookup t) \<union> fst ` set kvs) \<le> cap \<Longrightarrow>
    insert_all ins t kvs \<noteq> None"
proof (induction kvs arbitrary: t)
  case (Cons kv kvs)
  let ?k = "fst kv" and ?D = "dom (lookup t)"
  have "ins t ?k (snd kv) \<noteq> None"
  proof
    assume "ins t ?k (snd kv) = None"
    then have "?k \<notin> ?D" "card ?D = cap"
      using Cons.prems by (auto simp: ins_refused)
    moreover have "card (insert ?k ?D) \<le> card (?D \<union> fst ` set (kv # kvs))"
      using Cons.prems(1) by (intro card_mono) (auto simp: finite_dom)
    ultimately show False
      using Cons.prems(1,3) by (simp add: finite_dom)
  qed
  then obtain t1 where t1: "ins t ?k (snd kv) = Some t1"
    by blast
  have "invar t1" "dom (lookup t1) = insert ?k ?D"
    using Cons.prems t1 by (auto intro: ins_invar simp: ins_lookup)
  then show ?case
    using Cons.IH [of t1] Cons.prems t1 by simp
qed simp

end

end
