(* ===== verification/Cap_Registry.thy ===== *)
theory Cap_Registry
  imports Interfaces
begin

text \<open>
  The capability registry of \<^verbatim>\<open>src/capabilities/registry.rs\<close>: one bit per hardware resource in
  eight 32-bit words, the address-to-capability map of each architecture, the access check
  that every memory command goes through, and the 256-bit range check. The static
  \<open>REGISTRY_BITS\<close> is a list of eight words passed explicitly; each atomic read-modify-write is
  one function on it, so an interleaving of them is a sequence of calls.
\<close>

unbundle bit_operations_syntax

section \<open>Capability identifiers and address ranges\<close>

datatype CapId = GpioA | GpioB | Uart0 | Spi0 | I2c0 | Timer0 | Dma0 | SuperUser

text \<open>The discriminants, as \<open>cap_id as usize\<close> reads them.\<close>

fun cap_num :: "CapId \<Rightarrow> nat" where
  "cap_num GpioA = 0"
| "cap_num GpioB = 1"
| "cap_num Uart0 = 2"
| "cap_num Spi0 = 3"
| "cap_num I2c0 = 4"
| "cap_num Timer0 = 5"
| "cap_num Dma0 = 6"
| "cap_num SuperUser = 31"

definition within :: "u32 \<Rightarrow> u32 \<Rightarrow> u32 \<Rightarrow> bool" where
  "within lo hi a \<longleftrightarrow> lo \<le> a \<and> a \<le> hi"

definition arm_addr_to_cap :: "u32 \<Rightarrow> CapId option" where
  "arm_addr_to_cap addr =
    (if within 0x40020000 0x400203FF addr then Some GpioA
     else if within 0x40020400 0x400207FF addr then Some GpioB
     else if within 0x40011000 0x400113FF addr then Some Uart0
     else if within 0x40013000 0x400133FF addr then Some Spi0
     else if within 0x40015400 0x400157FF addr then Some I2c0
     else if within 0x40000000 0x400003FF addr then Some Timer0
     else if within 0x40002000 0x400023FF addr then Some Dma0
     else None)"

definition riscv_addr_to_cap :: "u32 \<Rightarrow> CapId option" where
  "riscv_addr_to_cap addr =
    (if within 0x10012000 0x10012FFF addr then Some GpioA
     else if within 0x10013000 0x10013FFF addr then Some Uart0
     else if within 0x10014000 0x10014FFF addr then Some Spi0
     else if within 0x10020000 0x10020FFF addr then Some I2c0
     else if within 0x10015000 0x10015FFF addr then Some Timer0
     else if within 0x10000000 0x10000FFF addr then Some Dma0
     else None)"

definition addr_to_cap_id :: "arch \<Rightarrow> u32 \<Rightarrow> CapId option" where
  "addr_to_cap_id arch addr =
    (case arch of Arm \<Rightarrow> arm_addr_to_cap addr
     | Riscv32 \<Rightarrow> riscv_addr_to_cap addr
     | Host \<Rightarrow> None)"

section \<open>The bitfield\<close>

type_synonym registry = "u32 list"

definition WORDS :: nat where
  "WORDS = 8"

definition REGISTRY_BITS :: registry where
  "REGISTRY_BITS = replicate WORDS 0"

definition available :: "registry \<Rightarrow> nat \<Rightarrow> bool" where
  "available r resource_id =
    (let word = resource_id div 32; b = resource_id mod 32
     in case arr_get r word of
          Some w \<Rightarrow> w AND shl1 b = 0
        | None \<Rightarrow> False)"

definition is_claimed :: "registry \<Rightarrow> nat \<Rightarrow> bool" where
  "is_claimed r resource_id \<longleftrightarrow> \<not> available r resource_id"

definition acquire :: "registry \<Rightarrow> nat \<Rightarrow> bool \<times> registry" where
  "acquire r resource_id =
    (let word = resource_id div 32; b = resource_id mod 32
     in case arr_get r word of
          Some w \<Rightarrow>
            (let msk = shl1 b; prev = w
             in (prev AND msk = 0, r[word := w OR msk]))
        | None \<Rightarrow> (False, r))"

definition release :: "registry \<Rightarrow> nat \<Rightarrow> registry" where
  "release r resource_id =
    (let word = resource_id div 32; b = resource_id mod 32
     in case arr_get r word of
          Some w \<Rightarrow> r[word := w AND NOT (shl1 b)]
        | None \<Rightarrow> r)"

definition is_superuser_active :: "registry \<Rightarrow> bool" where
  "is_superuser_active r \<longleftrightarrow> \<not> available r (cap_num SuperUser)"

text \<open>\<open>check_access\<close>: superuser first, then the peripheral's own capability, then the
  RAM and flash ranges of the architecture; everything else asks for the superuser.\<close>

definition is_ram_flash :: "arch \<Rightarrow> u32 \<Rightarrow> bool" where
  "is_ram_flash arch addr =
    (case arch of
       Arm \<Rightarrow> within 0x08000000 0x080FFFFF addr \<or> within 0x20000000 0x2001C000 addr
     | Riscv32 \<Rightarrow> within 0x20000000 0x2000FFFF addr \<or> within 0x80000000 0x8000FFFF addr
     | Host \<Rightarrow> True)"

definition check_access :: "arch \<Rightarrow> registry \<Rightarrow> u32 \<Rightarrow> CapId + unit" where
  "check_access arch r addr =
    (if is_superuser_active r then Inr ()
     else case addr_to_cap_id arch addr of
            Some cap_id \<Rightarrow> if \<not> is_claimed r (cap_num cap_id) then Inl cap_id else Inr ()
          | None \<Rightarrow> if is_ram_flash arch addr then Inr () else Inl SuperUser)"

section \<open>The 256-bit range check\<close>

datatype Mask256 = Mask256 "u64 list"

fun mask_words :: "Mask256 \<Rightarrow> u64 list" where
  "mask_words (Mask256 m) = m"

text \<open>\<open>mask[offset >> 6] |= 1u64 << (offset & 63)\<close>\<close>

definition set_mask_bit :: "u64 list \<Rightarrow> nat \<Rightarrow> u64 list" where
  "set_mask_bit m offset =
    m[offset div 64 := (m ! (offset div 64)) OR push_bit (offset mod 64) 1]"

definition build_mask :: "u32 \<Rightarrow> nat \<Rightarrow> Mask256 option" where
  "build_mask addr len =
    (if len = 0 \<or> len > 256 then None
     else let k_start = unat (drop_bit 12 addr);
              k_end = k_start + len - 1;
              window_base = k_start - k_start mod 256
          in if k_end \<ge> window_base + 256 then None
             else Some (Mask256 (fold (\<lambda>k m. set_mask_bit m (k - window_base))
                                  [k_start..<k_end + 1] (replicate 4 0))))"

definition verify_scalar :: "registry \<Rightarrow> u32 \<Rightarrow> bool" where
  "verify_scalar r addr =
    (let k = unat (drop_bit 12 addr); word = k div 32; b = k mod 32
     in case arr_get r word of
          Some w \<Rightarrow> drop_bit b w AND 1 = 1
        | None \<Rightarrow> False)"

definition verify_vector :: "Mask256 \<Rightarrow> u64 list \<Rightarrow> bool" where
  "verify_vector mreq vcap =
    (let m = mask_words mreq
     in vcap ! 0 AND m ! 0 = m ! 0
      \<and> vcap ! 1 AND m ! 1 = m ! 1
      \<and> vcap ! 2 AND m ! 2 = m ! 2
      \<and> vcap ! 3 AND m ! 3 = m ! 3)"

text \<open>\<open>REGISTRY_BITS.0.as_ptr().add(u32_word) as *const u64\<close>, read as four little-endian
  64-bit words. The pointer arithmetic is unchecked in the source: a window that does not
  lie inside the eight-word registry is read out of bounds, which is undefined behaviour,
  and \<open>None\<close> here.\<close>

definition vcap_window :: "registry \<Rightarrow> nat \<Rightarrow> u64 list option" where
  "vcap_window r u32_word =
    (if u32_word + 8 \<le> length r
     then Some (map (\<lambda>j. ucast (r ! (u32_word + 2 * j))
                         OR push_bit 32 (ucast (r ! (u32_word + 2 * j + 1)))) [0..<4])
     else None)"

text \<open>The scan that names the first missing capability after the vector test failed.\<close>

fun first_missing :: "arch \<Rightarrow> registry \<Rightarrow> u32 \<Rightarrow> nat list \<Rightarrow> CapId" where
  "first_missing arch r addr [] = SuperUser"
| "first_missing arch r addr (offset # offsets) =
    (let a = addr + of_nat offset * 4096
     in case addr_to_cap_id arch a of
          Some cap \<Rightarrow>
            if \<not> is_claimed r (cap_num cap) then cap
            else first_missing arch r addr offsets
        | None \<Rightarrow>
            if \<not> (within 0x08000000 0x080FFFFF a \<or> within 0x20000000 0x2001C000 a
                  \<or> within 0x80000000 0x8000FFFF a)
               \<and> \<not> is_claimed r (cap_num SuperUser)
            then SuperUser
            else first_missing arch r addr offsets)"

text \<open>The scalar fallback: \<open>check_access\<close> on each block, stopping at the first error.\<close>

fun check_blocks :: "arch \<Rightarrow> registry \<Rightarrow> u32 \<Rightarrow> nat list \<Rightarrow> CapId + unit" where
  "check_blocks arch r addr [] = Inr ()"
| "check_blocks arch r addr (offset # offsets) =
    (case check_access arch r (addr + of_nat offset * 4096) of
       Inl e \<Rightarrow> Inl e
     | Inr _ \<Rightarrow> check_blocks arch r addr offsets)"

definition verify_range_contiguous :: "arch \<Rightarrow> registry \<Rightarrow> u32 \<Rightarrow> nat \<Rightarrow> (CapId + unit) option" where
  "verify_range_contiguous arch r addr len =
    (if len = 0 then Some (Inr ())
     else if is_superuser_active r then Some (Inr ())
     else case build_mask addr len of
            Some mreq \<Rightarrow>
              (let k_start = unat (drop_bit 12 addr);
                   window_base = k_start - k_start mod 256;
                   u32_word = window_base div 32
               in case vcap_window r u32_word of
                    None \<Rightarrow> None
                  | Some vcap \<Rightarrow>
                      if verify_vector mreq vcap then Some (Inr ())
                      else Some (Inl (first_missing arch r addr [0..<len])))
          | None \<Rightarrow> Some (check_blocks arch r addr [0..<len]))"

section \<open>What the bitfield holds\<close>

definition registry_inv :: "registry \<Rightarrow> bool" where
  "registry_inv r \<longleftrightarrow> length r = WORDS"

definition claimed_ids :: "registry \<Rightarrow> nat set" where
  "claimed_ids r = {i. i < 256 \<and> bit (r ! (i div 32)) (i mod 32)}"

lemma registry_inv_initial [simp]: "registry_inv REGISTRY_BITS"
  by (simp add: registry_inv_def REGISTRY_BITS_def)

lemma claimed_ids_initial [simp]: "claimed_ids REGISTRY_BITS = {}"
  by (auto simp: claimed_ids_def REGISTRY_BITS_def WORDS_def)

lemma registry_index: "i < 256 \<Longrightarrow> i div 32 < (8::nat)"
  by (simp add: less_mult_imp_div_less)

lemma arr_get_registry:
  "registry_inv r \<Longrightarrow>
    arr_get r (i div 32) = (if i < 256 then Some (r ! (i div 32)) else None)"
  by (auto simp: arr_get_def registry_inv_def WORDS_def)

lemma registry_inv_acquire [simp]: "registry_inv r \<Longrightarrow> registry_inv (snd (acquire r i))"
  by (auto simp: acquire_def registry_inv_def Let_def split: option.splits)

lemma registry_inv_release [simp]: "registry_inv r \<Longrightarrow> registry_inv (release r i)"
  by (auto simp: release_def registry_inv_def Let_def split: option.splits)

lemma available_iff: "registry_inv r \<Longrightarrow> available r i \<longleftrightarrow> i < 256 \<and> i \<notin> claimed_ids r"
  by (auto simp: available_def arr_get_registry and_shl1_eq_0 claimed_ids_def)

lemma is_claimed_iff: "registry_inv r \<Longrightarrow> is_claimed r i \<longleftrightarrow> i \<ge> 256 \<or> i \<in> claimed_ids r"
  by (auto simp: is_claimed_def available_iff)

lemma fst_acquire: "registry_inv r \<Longrightarrow> fst (acquire r i) \<longleftrightarrow> i < 256 \<and> i \<notin> claimed_ids r"
  by (auto simp: acquire_def arr_get_registry and_shl1_eq_0 claimed_ids_def Let_def)

text \<open>Two ids share a word exactly when their quotients agree, and then they differ in the
  bit position.\<close>

lemma id_split: "(i::nat) = j \<longleftrightarrow> i div 32 = j div 32 \<and> i mod 32 = j mod 32"
  by (metis div_mult_mod_eq)

lemma bit_update_word:
  assumes "registry_inv r" "i < 256" "j < 256"
  shows "bit (r[i div 32 := f (r ! (i div 32))] ! (j div 32)) (j mod 32) \<longleftrightarrow>
    (if i div 32 = j div 32 then bit (f (r ! (i div 32))) (j mod 32)
     else bit (r ! (j div 32)) (j mod 32))"
  using assms registry_index [of i] by (auto simp: registry_inv_def WORDS_def nth_list_update)

lemma claimed_acquire:
  assumes "registry_inv r" "i < 256"
  shows "claimed_ids (snd (acquire r i)) = insert i (claimed_ids r)"
proof -
  have "snd (acquire r i) = r[i div 32 := (r ! (i div 32)) OR shl1 (i mod 32)]"
    using assms by (simp add: acquire_def arr_get_registry Let_def)
  then show ?thesis
    using assms bit_update_word [OF assms(1,2), where f = "\<lambda>w. w OR shl1 (i mod 32)"]
    by (auto simp: claimed_ids_def bits_simps bit_or_iff id_split [of _ i] split: if_splits)
qed

lemma claimed_release:
  assumes "registry_inv r" "i < 256"
  shows "claimed_ids (release r i) = claimed_ids r - {i}"
proof -
  have "release r i = r[i div 32 := (r ! (i div 32)) AND NOT (shl1 (i mod 32))]"
    using assms by (simp add: release_def arr_get_registry Let_def)
  then show ?thesis
    using assms bit_update_word [OF assms(1,2), where f = "\<lambda>w. w AND NOT (shl1 (i mod 32))"]
    by (auto simp: claimed_ids_def bits_simps id_split [of _ i] split: if_splits)
qed

lemma acquire_out_of_range:
  "registry_inv r \<Longrightarrow> i \<ge> 256 \<Longrightarrow> acquire r i = (False, r) \<and> release r i = r"
  by (simp add: acquire_def release_def arr_get_registry)

interpretation reg: capability_set acquire release available registry_inv claimed_ids "{..<256}"
  by unfold_locales (auto simp: fst_acquire claimed_acquire claimed_release available_iff)

section \<open>Masks and windows\<close>

definition mask_bit :: "u64 list \<Rightarrow> nat \<Rightarrow> bool" where
  "mask_bit m i \<longleftrightarrow> bit (m ! (i div 64)) (i mod 64)"

lemma mask_index: "i < 256 \<Longrightarrow> i div 64 < (4::nat)"
  by (simp add: less_mult_imp_div_less)

lemma length_set_mask_bit [simp]: "length (set_mask_bit m i) = length m"
  by (simp add: set_mask_bit_def)

lemma mask_bit_zero [simp]: "i < 256 \<Longrightarrow> \<not> mask_bit (replicate 4 0) i"
  using mask_index [of i] by (simp add: mask_bit_def)

lemma id_split64: "(i::nat) = j \<longleftrightarrow> i div 64 = j div 64 \<and> i mod 64 = j mod 64"
  by (metis div_mult_mod_eq)

lemma mask_bit_set:
  assumes "length m = 4" "i < 256" "j < 256"
  shows "mask_bit (set_mask_bit m j) i \<longleftrightarrow> i = j \<or> mask_bit m i"
  using assms mask_index [of j]
  by (auto simp: mask_bit_def set_mask_bit_def nth_list_update bit_simps id_split64 [of i j])

lemma mask_bit_fold:
  assumes "length m = 4" "i < 256" "\<forall>k\<in>set ks. k - base < 256"
  shows "mask_bit (fold (\<lambda>k m. set_mask_bit m (k - base)) ks m) i \<longleftrightarrow>
    mask_bit m i \<or> (\<exists>k\<in>set ks. k - base = i)"
  using assms
  by (induction ks arbitrary: m) (auto simp: mask_bit_set)

lemma length_fold_set_mask_bit [simp]:
  "length (fold (\<lambda>k m. set_mask_bit m (k - base)) ks m) = length m"
  by (induction ks arbitrary: m) auto

lemma build_mask_Some:
  assumes "build_mask addr len = Some mreq"
  defines "k \<equiv> unat (drop_bit 12 addr)"
  shows "0 < len" "k mod 256 + len \<le> 256"
    and "i < 256 \<Longrightarrow> mask_bit (mask_words mreq) i \<longleftrightarrow> k mod 256 \<le> i \<and> i < k mod 256 + len"
proof -
  let ?base = "k - k mod 256"
  have base: "?base + k mod 256 = k"
    by simp
  have fits: "0 < len" "k + len \<le> ?base + 256"
    and m: "mask_words mreq = fold (\<lambda>j m. set_mask_bit m (j - ?base)) [k..<k + len] (replicate 4 0)"
    using assms by (auto simp: build_mask_def Let_def split: if_splits)
  show "0 < len" "k mod 256 + len \<le> 256"
    using fits base by auto
  have small: "\<forall>j\<in>set [k..<k + len]. j - ?base < 256"
    using fits by auto
  assume i: "i < 256"
  have "mask_bit (mask_words mreq) i \<longleftrightarrow> (\<exists>j\<in>set [k..<k + len]. j - ?base = i)"
    using mask_bit_fold [OF _ i small, of "replicate 4 0"] i by (simp add: m)
  also have "\<dots> \<longleftrightarrow> k mod 256 \<le> i \<and> i < k mod 256 + len"
    using base by (auto intro!: bexI [of _ "?base + i"])
  finally show "mask_bit (mask_words mreq) i \<longleftrightarrow> k mod 256 \<le> i \<and> i < k mod 256 + len" .
qed

lemma build_mask_None:
  "build_mask addr len = None \<longleftrightarrow>
    len = 0 \<or> unat (drop_bit 12 addr) mod 256 + len > 256"
proof -
  have "k - q + 256 \<le> k + len - 1 \<longleftrightarrow> 256 < q + len" if "0 < len" "q \<le> k" for k q :: nat
    using that by arith
  then show ?thesis
    by (auto simp: build_mask_def Let_def)
qed

lemma verify_vector_iff:
  assumes "length vcap = 4"
  shows "verify_vector mreq vcap \<longleftrightarrow>
    (\<forall>i<256. mask_bit (mask_words mreq) i \<longrightarrow> mask_bit vcap i)"
proof -
  have "(\<forall>i<256. mask_bit (mask_words mreq) i \<longrightarrow> mask_bit vcap i) \<longleftrightarrow>
    (\<forall>w<4. \<forall>k<64. bit (mask_words mreq ! w) k \<longrightarrow> bit (vcap ! w) k)"
    (is "?L \<longleftrightarrow> ?R")
  proof
    assume L: ?L
    show ?R
    proof (intro allI impI)
      fix w k :: nat
      assume "w < 4" "k < 64" "bit (mask_words mreq ! w) k"
      then show "bit (vcap ! w) k"
        using L [rule_format, of "64 * w + k"] by (simp add: mask_bit_def)
    qed
  next
    assume ?R
    then show ?L
      by (simp add: mask_bit_def mask_index)
  qed
  also have "\<dots> \<longleftrightarrow> (\<forall>w<4. vcap ! w AND mask_words mreq ! w = mask_words mreq ! w)"
    by (auto simp: and_eq_mask_iff dest: bit_u64_bound)
  also have "\<dots> \<longleftrightarrow> verify_vector mreq vcap"
    by (auto simp: verify_vector_def Let_def numeral_eq_Suc less_Suc_eq)
  finally show ?thesis
    by simp
qed

lemma div_mod_32_64:
  "(i::nat) div 32 = 2 * (i div 64) + i mod 64 div 32" "i mod 32 = i mod 64 mod 32"
proof -
  have i: "i = i mod 64 + 2 * (i div 64) * 32"
    by (simp add: mult.commute)
  show "i div 32 = 2 * (i div 64) + i mod 64 div 32"
    by (subst i, subst div_mult_self1) auto
  show "i mod 32 = i mod 64 mod 32"
    by (subst i, subst mod_mult_self1) auto
qed

text \<open>The window read at the start of the registry shows bit \<open>i\<close> exactly for claimed ids.\<close>

lemma vcap_window_0:
  assumes "registry_inv r"
  obtains vcap where "vcap_window r 0 = Some vcap" "length vcap = 4"
    "\<And>i. i < 256 \<Longrightarrow> mask_bit vcap i \<longleftrightarrow> i \<in> claimed_ids r"
proof -
  let ?v = "map (\<lambda>j. ucast (r ! (2 * j)) OR push_bit 32 (ucast (r ! (2 * j + 1)))) [0..<4] :: u64 list"
  have "vcap_window r 0 = Some ?v"
    using assms by (simp add: vcap_window_def registry_inv_def WORDS_def)
  moreover have "mask_bit ?v i \<longleftrightarrow> i \<in> claimed_ids r" if "i < 256" for i
  proof (cases "i mod 64 < 32")
    case True
    then have "i div 32 = 2 * (i div 64)" "i mod 32 = i mod 64"
      by (simp_all add: div_mod_32_64 [of i])
    with True that mask_index [OF that] show ?thesis
      by (auto simp: mask_bit_def claimed_ids_def bit_simps)
  next
    case False
    moreover from False have "i mod 64 div 32 = 1" "i mod 64 mod 32 = i mod 64 - 32"
      using div_nat_eqI [of 1 32 "i mod 64"] by (simp_all add: le_mod_geq)
    ultimately have "i div 32 = 2 * (i div 64) + 1" "i mod 32 = i mod 64 - 32"
      by (simp_all add: div_mod_32_64 [of i])
    with False that mask_index [OF that] show ?thesis
      by (auto simp: mask_bit_def claimed_ids_def bit_simps dest: bit_u32_bound)
  qed
  ultimately show ?thesis
    using that by (metis (no_types, lifting) length_map length_upt diff_zero)
qed

lemma vcap_window_outside:
  "registry_inv r \<Longrightarrow> 0 < u32_word \<Longrightarrow> vcap_window r u32_word = None"
  by (simp add: vcap_window_def registry_inv_def WORDS_def)

lemma verify_scalar_iff:
  "registry_inv r \<Longrightarrow> verify_scalar r addr \<longleftrightarrow> unat (drop_bit 12 addr) \<in> claimed_ids r"
  by (auto simp: verify_scalar_def arr_get_registry drop_bit_and_1_eq claimed_ids_def Let_def)

lemma unat_block: "unat (drop_bit 12 (addr :: u32)) = unat addr div 4096"
  by (simp add: drop_bit_eq_div unat_div)

lemma unat_block_offset:
  assumes "unat addr div 4096 + offset < 2 ^ 20"
  shows "unat (drop_bit 12 (addr + of_nat offset * 4096 :: u32)) = unat (drop_bit 12 addr) + offset"
proof -
  have "unat addr + offset * 4096 < 2 ^ 32"
    using assms by simp
  then have "unat (addr + of_nat offset * 4096) = unat addr + offset * 4096"
    by (simp add: unat_word_ariths unat_of_nat)
  then show ?thesis
    by (simp add: unat_block)
qed

lemma cap_num_less [simp]: "cap_num c < 256"
  by (cases c) auto

lemma cap_num_inject [simp]: "cap_num c = cap_num d \<longleftrightarrow> c = d"
  by (cases c; cases d) auto

lemma superuser_iff: "registry_inv r \<Longrightarrow> is_superuser_active r \<longleftrightarrow> cap_num SuperUser \<in> claimed_ids r"
  by (simp add: is_superuser_active_def available_iff)

lemma is_claimed_cap: "registry_inv r \<Longrightarrow> is_claimed r (cap_num c) \<longleftrightarrow> cap_num c \<in> claimed_ids r"
  by (cases c) (auto simp: is_claimed_iff)

lemmas access_simps = check_access_def superuser_iff is_claimed_cap claimed_acquire claimed_release

section \<open>Correctness of the registry\<close>

text \<open>C8. The bitfield implements a set of owned resource ids. On every id below 256,
  \<open>acquire\<close> succeeds exactly when the id is free and adds it, \<open>release\<close> removes it, and
  \<open>available\<close> and \<open>is_claimed\<close> report membership; no call touches another id. Ids of 256
  and above are never granted and change nothing.\<close>

theorem registry_refines_set:
  assumes "registry_inv r"
  shows "(i < 256 \<longrightarrow>
      (fst (acquire r i) \<longleftrightarrow> i \<notin> claimed_ids r)
      \<and> claimed_ids (snd (acquire r i)) = insert i (claimed_ids r)
      \<and> claimed_ids (release r i) = claimed_ids r - {i}
      \<and> (available r i \<longleftrightarrow> i \<notin> claimed_ids r)
      \<and> (is_claimed r i \<longleftrightarrow> i \<in> claimed_ids r))
    \<and> (256 \<le> i \<longrightarrow> acquire r i = (False, r) \<and> release r i = r)
    \<and> registry_inv (snd (acquire r i)) \<and> registry_inv (release r i)"
  using assms
  by (auto simp: fst_acquire claimed_acquire claimed_release available_iff is_claimed_iff
      acquire_out_of_range)

theorem registry_refines_set_witness:
  "fst (acquire REGISTRY_BITS 5)
    \<and> claimed_ids (snd (acquire REGISTRY_BITS 5)) = insert 5 (claimed_ids REGISTRY_BITS)"
  using registry_refines_set [OF registry_inv_initial, of 5] by simp

text \<open>Exclusive ownership: once \<open>acquire\<close> has been called on a resource, every later
  \<open>acquire\<close> of it fails until it is released, however the calls of the command loop and
  of interrupt handlers interleave; and a released resource is granted to the next caller.\<close>

theorem registry_acquire_exclusive:
  assumes "registry_inv r" "i < 256" "\<forall>c\<in>set cs. call_id c < 256"
  shows "(Release i \<notin> set cs \<longrightarrow>
      \<not> fst (acquire (snd (run_calls acquire release r (Acquire i # cs))) i))
    \<and> (Acquire i \<notin> set cs \<longrightarrow>
      fst (acquire (snd (run_calls acquire release r (Release i # cs))) i))"
  using assms reg.acquire_exclusive [of r i cs] reg.release_reusable [of r i cs]
  by (auto simp: image_subset_iff)

theorem registry_acquire_exclusive_witness:
  "\<not> fst (acquire (snd (run_calls acquire release REGISTRY_BITS
        [Acquire 3, Acquire 31, Release 31])) 3)
    \<and> fst (acquire (snd (run_calls acquire release REGISTRY_BITS
        [Release 3, Acquire 31, Release 31])) 3)"
  using registry_acquire_exclusive [OF registry_inv_initial, of 3 "[Acquire 31, Release 31]"]
  by (simp del: run_calls.simps)

text \<open>The access policy, as a table: the id of the capability that guards a region (none for RAM and flash), its base
  and its size in bytes. The second region without a guard on ARM ends with the byte at 0x2001C000.\<close>

definition memory_map :: "arch \<Rightarrow> (nat option \<times> nat \<times> nat) list" where
  "memory_map arch =
    (case arch of
       Arm \<Rightarrow>
         [(Some 0, 0x40020000, 0x400), (Some 1, 0x40020400, 0x400), (Some 2, 0x40011000, 0x400), (Some 3, 0x40013000, 0x400),
          (Some 4, 0x40015400, 0x400), (Some 5, 0x40000000, 0x400), (Some 6, 0x40002000, 0x400),
          (None, 0x08000000, 0x100000), (None, 0x20000000, 0x1C001)]
     | Riscv32 \<Rightarrow>
         [(Some 0, 0x10012000, 0x1000), (Some 2, 0x10013000, 0x1000), (Some 3, 0x10014000, 0x1000), (Some 4, 0x10020000, 0x1000),
          (Some 5, 0x10015000, 0x1000), (Some 6, 0x10000000, 0x1000), (None, 0x20000000, 0x10000), (None, 0x80000000, 0x10000)]
     | Host \<Rightarrow> [(None, 0, 0x100000000)])"

definition guarded_by :: "arch \<Rightarrow> u32 \<Rightarrow> nat option \<Rightarrow> bool" where
  "guarded_by arch addr g \<longleftrightarrow>
    (\<exists>(g', b, n)\<in>set (memory_map arch). g' = g \<and> b \<le> unat addr \<and> unat addr < b + n)"

lemma within_unat: "within lo hi a \<longleftrightarrow> unat lo \<le> unat a \<and> unat a < Suc (unat hi)"
  by (auto simp: within_def word_le_nat_alt)

lemma addr_to_cap_guard: "guarded_by arch addr (Some i) \<longleftrightarrow> map_option cap_num (addr_to_cap_id arch addr) = Some i"
  by (cases arch) (auto simp: guarded_by_def memory_map_def addr_to_cap_id_def arm_addr_to_cap_def riscv_addr_to_cap_def within_unat)

lemma is_ram_flash_guard: "guarded_by arch addr None \<longleftrightarrow> is_ram_flash arch addr"
proof -
  have "unat addr < 4294967296"
    using unsigned_less [of addr] by simp
  then show ?thesis
    by (cases arch) (auto simp: guarded_by_def memory_map_def is_ram_flash_def within_unat)
qed

lemma ram_flash_no_cap: "is_ram_flash arch addr \<Longrightarrow> addr_to_cap_id arch addr = None"
  by (cases arch) (auto simp: is_ram_flash_def addr_to_cap_id_def arm_addr_to_cap_def riscv_addr_to_cap_def within_unat)

text \<open>C9. The access decision, against the memory map. Without the superuser capability (id 31), \<open>check_access\<close> grants an address exactly when it lies in RAM or flash, or in the block of
  a peripheral whose capability is held, where the blocks and ids of either target are those of the table above (on a host, all addresses are granted). A refused address reports the capability that guards
  it, or the superuser's when it lies in no region, and acquiring what is reported makes the address accessible.\<close>

theorem check_access_grants:
  assumes "registry_inv r"
  shows "(check_access arch r addr = Inr () \<longleftrightarrow>
      31 \<in> claimed_ids r \<or> guarded_by arch addr None \<or> (\<exists>i\<in>claimed_ids r. guarded_by arch addr (Some i)))
    \<and> (check_access arch r addr = Inl c \<longleftrightarrow>
      31 \<notin> claimed_ids r \<and>
      (guarded_by arch addr (Some (cap_num c)) \<and> cap_num c \<notin> claimed_ids r
       \<or> cap_num c = 31 \<and> (\<forall>g. \<not> guarded_by arch addr g)))
    \<and> (check_access arch r addr = Inl c \<longrightarrow> check_access arch (snd (acquire r (cap_num c))) addr = Inr ())"
proof -
  have inj: "cap_num a = cap_num b \<longleftrightarrow> a = b" for a b
    by (cases a; cases b) simp_all
  have su: "cap_num c = 31 \<longleftrightarrow> c = SuperUser"
    using inj [of c SuperUser] by simp
  have any: "(\<forall>g. \<not> guarded_by arch addr g) \<longleftrightarrow> addr_to_cap_id arch addr = None \<and> \<not> is_ram_flash arch addr"
    by (metis addr_to_cap_guard is_ram_flash_guard not_None_eq option.map_disc_iff)
  have check: "check_access arch r addr = (if 31 \<in> claimed_ids r then Inr () else case addr_to_cap_id arch addr of
      Some c \<Rightarrow> if cap_num c \<in> claimed_ids r then Inr () else Inl c | None \<Rightarrow> if is_ram_flash arch addr then Inr () else Inl SuperUser)"
    using assms by (simp add: access_simps del: cap_num.simps(1-7) split: option.split)
  show ?thesis
    unfolding any su unfolding addr_to_cap_guard is_ram_flash_guard
    using ram_flash_no_cap [of arch addr] assms
    by (auto simp: check inj simp del: cap_num.simps split: option.splits if_splits) (auto simp: access_simps simp del: cap_num.simps split: option.splits)
qed

theorem check_access_grants_witness:
  "check_access Arm REGISTRY_BITS 0x40020000 = Inl GpioA
    \<and> check_access Arm (snd (acquire REGISTRY_BITS (cap_num GpioA))) 0x40020000 = Inr ()"
proof -
  have "guarded_by Arm 0x40020000 (Some (cap_num GpioA))"
    by (simp add: guarded_by_def memory_map_def)
  then show ?thesis
    using check_access_grants [OF registry_inv_initial, of Arm "0x40020000" GpioA] by simp
qed

text \<open>Least privilege: dropping a capability other than the superuser's revokes access to the
  addresses of its own peripheral only, and acquiring one never revokes any access.\<close>

theorem check_access_local:
  assumes "registry_inv r"
  shows "(c \<noteq> SuperUser \<and> addr_to_cap_id arch addr \<noteq> Some c \<longrightarrow>
      check_access arch (release r (cap_num c)) addr = check_access arch r addr)
    \<and> (check_access arch r addr = Inr () \<longrightarrow>
      check_access arch (snd (acquire r (cap_num c))) addr = Inr ())"
  using assms
  by (auto simp: access_simps simp del: cap_num.simps split: option.splits if_splits)

theorem check_access_local_witness:
  "check_access Arm (release (snd (acquire REGISTRY_BITS 0)) (cap_num GpioA)) 0x20000000
    = check_access Arm (snd (acquire REGISTRY_BITS 0)) 0x20000000"
  using check_access_local [of "snd (acquire REGISTRY_BITS 0)" GpioA Arm "0x20000000"]
  by (simp add: addr_to_cap_id_def arm_addr_to_cap_def within_def)

text \<open>Inside the window the registry covers, the 256-bit vector test agrees with the
  one-block test on every block of the range: \<open>verify_range_contiguous\<close> accepts exactly
  when \<open>verify_scalar\<close> accepts each of the \<open>len\<close> blocks.\<close>

theorem verify_range_agrees_with_scalar:
  assumes "registry_inv r" "\<not> is_superuser_active r" "0 < len"
    and "unat addr div 4096 + len \<le> 256"
  shows "verify_range_contiguous arch r addr len =
    Some (if \<forall>offset<len. verify_scalar r (addr + of_nat offset * 4096) then Inr ()
          else Inl (first_missing arch r addr [0..<len]))"
proof -
  define k where "k = unat (drop_bit 12 addr)"
  have k: "k < 256" "k mod 256 = k" "k + len \<le> 256"
    using assms by (simp_all add: k_def unat_block)
  then obtain mreq where mreq: "build_mask addr len = Some mreq"
    using build_mask_None [of addr len] assms(3) by (cases "build_mask addr len") (auto simp: k_def)
  obtain vcap where vcap: "vcap_window r 0 = Some vcap" "length vcap = 4"
    "\<And>i. i < 256 \<Longrightarrow> mask_bit vcap i \<longleftrightarrow> i \<in> claimed_ids r"
    using vcap_window_0 [OF assms(1)] by blast
  have scalar: "verify_scalar r (addr + of_nat offset * 4096) \<longleftrightarrow> k + offset \<in> claimed_ids r"
    if "offset < len" for offset
  proof -
    have "unat addr div 4096 + offset < 2 ^ 20"
      using that assms(4) by simp
    from unat_block_offset [OF this] show ?thesis
      by (simp add: verify_scalar_iff [OF assms(1)] k_def)
  qed
  have "verify_vector mreq vcap \<longleftrightarrow> (\<forall>i<256. k \<le> i \<and> i < k + len \<longrightarrow> i \<in> claimed_ids r)"
    using build_mask_Some(3) [OF mreq] k vcap by (simp add: verify_vector_iff flip: k_def)
  also have "\<dots> \<longleftrightarrow> (\<forall>offset<len. k + offset \<in> claimed_ids r)"
    using k by (metis add_less_cancel_left le_add1 le_add_diff_inverse less_le_trans)
  finally show ?thesis
    using assms mreq vcap k scalar by (simp add: verify_range_contiguous_def flip: k_def)
qed

theorem verify_range_agrees_with_scalar_witness:
  "verify_range_contiguous Arm (snd (acquire REGISTRY_BITS 0)) 0 1 = Some (Inr ())"
proof -
  have "\<not> is_superuser_active (snd (acquire REGISTRY_BITS 0))"
    "verify_scalar (snd (acquire REGISTRY_BITS 0)) 0"
    by code_simp+
  with verify_range_agrees_with_scalar [of "snd (acquire REGISTRY_BITS 0)" 1 0 Arm] show ?thesis
    by simp
qed

text \<open>Outside that window the range check leaves the registry: for every range that starts at
  or above 1 MiB and fits one window, which includes every peripheral of both targets, the
  pointer arithmetic of \<open>verify_range_contiguous\<close> reads past the eight registry words.\<close>

theorem verify_range_reads_out_of_bounds:
  assumes "registry_inv r" "\<not> is_superuser_active r" "0 < len"
    and "unat addr div 4096 mod 256 + len \<le> 256" "2 ^ 20 \<le> unat addr"
  shows "verify_range_contiguous arch r addr len = None"
proof -
  define k where "k = unat (drop_bit 12 addr)"
  have "256 \<le> k"
    using assms(5) by (simp add: k_def unat_block)
  then have "0 < k div 256" "k - k mod 256 = k div 256 * 8 * 32"
    by (simp_all add: div_greater_zero_iff minus_mod_eq_div_mult)
  then have "0 < (k - k mod 256) div 32"
    by (simp del: minus_mod_eq_mult_div)
  moreover obtain mreq where "build_mask addr len = Some mreq"
    using build_mask_None [of addr len] assms(3,4)
    by (cases "build_mask addr len") (auto simp: unat_block)
  ultimately show ?thesis
    using assms vcap_window_outside [OF assms(1)]
    by (simp add: verify_range_contiguous_def flip: k_def)
qed

theorem verify_range_reads_out_of_bounds_witness:
  "verify_range_contiguous Arm (snd (acquire REGISTRY_BITS 0)) 0x40020000 1 = None"
proof -
  have "\<not> is_superuser_active (snd (acquire REGISTRY_BITS 0))"
    by code_simp
  with verify_range_reads_out_of_bounds [of "snd (acquire REGISTRY_BITS 0)" 1 "0x40020000" Arm]
  show ?thesis
    by simp
qed

end
