(* ===== verification/Cap_Audit.thy ===== *)
theory Cap_Audit
  imports HROS_Prelude
begin

text \<open>
  The superuser audit log of \<^verbatim>\<open>src/capabilities/audit.rs\<close>: a ring of sixteen records and a
  saturating event counter. The cycle counter is a hardware register (DWT on ARM, \<open>mcycle\<close> on
  RISC-V); its value at the time of the call is an argument.
\<close>

record AuditEntry =
  ae_addr :: u32
  ae_val :: u32
  ae_cycles :: u32

record AuditLog =
  al_buffer :: "AuditEntry list"
  al_head :: nat
  al_count :: nat

definition audit_new :: AuditLog where
  "audit_new =
    \<lparr>al_buffer = replicate 16 \<lparr>ae_addr = 0, ae_val = 0, ae_cycles = 0\<rparr>, al_head = 0, al_count = 0\<rparr>"

definition get_cycle_count :: "arch \<Rightarrow> u32 \<Rightarrow> u32" where
  "get_cycle_count arch counter = (case arch of Host \<Rightarrow> 0 | _ \<Rightarrow> counter)"

text \<open>\<open>count.saturating_add(1)\<close> on a 32-bit \<open>usize\<close>.\<close>

definition saturating_inc :: "nat \<Rightarrow> nat" where
  "saturating_inc n = min (n + 1) (2 ^ 32 - 1)"

definition record_event :: "arch \<Rightarrow> u32 \<Rightarrow> AuditLog \<Rightarrow> u32 \<Rightarrow> u32 \<Rightarrow> AuditLog" where
  "record_event arch counter log addr val =
    (let cycles = get_cycle_count arch counter
     in log\<lparr>al_buffer := (al_buffer log)[al_head log :=
               \<lparr>ae_addr = addr, ae_val = val, ae_cycles = cycles\<rparr>],
            al_head := (al_head log + 1) mod 16,
            al_count := saturating_inc (al_count log)\<rparr>)"

definition total_audits :: "AuditLog \<Rightarrow> nat" where
  "total_audits log = al_count log"

definition entries :: "AuditLog \<Rightarrow> AuditEntry list" where
  "entries log = al_buffer log"

section \<open>The log as the tail of the event history\<close>

text \<open>A history of events, oldest first, each with the counter value at its time.\<close>

type_synonym event = "u32 \<times> u32 \<times> u32"

fun record_all :: "arch \<Rightarrow> AuditLog \<Rightarrow> event list \<Rightarrow> AuditLog" where
  "record_all arch log [] = log"
| "record_all arch log ((c, a, v) # es) = record_all arch (record_event arch c log a v) es"

definition entry_of :: "arch \<Rightarrow> event \<Rightarrow> AuditEntry" where
  "entry_of arch e =
    (case e of (c, a, v) \<Rightarrow> \<lparr>ae_addr = a, ae_val = v, ae_cycles = get_cycle_count arch c\<rparr>)"

text \<open>The representation: the record of event number \<open>k\<close> sits in slot \<open>k mod 16\<close> as long as it
  is one of the last sixteen.\<close>

definition audit_rep :: "arch \<Rightarrow> event list \<Rightarrow> AuditLog \<Rightarrow> bool" where
  "audit_rep arch es log \<longleftrightarrow>
    length (al_buffer log) = 16
    \<and> al_head log = length es mod 16
    \<and> al_count log = min (length es) (2 ^ 32 - 1)
    \<and> (\<forall>k<length es. length es \<le> k + 16 \<longrightarrow> al_buffer log ! (k mod 16) = entry_of arch (es ! k))"

lemma record_all_append:
  "record_all arch log (es @ fs) = record_all arch (record_all arch log es) fs"
  by (induction arch log es rule: record_all.induct) auto

lemma mod16_inject: "(k::nat) < n \<Longrightarrow> n < k + 16 \<Longrightarrow> k mod 16 \<noteq> n mod 16"
proof
  assume "k < n" "n < k + 16" "k mod 16 = n mod 16"
  then have "16 dvd n - k"
    by (metis less_imp_le mod_eq_dvd_iff_nat)
  with \<open>k < n\<close> \<open>n < k + 16\<close> show False
    by (auto dest: dvd_imp_le)
qed

lemma audit_rep_new: "audit_rep arch [] audit_new"
  by (simp add: audit_rep_def audit_new_def)

lemma audit_rep_record:
  assumes "audit_rep arch es log"
  shows "audit_rep arch (es @ [(c, a, v)]) (record_event arch c log a v)"
proof -
  let ?n = "length es"
  have "(al_buffer log)[?n mod 16 := entry_of arch (c, a, v)] ! (k mod 16) =
      entry_of arch ((es @ [(c, a, v)]) ! k)"
    if "k < Suc ?n" "Suc ?n \<le> k + 16" for k
  proof (cases "k = ?n")
    case True
    with assms show ?thesis
      by (simp add: audit_rep_def)
  next
    case False
    with that mod16_inject [of k ?n] assms show ?thesis
      by (auto simp: audit_rep_def nth_append)
  qed
  with assms show ?thesis
    by (auto simp: audit_rep_def record_event_def entry_of_def Let_def saturating_inc_def mod_Suc_eq
        simp del: minus_mod_eq_mult_div)
qed

lemma audit_rep_all: "audit_rep arch es (record_all arch audit_new es)"
proof (induction es rule: rev_induct)
  case (snoc e es)
  then show ?case
    using audit_rep_record by (cases e) (auto simp: record_all_append)
qed (simp add: audit_rep_new)

text \<open>C20. The audit log never loses a recent event: after any history of recorded events, the ring
  holds exactly the last sixteen of them in order (read from the write position), or all of
  them while there are fewer than sixteen, and the counter is the number of events, stuck at
  its maximum.\<close>

theorem audit_log_holds_last_events:
  "let log = record_all arch audit_new es; n = length es
   in (16 \<le> n \<longrightarrow> rotate (al_head log) (entries log) = map (entry_of arch) (drop (n - 16) es))
      \<and> (n < 16 \<longrightarrow> take n (entries log) = map (entry_of arch) es)
      \<and> total_audits log = min n (2 ^ 32 - 1)"
proof -
  define log where "log = record_all arch audit_new es"
  define n where "n = length es"
  have rep: "length (al_buffer log) = 16" "al_head log = n mod 16" "al_count log = min n (2 ^ 32 - 1)"
    and slot: "\<And>k. k < n \<Longrightarrow> n \<le> k + 16 \<Longrightarrow> al_buffer log ! (k mod 16) = entry_of arch (es ! k)"
    using audit_rep_all [of arch es] by (auto simp: audit_rep_def log_def n_def)
  have "rotate (al_head log) (al_buffer log) = map (entry_of arch) (drop (n - 16) es)" if n: "16 \<le> n"
  proof (rule nth_equalityI)
    show "length (rotate (al_head log) (al_buffer log)) = length (map (entry_of arch) (drop (n - 16) es))"
      using n rep by (simp add: n_def)
    fix i
    assume "i < length (rotate (al_head log) (al_buffer log))"
    then have i: "i < 16"
      using rep by simp
    have "(n mod 16 + i) mod 16 = (n - 16 + i) mod 16"
      using n by (metis le_add_diff_inverse2 mod_add_left_eq mod_add_self2)
    with i n slot [of "n - 16 + i"] rep show
      "rotate (al_head log) (al_buffer log) ! i = map (entry_of arch) (drop (n - 16) es) ! i"
      by (simp add: nth_rotate n_def)
  qed
  moreover have "take n (al_buffer log) = map (entry_of arch) es" if "n < 16"
    using that rep slot by (auto simp: n_def intro!: nth_equalityI)
  ultimately show ?thesis
    using rep by (simp add: Let_def entries_def total_audits_def log_def n_def)
qed

theorem audit_log_holds_last_events_witness:
  "take 2 (entries (record_all Arm audit_new [(7, 0x40020000, 1), (9, 0x40020004, 2)]))
    = [entry_of Arm (7, 0x40020000, 1), entry_of Arm (9, 0x40020004, 2)]"
  using audit_log_holds_last_events [of Arm "[(7, 0x40020000, 1), (9, 0x40020004, 2)]"]
  by (simp add: Let_def numeral_2_eq_2 del: record_all.simps)

end
