(* ===== verification/Byte_Memory.thy ===== *)
theory Byte_Memory
  imports HROS_Prelude
begin

text \<open>
  The single flat address space: a memory is a function from 32-bit addresses to bytes, and
  \<open>peek_u32\<close> and \<open>poke_u32\<close> of \<^verbatim>\<open>src/kernel/memory.rs\<close> are little-endian accesses of four
  consecutive bytes (both targets are little-endian, and unaligned accesses are kept because
  the program store uses them). A volatile read returns the last value written: registers of
  devices that change on their own, or on being read, are outside this model, and drivers that
  depend on them take the device's answers as a parameter.
\<close>

unbundle bit_operations_syntax

type_synonym mem = "u32 \<Rightarrow> u8"

definition peek_u32 :: "mem \<Rightarrow> u32 \<Rightarrow> u32" where
  "peek_u32 m addr =
    ucast (m addr) OR push_bit 8 (ucast (m (addr + 1)))
    OR push_bit 16 (ucast (m (addr + 2))) OR push_bit 24 (ucast (m (addr + 3)))"

definition poke_u32 :: "mem \<Rightarrow> u32 \<Rightarrow> u32 \<Rightarrow> mem" where
  "poke_u32 m addr value =
    m(addr := ucast value, addr + 1 := ucast (drop_bit 8 value),
      addr + 2 := ucast (drop_bit 16 value), addr + 3 := ucast (drop_bit 24 value))"

definition reg_set_bit :: "mem \<Rightarrow> u32 \<Rightarrow> u8 \<Rightarrow> mem" where
  "reg_set_bit m addr b = (let updated = peek_u32 m addr OR shl1 (unat b) in poke_u32 m addr updated)"

definition reg_clr_bit :: "mem \<Rightarrow> u32 \<Rightarrow> u8 \<Rightarrow> mem" where
  "reg_clr_bit m addr b =
    (let updated = peek_u32 m addr AND NOT (shl1 (unat b)) in poke_u32 m addr updated)"

lemma peek_poke_same [simp]: "peek_u32 (poke_u32 m a v) a = v"
proof -
  have "n < 32 \<Longrightarrow> n < 8 \<or> 8 \<le> n \<and> n < 16 \<or> 16 \<le> n \<and> n < 24 \<or> 24 \<le> n \<and> n < 32" for n :: nat
    by arith
  then show ?thesis
    by (intro bit_word_eqI) (fastforce simp: peek_u32_def poke_u32_def bit_simps)
qed

text \<open>Two four-byte accesses that share no byte.\<close>

definition no_overlap :: "u32 \<Rightarrow> u32 \<Rightarrow> bool" where
  "no_overlap a b \<longleftrightarrow> b - a \<notin> {0, 1, 2, 3} \<and> a - b \<notin> {0, 1, 2, 3}"

lemma no_overlap_sym: "no_overlap a b \<longleftrightarrow> no_overlap b a"
  by (auto simp: no_overlap_def)

lemma poke_u32_byte:
  "c - a \<notin> {0, 1, 2, 3} \<Longrightarrow> poke_u32 m a v c = m c"
  by (auto simp: poke_u32_def)

lemma peek_poke_other: "no_overlap a b \<Longrightarrow> peek_u32 (poke_u32 m a v) b = peek_u32 m b"
proof -
  assume ov: "no_overlap a b"
  have "b + k - a \<notin> {0, 1, 2, 3}" if "k \<in> {0, 1, 2, 3}" for k
  proof
    assume "b + k - a \<in> {0, 1, 2, 3}"
    then have "b - a \<in> {- k, 1 - k, 2 - k, 3 - k}"
      by (auto simp: algebra_simps)
    then have "b - a \<in> {0, 1, 2, 3, - 1, - 2, - 3}"
      using that by auto
    then have "b - a \<in> {0, 1, 2, 3} \<or> - (b - a) \<in> {1, 2, 3}"
      by (elim insertE) simp_all
    then have "b - a \<in> {0, 1, 2, 3} \<or> a - b \<in> {1, 2, 3}"
      by (simp only: minus_diff_eq)
    with ov show False
      by (auto simp: no_overlap_def)
  qed
  from this [of 0] this [of 1] this [of 2] this [of 3] show ?thesis
    by (simp add: peek_u32_def poke_u32_byte)
qed

lemma no_overlapI:
  assumes "unat a + 4 \<le> unat b" "unat b + 4 \<le> 2 ^ 32"
  shows "no_overlap a b"
proof -
  have ab: "a \<le> b"
    using assms by (simp add: word_le_nat_alt)
  have 1: "unat (b - a) = unat b - unat a"
    using ab by (rule unat_sub)
  have 2: "unat (a - b) = unat a + 2 ^ 32 - unat b"
    using assms by (simp add: unat_sub_if_size word_size)
  have "unat (b - a) \<ge> 4" "unat (a - b) \<ge> 4"
    using assms by (simp_all add: 1 2)
  then show ?thesis
    by (auto simp: no_overlap_def)
qed

lemma reg_set_bit_peek:
  "bit (peek_u32 (reg_set_bit m a b) a) k \<longleftrightarrow> k = unat b mod 32 \<or> bit (peek_u32 m a) k"
  by (auto simp: reg_set_bit_def Let_def bits_simps bit_or_iff)

lemma reg_clr_bit_peek:
  "bit (peek_u32 (reg_clr_bit m a b) a) k \<longleftrightarrow> k \<noteq> unat b mod 32 \<and> bit (peek_u32 m a) k"
  by (auto simp: reg_clr_bit_def Let_def bits_simps dest: bit_u32_bound)

end
