(* ===== verification/Cap_Tokens.thy ===== *)
theory Cap_Tokens
  imports Cap_Registry Byte_Memory
begin

text \<open>
  Linear capability tokens and the virtual GPIO port of \<^verbatim>\<open>src/capabilities/tokens.rs\<close>. A type
  that implements the trait \<open>HardwareResource\<close> is a record with its two constants. A token
  \<open>Cap<T>\<close> is its registry id; Rust's move semantics (the type is neither \<open>Copy\<close> nor \<open>Clone\<close>)
  is the discipline of the step relation below, where a token that is dropped is gone.
\<close>

unbundle bit_operations_syntax

record HardwareResource =
  RESOURCE_ID :: u16
  NAME :: string

definition define_resource :: "u16 \<Rightarrow> string \<Rightarrow> HardwareResource" where
  "define_resource i label = \<lparr>RESOURCE_ID = i, NAME = label\<rparr>"

definition system_resources :: "HardwareResource list" where
  "system_resources =
    [define_resource 0 ''GPIOA'', define_resource 1 ''GPIOB'', define_resource 2 ''UART0'',
     define_resource 3 ''SPI0'', define_resource 4 ''I2C0'', define_resource 5 ''TIMER0'',
     define_resource 6 ''DMA0'', define_resource 31 ''SUPERUSER'']"

definition SuperUserCap :: HardwareResource where
  "SuperUserCap = define_resource 31 ''SUPERUSER''"

datatype Cap = Cap (token_id: u16)

definition claim :: "registry \<Rightarrow> HardwareResource \<Rightarrow> Cap option \<times> registry" where
  "claim r T =
    (let (ok, r') = acquire r (unat (RESOURCE_ID T))
     in if ok then (Some (Cap (RESOURCE_ID T)), r') else (None, r'))"

definition drop_cap :: "registry \<Rightarrow> Cap \<Rightarrow> registry" where
  "drop_cap r cap = release r (unat (token_id cap))"

definition steal :: "registry \<Rightarrow> HardwareResource \<Rightarrow> Cap \<times> registry" where
  "steal r T = (Cap (RESOURCE_ID T), snd (acquire r (unat (RESOURCE_ID T))))"

text \<open>\<open>grant_superuser\<close> also steps the static counter \<open>SUPERUSER_AUDIT_COUNT\<close>.\<close>

definition grant_superuser :: "registry \<Rightarrow> u32 \<Rightarrow> Cap option \<times> registry \<times> u32" where
  "grant_superuser r audit_count =
    (let (cap, r') = claim r SuperUserCap
     in (cap, r', if cap \<noteq> None then audit_count + 1 else audit_count))"

definition resolve_table :: "(string \<times> u16) list" where
  "resolve_table =
    [(''GPIOA'', 0), (''GPIOB'', 1), (''UART0'', 2), (''SPI0'', 3), (''I2C0'', 4),
     (''TIMER0'', 5), (''DMA0'', 6), (''SUPERUSER'', 31)]"

definition resolve_name :: "string \<Rightarrow> u16 option" where
  "resolve_name name = map_option snd (List.find (\<lambda>(n, _). n = name) resolve_table)"

section \<open>The GPIO port\<close>

text \<open>A port is its base address; \<open>N\<close> is a pin number below 32 (the constant \<open>1u32 << N\<close> does not
  compile otherwise).\<close>

definition GpioA_BASE :: u32 where "GpioA_BASE = 0x40020000"
definition GpioB_BASE :: u32 where "GpioB_BASE = 0x40020400"
definition DATA_SET :: u32 where "DATA_SET = 0x00"
definition DATA_CLR :: u32 where "DATA_CLR = 0x04"
definition DATA_OUT :: u32 where "DATA_OUT = 0x08"
definition DIR :: u32 where "DIR = 0x10"

definition pin_mask :: "u8 \<Rightarrow> u32" where
  "pin_mask N = shl1 (unat N)"

definition enable_output :: "u32 \<Rightarrow> u8 \<Rightarrow> mem \<Rightarrow> mem" where
  "enable_output base N m = reg_set_bit m (base + DIR) N"

definition set_high_linear :: "u32 \<Rightarrow> u8 \<Rightarrow> mem \<Rightarrow> mem" where
  "set_high_linear base N m = poke_u32 (enable_output base N m) (base + DATA_SET) (pin_mask N)"

definition set_low_linear :: "u32 \<Rightarrow> u8 \<Rightarrow> mem \<Rightarrow> mem" where
  "set_low_linear base N m = poke_u32 (enable_output base N m) (base + DATA_CLR) (pin_mask N)"

definition level :: "u32 \<Rightarrow> u8 \<Rightarrow> mem \<Rightarrow> bool" where
  "level base N m \<longleftrightarrow> peek_u32 m (base + DATA_OUT) AND pin_mask N \<noteq> 0"

text \<open>The \<open>OutputPin\<close> methods of the embedded-hal trait: they always return \<open>Ok(())\<close>.\<close>

definition set_low :: "u32 \<Rightarrow> u8 \<Rightarrow> mem \<Rightarrow> mem" where
  "set_low base N m = poke_u32 m (base + DATA_CLR) (pin_mask N)"

definition set_high :: "u32 \<Rightarrow> u8 \<Rightarrow> mem \<Rightarrow> mem" where
  "set_high base N m = poke_u32 m (base + DATA_SET) (pin_mask N)"

section \<open>Live tokens\<close>

text \<open>The registry together with the tokens that are alive in the program. \<open>steal\<close> is left out:
  its documentation makes the caller responsible for there being no other token.\<close>

inductive token_step :: "registry \<times> Cap list \<Rightarrow> registry \<times> Cap list \<Rightarrow> bool" where
  claimed: "claim r T = (Some c, r') \<Longrightarrow> token_step (r, ts) (r', c # ts)"
| busy: "claim r T = (None, r') \<Longrightarrow> token_step (r, ts) (r', ts)"
| granted: "grant_superuser r n = (Some c, r', n') \<Longrightarrow> token_step (r, ts) (r', c # ts)"
| refused: "grant_superuser r n = (None, r', n') \<Longrightarrow> token_step (r, ts) (r', ts)"
| dropped: "c \<in> set ts \<Longrightarrow> token_step (r, ts) (drop_cap r c, remove1 c ts)"

inductive tokens_reachable :: "registry \<times> Cap list \<Rightarrow> bool" where
  boot: "tokens_reachable (REGISTRY_BITS, [])"
| step: "tokens_reachable s \<Longrightarrow> token_step s t \<Longrightarrow> tokens_reachable t"

definition tokens_inv :: "registry \<times> Cap list \<Rightarrow> bool" where
  "tokens_inv s \<longleftrightarrow>
    (case s of (r, ts) \<Rightarrow>
       registry_inv r \<and> distinct ts \<and> claimed_ids r = (\<lambda>c. unat (token_id c)) ` set ts)"

lemma claim_Some:
  assumes "registry_inv r" "claim r T = (Some c, r')"
  shows "c = Cap (RESOURCE_ID T)" "unat (RESOURCE_ID T) < 256"
    "unat (RESOURCE_ID T) \<notin> claimed_ids r" "r' = snd (acquire r (unat (RESOURCE_ID T)))"
  using assms fst_acquire [of r "unat (RESOURCE_ID T)"]
  by (auto simp: claim_def Let_def split: prod.splits if_splits)

lemma claim_None:
  assumes "registry_inv r" "claim r T = (None, r')"
  shows "registry_inv r' \<and> claimed_ids r' = claimed_ids r"
proof -
  have r': "r' = snd (acquire r (unat (RESOURCE_ID T)))" "\<not> fst (acquire r (unat (RESOURCE_ID T)))"
    using assms(2) by (auto simp: claim_def Let_def split: prod.splits if_splits)
  then show ?thesis
    using assms(1) fst_acquire [of r "unat (RESOURCE_ID T)"]
    by (cases "unat (RESOURCE_ID T) < 256") (auto simp: claimed_acquire acquire_out_of_range)
qed

lemma tokens_inv_claim:
  assumes "tokens_inv (r, ts)" "claim r T = (Some c, r')"
  shows "tokens_inv (r', c # ts)"
proof -
  have r: "registry_inv r"
    using assms by (simp add: tokens_inv_def)
  note c = claim_Some [OF r assms(2)]
  have "c \<notin> set ts"
    using assms(1) c(1,3) by (force simp: tokens_inv_def)
  with assms c r show ?thesis
    by (auto simp: tokens_inv_def claimed_acquire)
qed

lemma tokens_inv_busy:
  assumes "tokens_inv (r, ts)" "claim r T = (None, r')"
  shows "tokens_inv (r', ts)"
  using assms claim_None [OF _ assms(2)] by (simp add: tokens_inv_def)

lemma tokens_inv_step: "token_step s t \<Longrightarrow> tokens_inv s \<Longrightarrow> tokens_inv t"
proof (induction rule: token_step.induct)
  case (claimed r T c r' ts)
  then show ?case by (blast intro: tokens_inv_claim)
next
  case (busy r T r' ts)
  then show ?case by (blast intro: tokens_inv_busy)
next
  case (granted r n c r' n' ts)
  then show ?case
    by (auto simp: grant_superuser_def Let_def intro: tokens_inv_claim split: prod.splits)
next
  case (refused r n r' n' ts)
  then show ?case
    by (auto simp: grant_superuser_def Let_def intro: tokens_inv_busy split: prod.splits)
next
  case (dropped c ts r)
  have ts: "registry_inv r" "distinct ts" "claimed_ids r = (\<lambda>c. unat (token_id c)) ` set ts"
    using dropped(2) by (simp_all add: tokens_inv_def)
  have "inj_on (\<lambda>c. unat (token_id c)) (set ts)"
    by (rule inj_onI) (metis Cap.expand word_unat_eq_iff)
  then have "(\<lambda>c. unat (token_id c)) ` (set ts - {c}) = claimed_ids r - {unat (token_id c)}"
    using ts(3) dropped(1) inj_on_image_set_diff [of _ "set ts" "set ts" "{c}"] by auto
  moreover have "unat (token_id c) < 256"
    using ts(3) dropped(1) by (auto simp: claimed_ids_def)
  ultimately show ?case
    using ts by (simp add: tokens_inv_def drop_cap_def claimed_release)
qed

lemma tokens_reachable_inv: "tokens_reachable s \<Longrightarrow> tokens_inv s"
proof (induction rule: tokens_reachable.induct)
  case boot
  show ?case by (simp add: tokens_inv_def)
next
  case (step s t)
  then show ?case by (blast intro: tokens_inv_step)
qed

text \<open>C15. Linearity of tokens: in every state that calls of \<open>claim\<close>, \<open>grant_superuser\<close> and \<open>drop_cap\<close> can reach
  from boot, no resource has two live tokens, a resource is marked claimed in the registry exactly while it has a live token,
  and claiming it in that time returns no token. States reached by \<open>steal\<close>, or by the command loop, which acquires and releases registry bits without tokens, are not included.\<close>

theorem live_tokens_unique:
  assumes "tokens_reachable (r, ts)"
  shows "distinct (map token_id ts)
    \<and> (\<forall>i<256. is_claimed r i \<longleftrightarrow> (\<exists>c\<in>set ts. unat (token_id c) = i))
    \<and> (\<forall>c\<in>set ts. unat (token_id c) < 256 \<and> (\<forall>T. RESOURCE_ID T = token_id c \<longrightarrow> fst (claim r T) = None))"
proof -
  have inv: "tokens_inv (r, ts)"
    using assms by (rule tokens_reachable_inv)
  then have "distinct (map token_id ts)"
    by (simp add: tokens_inv_def distinct_map inj_on_def Cap.expand)
  moreover have ids: "unat (token_id c) \<in> claimed_ids r" if "c \<in> set ts" for c
    using inv that by (simp add: tokens_inv_def)
  moreover have "fst (claim r T) = None" if "c \<in> set ts" "RESOURCE_ID T = token_id c" for c T
    using inv ids [OF that(1)] that fst_acquire [of r "unat (RESOURCE_ID T)"]
    by (auto simp: tokens_inv_def claim_def Let_def split: prod.splits)
  moreover have "is_claimed r i \<longleftrightarrow> (\<exists>c\<in>set ts. unat (token_id c) = i)" if "i < 256" for i
    using inv that by (auto simp: tokens_inv_def is_claimed_iff)
  ultimately show ?thesis
    using ids by (auto simp: claimed_ids_def)
qed

theorem live_tokens_unique_witness:
  "\<exists>r. tokens_reachable (r, [Cap 0]) \<and> is_claimed r 0 \<and> \<not> is_claimed r 1"
proof -
  let ?r = "snd (acquire REGISTRY_BITS 0)"
  have "claim REGISTRY_BITS (define_resource 0 ''GPIOA'') = (Some (Cap 0), ?r)"
    by code_simp
  then have "tokens_reachable (?r, [Cap 0])"
    by (blast intro: tokens_reachable.intros token_step.claimed)
  with live_tokens_unique [OF this] show ?thesis
    by (intro exI [of _ ?r]) simp
qed

text \<open>The three spellings of a resource agree: the name the command line resolves, the id of
  the token type, and the discriminant of the capability that the address map and the access
  check use. A name that is no resource resolves to nothing.\<close>

theorem resource_names_consistent:
  "map (\<lambda>T. (resolve_name (NAME T), unat (RESOURCE_ID T))) system_resources =
    map (\<lambda>c. (Some (of_nat (cap_num c)), cap_num c))
      [GpioA, GpioB, Uart0, Spi0, I2c0, Timer0, Dma0, SuperUser]
   \<and> (resolve_name n = None \<longleftrightarrow> n \<notin> NAME ` set system_resources)"
proof
  show "map (\<lambda>T. (resolve_name (NAME T), unat (RESOURCE_ID T))) system_resources =
    map (\<lambda>c. (Some (of_nat (cap_num c)), cap_num c))
      [GpioA, GpioB, Uart0, Spi0, I2c0, Timer0, Dma0, SuperUser]"
    by (simp add: system_resources_def define_resource_def resolve_name_def resolve_table_def)
  show "resolve_name n = None \<longleftrightarrow> n \<notin> NAME ` set system_resources"
    by (auto simp: resolve_name_def resolve_table_def system_resources_def define_resource_def
        find_None_iff)
qed

end
