(* ===== verification/Kernel_Memory.thy ===== *)
theory Kernel_Memory
  imports Cap_Registry Cap_Audit Byte_Memory
begin

text \<open>
  The capability-enforced accesses and the boot-time section initialisation of
  \<^verbatim>\<open>src/kernel/memory.rs\<close>. The statics they use (registry, audit log) are passed explicitly;
  the linker symbols that bound the sections are arguments of \<open>init_data_bss\<close>.
\<close>

datatype MemError = CapabilityViolation | PermissionDenied

fun mem_error_bytes :: "MemError \<Rightarrow> string" where
  "mem_error_bytes CapabilityViolation =
    ''E001: CAPABILITY_VIOLATION - Peripheral token not claimed''"
| "mem_error_bytes PermissionDenied =
    ''E002: PERMISSION_DENIED - Unmapped MMIO access requires SuperUserCap''"

text \<open>\<open>enforced_poke_u32\<close>: the result, the memory and the audit log. The cycle counter is read
  only on the superuser path.\<close>

definition enforced_poke_u32 ::
  "arch \<Rightarrow> registry \<Rightarrow> u32 \<Rightarrow> AuditLog \<Rightarrow> mem \<Rightarrow> u32 \<Rightarrow> u32 \<Rightarrow> (MemError + unit) \<times> AuditLog \<times> mem" where
  "enforced_poke_u32 arch r counter log m addr value =
    (if is_superuser_active r
     then (Inr (), record_event arch counter log addr value, poke_u32 m addr value)
     else case addr_to_cap_id arch addr of
            Some cap_id \<Rightarrow>
              if \<not> is_claimed r (cap_num cap_id) then (Inl CapabilityViolation, log, m)
              else (Inr (), log, poke_u32 m addr value)
          | None \<Rightarrow> (Inr (), log, poke_u32 m addr value))"

definition enforced_peek_u32 :: "arch \<Rightarrow> registry \<Rightarrow> mem \<Rightarrow> u32 \<Rightarrow> MemError + u32" where
  "enforced_peek_u32 arch r m addr =
    (if is_superuser_active r then Inr (peek_u32 m addr)
     else case addr_to_cap_id arch addr of
            Some cap_id \<Rightarrow>
              if \<not> is_claimed r (cap_num cap_id) then Inl CapabilityViolation
              else Inr (peek_u32 m addr)
          | None \<Rightarrow> Inr (peek_u32 m addr))"

text \<open>The two loops of \<open>init_data_bss\<close>. The pointers wrap like every address, so a loop whose end
  is not a word multiple away may never stop; not returning is \<open>None\<close>.\<close>

partial_function (option) copy_data :: "mem \<Rightarrow> u32 \<Rightarrow> u32 \<Rightarrow> u32 \<Rightarrow> mem option" where
  "copy_data m src dst data_end =
    (if dst < data_end
     then copy_data (poke_u32 m dst (peek_u32 m src)) (src + 4) (dst + 4) data_end
     else Some m)"

partial_function (option) zero_bss :: "mem \<Rightarrow> u32 \<Rightarrow> u32 \<Rightarrow> mem option" where
  "zero_bss m z bss_end =
    (if z < bss_end then zero_bss (poke_u32 m z 0) (z + 4) bss_end else Some m)"

definition init_data_bss :: "u32 \<Rightarrow> u32 \<Rightarrow> u32 \<Rightarrow> u32 \<Rightarrow> u32 \<Rightarrow> mem \<Rightarrow> mem option" where
  "init_data_bss sidata sdata edata sbss ebss m =
    (case copy_data m sidata sdata edata of
       None \<Rightarrow> None
     | Some m' \<Rightarrow> zero_bss m' sbss ebss)"

section \<open>Enforced accesses\<close>

text \<open>C16. Complete mediation of the enforced accesses: a poke that is refused changes neither
  memory nor the audit log; one that succeeds writes exactly the requested word, and then the
  superuser is active and the write is the newest audit record, or the address belongs to no
  peripheral, or its peripheral's capability is claimed. A peek is granted and refused exactly as the poke
  of the same address; it is not logged, not even under the superuser.\<close>

theorem enforced_access_mediated:
  assumes "registry_inv r"
  shows "(\<forall>e log' m'. enforced_poke_u32 arch r counter log m addr value = (Inl e, log', m') \<longrightarrow>
        log' = log \<and> m' = m \<and> enforced_peek_u32 arch r m addr = Inl e)
    \<and> (\<forall>log' m'. enforced_poke_u32 arch r counter log m addr value = (Inr (), log', m') \<longrightarrow>
        m' = poke_u32 m addr value
        \<and> enforced_peek_u32 arch r m' addr = Inr value
        \<and> (cap_num SuperUser \<in> claimed_ids r \<and> log' = record_event arch counter log addr value
           \<or> cap_num SuperUser \<notin> claimed_ids r \<and> log' = log
             \<and> (\<forall>c. addr_to_cap_id arch addr = Some c \<longrightarrow> cap_num c \<in> claimed_ids r)))"
  using assms
  by (auto simp: enforced_poke_u32_def enforced_peek_u32_def superuser_iff is_claimed_cap
      simp del: cap_num.simps split: option.splits if_splits)

theorem enforced_access_mediated_witness:
  "enforced_poke_u32 Riscv32 REGISTRY_BITS 0 audit_new (\<lambda>_. 0) 0x10013000 65
      = (Inl CapabilityViolation, audit_new, (\<lambda>_. 0))
    \<and> enforced_peek_u32 Riscv32 REGISTRY_BITS (\<lambda>_. 0) 0x10013000 = Inl CapabilityViolation"
proof -
  have "enforced_poke_u32 Riscv32 REGISTRY_BITS 0 audit_new (\<lambda>_. 0) 0x10013000 65
      = (Inl CapabilityViolation, audit_new, (\<lambda>_. 0))"
    by (simp add: enforced_poke_u32_def superuser_iff is_claimed_cap addr_to_cap_id_def
        riscv_addr_to_cap_def within_def del: cap_num.simps)
  with enforced_access_mediated [OF registry_inv_initial, of Riscv32 0 audit_new "\<lambda>_. 0" "0x10013000" 65]
  show ?thesis
    by blast
qed

text \<open>The enforced accesses are weaker than the access check they are documented to carry:
  they never answer \<open>PermissionDenied\<close>, and an address outside every peripheral, RAM and flash
  range, which \<open>check_access\<close> refuses without the superuser, is written without objection.\<close>

theorem enforced_access_not_fail_closed:
  assumes "registry_inv r" "addr_to_cap_id arch addr = None"
  shows "fst (enforced_poke_u32 arch r counter log m addr value) = Inr ()
    \<and> (cap_num SuperUser \<notin> claimed_ids r \<and> \<not> is_ram_flash arch addr \<longrightarrow>
        check_access arch r addr = Inl SuperUser)
    \<and> fst (enforced_poke_u32 arch r counter log m addr' value) \<noteq> Inl PermissionDenied
    \<and> enforced_peek_u32 arch r m addr' \<noteq> Inl PermissionDenied"
  using assms
  by (auto simp: enforced_poke_u32_def enforced_peek_u32_def access_simps
      simp del: cap_num.simps split: option.splits)

theorem enforced_access_not_fail_closed_witness:
  "check_access Arm REGISTRY_BITS 0xE000ED08 = Inl SuperUser
    \<and> fst (enforced_poke_u32 Arm REGISTRY_BITS 0 audit_new (\<lambda>_. 0) 0xE000ED08 1) = Inr ()"
  using enforced_access_not_fail_closed [OF registry_inv_initial, of Arm "0xE000ED08" 0 audit_new "\<lambda>_. 0" 1]
  by (simp add: addr_to_cap_id_def arm_addr_to_cap_def is_ram_flash_def within_def)

section \<open>Section initialisation\<close>

lemma poke_peek_bytes:
  "poke_u32 m d (peek_u32 m s) =
    m(d := m s, d + 1 := m (s + 1), d + 2 := m (s + 2), d + 3 := m (s + 3))"
proof -
  have "ucast (peek_u32 m s) = m s" "ucast (drop_bit 8 (peek_u32 m s)) = m (s + 1)"
    "ucast (drop_bit 16 (peek_u32 m s)) = m (s + 2)" "ucast (drop_bit 24 (peek_u32 m s)) = m (s + 3)"
    by (rule bit_word_eqI, auto simp: peek_u32_def bit_simps dest: bit_word_bound)+
  then show ?thesis
    by (simp add: poke_u32_def)
qed

lemma unat_add_small: "unat (a :: u32) + k < 2 ^ 32 \<Longrightarrow> unat (a + of_nat k) = unat a + k"
  by (simp add: unat_word_ariths unat_of_nat)

text \<open>One word at a time: the four bytes written, and the rest of memory.\<close>

lemma less_4_cases: "(i::nat) < 4 \<Longrightarrow> i = 0 \<or> i = 1 \<or> i = 2 \<or> i = 3"
  by arith

lemma copy_word: "i < 4 \<Longrightarrow> poke_u32 m d (peek_u32 m s) (d + of_nat i) = m (s + of_nat i)"
  by (drule less_4_cases) (auto simp: poke_peek_bytes)

lemma zero_word: "i < 4 \<Longrightarrow> poke_u32 m d 0 (d + of_nat i) = 0"
  by (drule less_4_cases) (auto simp: poke_u32_def)

lemma poke_frame:
  assumes "unat d + 4 \<le> 2 ^ 32" "\<not> (unat d \<le> unat a \<and> unat a < unat d + 4)"
  shows "poke_u32 m d v a = m a"
  using assms unat_add_small [of d 1] unat_add_small [of d 2] unat_add_small [of d 3]
  by (auto simp: poke_u32_def)

lemma copy_data_bytes:
  assumes "unat dst + 4 * n = unat data_end" "unat src + 4 * n < 2 ^ 32"
    and "unat src + 4 * n \<le> unat dst \<or> unat data_end \<le> unat src"
  shows "\<exists>m'. copy_data m src dst data_end = Some m'
    \<and> (\<forall>i<4 * n. m' (dst + of_nat i) = m (src + of_nat i))
    \<and> (\<forall>a. \<not> (unat dst \<le> unat a \<and> unat a < unat data_end) \<longrightarrow> m' a = m a)"
  using assms
proof (induction n arbitrary: m src dst)
  case 0
  then have "\<not> dst < data_end"
    by (simp add: word_less_nat_alt)
  then show ?case
    by (subst copy_data.simps) auto
next
  case (Suc n)
  let ?m = "poke_u32 m dst (peek_u32 m src)"
  have bounds: "unat data_end < 2 ^ 32" "dst < data_end"
    using Suc.prems unat_less_u32 [of data_end] by (auto simp: word_less_nat_alt)
  have next4: "unat (dst + 4) = unat dst + 4" "unat (src + 4) = unat src + 4"
    using unat_add_small [of dst 4] unat_add_small [of src 4] Suc.prems bounds by auto
  obtain m' where m': "copy_data ?m (src + 4) (dst + 4) data_end = Some m'"
    and copied: "\<And>i. i < 4 * n \<Longrightarrow> m' (dst + 4 + of_nat i) = ?m (src + 4 + of_nat i)"
    and frame: "\<And>a. \<not> (unat (dst + 4) \<le> unat a \<and> unat a < unat data_end) \<Longrightarrow> m' a = ?m a"
    using Suc.IH [of "dst + 4" "src + 4" ?m] Suc.prems next4 by auto
  have off: "unat (dst + of_nat k) = unat dst + k" "unat (src + of_nat k) = unat src + k"
    if "k < 4 * Suc n" for k
    using unat_add_small [of dst k] unat_add_small [of src k] Suc.prems bounds that by auto
  have head: "?m a = m a" if "\<not> (unat dst \<le> unat a \<and> unat a < unat dst + 4)" for a
    using that Suc.prems bounds by (intro poke_frame) auto
  have "m' (dst + of_nat i) = m (src + of_nat i)" if i: "i < 4 * Suc n" for i
  proof (cases "i < 4")
    case True
    then have "m' (dst + of_nat i) = ?m (dst + of_nat i)"
      using off [OF i] next4 by (intro frame) auto
    with True show ?thesis
      by (simp add: copy_word)
  next
    case False
    then have eq: "dst + of_nat i = dst + 4 + of_nat (i - 4)" "src + of_nat i = src + 4 + of_nat (i - 4)"
      by (auto simp: of_nat_diff)
    have "m' (dst + 4 + of_nat (i - 4)) = ?m (src + 4 + of_nat (i - 4))"
      using False i by (intro copied) auto
    then have "m' (dst + of_nat i) = ?m (src + of_nat i)"
      by (simp only: eq)
    also have "\<dots> = m (src + of_nat i)"
      using off [OF i] Suc.prems i by (intro head) auto
    finally show ?thesis .
  qed
  moreover have "m' a = m a" if "\<not> (unat dst \<le> unat a \<and> unat a < unat data_end)" for a
    using that frame [of a] head [of a] next4 Suc.prems(1) by auto
  ultimately show ?case
    using m' bounds by (subst copy_data.simps) auto
qed

lemma zero_bss_bytes:
  assumes "unat z + 4 * n = unat bss_end"
  shows "\<exists>m'. zero_bss m z bss_end = Some m'
    \<and> (\<forall>a. m' a = (if unat z \<le> unat a \<and> unat a < unat bss_end then 0 else m a))"
  using assms
proof (induction n arbitrary: m z)
  case 0
  then have "\<not> z < bss_end"
    by (simp add: word_less_nat_alt)
  with 0 show ?case
    by (subst zero_bss.simps) auto
next
  case (Suc n)
  have bounds: "unat bss_end < 2 ^ 32" "z < bss_end"
    using Suc.prems unat_less_u32 [of bss_end] by (auto simp: word_less_nat_alt)
  then have next4: "unat (z + 4) = unat z + 4"
    using unat_add_small [of z 4] Suc.prems by auto
  obtain m' where m': "zero_bss (poke_u32 m z 0) (z + 4) bss_end = Some m'"
    and bytes: "\<And>a. m' a = (if unat (z + 4) \<le> unat a \<and> unat a < unat bss_end then 0
                      else poke_u32 m z 0 a)"
    using Suc.IH [of "z + 4" "poke_u32 m z 0"] Suc.prems next4 by auto
  have "poke_u32 m z 0 a = 0" if "unat z \<le> unat a" "unat a < unat z + 4" for a
    using zero_word [of "unat a - unat z" m z] that by (simp add: of_nat_diff)
  then have "m' a = (if unat z \<le> unat a \<and> unat a < unat bss_end then 0 else m a)" for a
    using bytes [of a] next4 Suc.prems bounds poke_frame [of z a m 0] by auto
  with m' bounds show ?case
    by (subst zero_bss.simps) auto
qed

text \<open>C17. Boot initialisation of the sections: when the linker symbols bound word-multiple
  sections and neither the load image nor \<open>.bss\<close> overlaps \<open>.data\<close>, both loops end, \<open>.data\<close> holds
  the load image, \<open>.bss\<close> is zero and every other byte is as before.\<close>

theorem init_data_bss_correct:
  assumes "unat sdata + 4 * n = unat edata" "unat sbss + 4 * k = unat ebss"
    and "unat sidata + 4 * n < 2 ^ 32"
    and "unat sidata + 4 * n \<le> unat sdata \<or> unat edata \<le> unat sidata"
    and "unat edata \<le> unat sbss \<or> unat ebss \<le> unat sdata"
  shows "\<exists>m'. init_data_bss sidata sdata edata sbss ebss m = Some m'
    \<and> (\<forall>i<4 * n. m' (sdata + of_nat i) = m (sidata + of_nat i))
    \<and> (\<forall>a. unat sbss \<le> unat a \<and> unat a < unat ebss \<longrightarrow> m' a = 0)
    \<and> (\<forall>a. \<not> (unat sdata \<le> unat a \<and> unat a < unat edata)
           \<and> \<not> (unat sbss \<le> unat a \<and> unat a < unat ebss) \<longrightarrow> m' a = m a)"
proof -
  obtain m1 where m1: "copy_data m sidata sdata edata = Some m1"
    and copied: "\<And>i. i < 4 * n \<Longrightarrow> m1 (sdata + of_nat i) = m (sidata + of_nat i)"
    and frame: "\<And>a. \<not> (unat sdata \<le> unat a \<and> unat a < unat edata) \<Longrightarrow> m1 a = m a"
    using copy_data_bytes [OF assms(1,3,4), of m] by blast
  obtain m' where m': "zero_bss m1 sbss ebss = Some m'"
    and zeroed: "\<And>a. m' a = (if unat sbss \<le> unat a \<and> unat a < unat ebss then 0 else m1 a)"
    using zero_bss_bytes [OF assms(2), of m1] by blast
  have "unat (sdata + of_nat i) = unat sdata + i" if "i < 4 * n" for i
    using that unat_add_small [of sdata i] assms(1) unat_less_u32 [of edata] by auto
  then have "m' (sdata + of_nat i) = m (sidata + of_nat i)" if "i < 4 * n" for i
    using that zeroed [of "sdata + of_nat i"] copied [OF that] assms(1,5) by auto
  with m1 m' zeroed frame show ?thesis
    by (simp add: init_data_bss_def)
qed

theorem init_data_bss_correct_witness:
  "\<exists>m'. init_data_bss 0x08000100 0x20003000 0x20003004 0x20003004 0x20003008 (\<lambda>_. 7) = Some m'
    \<and> m' 0x20003000 = 7 \<and> m' 0x20003004 = 0"
proof -
  obtain m' where "init_data_bss 0x08000100 0x20003000 0x20003004 0x20003004 0x20003008 (\<lambda>_. 7) = Some m'"
    "\<forall>i<4 * 1. m' (0x20003000 + of_nat i) = 7"
    "\<forall>a. unat (0x20003004 :: u32) \<le> unat a \<and> unat a < unat (0x20003008 :: u32) \<longrightarrow> m' a = 0"
    using init_data_bss_correct [of "0x20003000" 1 "0x20003004" "0x20003004" 1 "0x20003008"
        "0x08000100" "\<lambda>_. 7"] by auto
  then have "m' (0x20003000 + of_nat 0) = 7" "m' 0x20003004 = 0"
    by (metis mult.right_neutral zero_less_numeral, simp)
  then have "m' 0x20003000 = 7" "m' 0x20003004 = 0"
    by simp_all
  with \<open>init_data_bss _ _ _ _ _ _ = Some m'\<close> show ?thesis
    by auto
qed

end
