(* ===== verification/Lexer.thy ===== *)
theory Lexer
  imports HROS_Prelude
begin

text \<open>
  The streaming lexer of \<^verbatim>\<open>src/compiler/lexer.rs\<close>. A token that borrows a slice of the input
  carries that slice. The cursor is an index into the whole input, as in the source; every
  loop is a recursion on the distance from the cursor to the end.
\<close>

datatype Token =
    KwFn
  | KwLet
  | Identifier string
  | Operator char
  | Literal u32
  | LParen
  | RParen
  | LBrace
  | RBrace
  | Semicolon
  | Comma
  | TokError string
  | Eof

record Lexer =
  lx_stream :: string
  lx_cursor :: nat
  lx_line :: nat

definition lexer_new :: "string \<Rightarrow> Lexer" where
  "lexer_new stream = \<lparr>lx_stream = stream, lx_cursor = 0, lx_line = 1\<rparr>"

definition lx_more :: "Lexer \<Rightarrow> bool" where
  "lx_more lx \<longleftrightarrow> lx_cursor lx < length (lx_stream lx)"

definition lx_byte :: "Lexer \<Rightarrow> char" where
  "lx_byte lx = lx_stream lx ! lx_cursor lx"

definition lx_advance :: "nat \<Rightarrow> Lexer \<Rightarrow> Lexer" where
  "lx_advance n lx = lx\<lparr>lx_cursor := lx_cursor lx + n\<rparr>"

definition is_ascii_digit :: "char \<Rightarrow> bool" where
  "is_ascii_digit b \<longleftrightarrow> in_range CHR ''0'' CHR ''9'' b"

definition is_ascii_alphabetic :: "char \<Rightarrow> bool" where
  "is_ascii_alphabetic b \<longleftrightarrow> in_range CHR ''a'' CHR ''z'' b \<or> in_range CHR ''A'' CHR ''Z'' b"

definition is_ascii_alphanumeric :: "char \<Rightarrow> bool" where
  "is_ascii_alphanumeric b \<longleftrightarrow> is_ascii_alphabetic b \<or> is_ascii_digit b"

definition is_ascii_hexdigit :: "char \<Rightarrow> bool" where
  "is_ascii_hexdigit b \<longleftrightarrow>
    is_ascii_digit b \<or> in_range CHR ''a'' CHR ''f'' b \<or> in_range CHR ''A'' CHR ''F'' b"

definition is_operator :: "char \<Rightarrow> bool" where
  "is_operator b \<longleftrightarrow> b \<in> set ''+-*/%=<>!&|^~:?''"

text \<open>\<open>while cursor < len && p(stream[cursor]) { cursor += 1 }\<close>\<close>

function skip_while :: "(char \<Rightarrow> bool) \<Rightarrow> Lexer \<Rightarrow> Lexer" where
  "skip_while p lx =
    (if lx_more lx \<and> p (lx_byte lx) then skip_while p (lx_advance 1 lx) else lx)"
  by pat_completeness auto
termination
  by (relation "measure (\<lambda>(p, lx). length (lx_stream lx) - lx_cursor lx)")
    (auto simp: lx_more_def lx_advance_def)

declare skip_while.simps [simp del]

definition parse_identifier :: "Lexer \<Rightarrow> Token \<times> Lexer" where
  "parse_identifier lx =
    (let start = lx_cursor lx;
         lx' = skip_while (\<lambda>b. is_ascii_alphanumeric b \<or> b = CHR ''_'') lx;
         ident = take (lx_cursor lx' - start) (drop start (lx_stream lx'))
     in (if ident = ''fn'' then KwFn
         else if ident = ''let'' then KwLet
         else Identifier ident, lx'))"

definition hex_digit :: "char \<Rightarrow> u32 option" where
  "hex_digit b =
    (if in_range CHR ''0'' CHR ''9'' b then Some (of_char b - 48)
     else if in_range CHR ''a'' CHR ''f'' b then Some (of_char b - 97 + 10)
     else if in_range CHR ''A'' CHR ''F'' b then Some (of_char b - 65 + 10)
     else None)"

text \<open>\<open>value.checked_mul(base).and_then(|v| v.checked_add(digit))\<close>\<close>

definition push_digit :: "u32 \<Rightarrow> u32 \<Rightarrow> u32 \<Rightarrow> u32 option" where
  "push_digit base value digit =
    (case checked_mul value base of None \<Rightarrow> None | Some v \<Rightarrow> checked_add v digit)"

text \<open>The digit loops: \<open>Inl\<close> is the early return of an error token, \<open>Inr\<close> the value at the
  \<open>break\<close>.\<close>

function hex_loop :: "Lexer \<Rightarrow> u32 \<Rightarrow> (Token + u32) \<times> Lexer" where
  "hex_loop lx value =
    (if lx_more lx then
       (case hex_digit (lx_byte lx) of
          Some digit \<Rightarrow>
            (case push_digit 16 value digit of
               Some v \<Rightarrow> hex_loop (lx_advance 1 lx) v
             | None \<Rightarrow>
                 (Inl (TokError ''hex literal overflow''),
                  skip_while (\<lambda>b. is_ascii_hexdigit b \<or> b = CHR ''_'') lx))
        | None \<Rightarrow>
            if lx_byte lx = CHR ''_'' then hex_loop (lx_advance 1 lx) value
            else (Inr value, lx))
     else (Inr value, lx))"
  by pat_completeness auto
termination
  by (relation "measure (\<lambda>(lx, value). length (lx_stream lx) - lx_cursor lx)")
    (auto simp: lx_more_def lx_advance_def)

function dec_loop :: "Lexer \<Rightarrow> u32 \<Rightarrow> (Token + u32) \<times> Lexer" where
  "dec_loop lx value =
    (if lx_more lx then
       (if is_ascii_digit (lx_byte lx) then
          (case push_digit 10 value (of_char (lx_byte lx) - 48) of
             Some v \<Rightarrow> dec_loop (lx_advance 1 lx) v
           | None \<Rightarrow>
               (Inl (TokError ''literal overflow''),
                skip_while (\<lambda>b. is_ascii_digit b \<or> b = CHR ''_'') lx))
        else if lx_byte lx = CHR ''_'' then dec_loop (lx_advance 1 lx) value
        else (Inr value, lx))
     else (Inr value, lx))"
  by pat_completeness auto
termination
  by (relation "measure (\<lambda>(lx, value). length (lx_stream lx) - lx_cursor lx)")
    (auto simp: lx_more_def lx_advance_def)

declare hex_loop.simps [simp del] dec_loop.simps [simp del]

definition parse_literal :: "Lexer \<Rightarrow> Token \<times> Lexer" where
  "parse_literal lx =
    (if lx_byte lx = CHR ''0''
        \<and> lx_cursor lx + 1 < length (lx_stream lx)
        \<and> (lx_byte (lx_advance 1 lx) = CHR ''x'' \<or> lx_byte (lx_advance 1 lx) = CHR ''X'')
     then
       (let lx1 = lx_advance 2 lx; digits_start = lx_cursor lx1
        in case hex_loop lx1 0 of
             (Inl e, lx2) \<Rightarrow> (e, lx2)
           | (Inr value, lx2) \<Rightarrow>
               (if lx_cursor lx2 = digits_start then TokError ''malformed hex literal''
                else Literal value, lx2))
     else
       (case dec_loop lx 0 of
          (Inl e, lx2) \<Rightarrow> (e, lx2)
        | (Inr value, lx2) \<Rightarrow> (Literal value, lx2)))"

function next_token :: "Lexer \<Rightarrow> Token \<times> Lexer" where
  "next_token lx =
    (if lx_more lx then
       (let b = lx_byte lx; step = lx_advance 1 lx
        in if b = CHR '' '' \<or> b = CHR 0x09 \<or> b = CHR 0x0D then next_token step
           else if b = CHR 0x0A then next_token (step\<lparr>lx_line := lx_line lx + 1\<rparr>)
           else if is_ascii_alphabetic b \<or> b = CHR ''_'' then parse_identifier lx
           else if is_ascii_digit b then parse_literal lx
           else if b = CHR ''('' then (LParen, step)
           else if b = CHR '')'' then (RParen, step)
           else if b = CHR ''{'' then (LBrace, step)
           else if b = CHR ''}'' then (RBrace, step)
           else if b = CHR '';'' then (Semicolon, step)
           else if b = CHR '','' then (Comma, step)
           else if is_operator b then (Operator b, step)
           else (TokError ''unexpected character'', step))
     else (Eof, lx))"
  by pat_completeness auto
termination
  by (relation "measure (\<lambda>lx. length (lx_stream lx) - lx_cursor lx)")
    (auto simp: lx_more_def lx_advance_def)

declare next_token.simps [simp del]


section \<open>What the lexer computes, over the input that is left\<close>

definition lx_rest :: "Lexer \<Rightarrow> string" where
  "lx_rest lx = drop (lx_cursor lx) (lx_stream lx)"

lemma lx_rest_end [simp]: "\<not> lx_more lx \<Longrightarrow> lx_rest lx = []"
  by (auto simp: lx_rest_def lx_more_def)

lemma lx_rest_more: "lx_more lx \<Longrightarrow> lx_rest lx = lx_byte lx # lx_rest (lx_advance 1 lx)"
  by (simp add: lx_rest_def lx_more_def lx_byte_def lx_advance_def Cons_nth_drop_Suc)

lemma lx_rest_ConsD:
  assumes "lx_rest lx = c # cs"
  shows "lx_more lx" and "lx_byte lx = c" and "lx_rest (lx_advance 1 lx) = cs"
proof -
  show "lx_more lx"
    using assms lx_rest_end [of lx] by fastforce
  then show "lx_byte lx = c" and "lx_rest (lx_advance 1 lx) = cs"
    using assms lx_rest_more [of lx] by simp_all
qed

lemma lx_advance_simps [simp]:
  "lx_stream (lx_advance n lx) = lx_stream lx"
  "lx_cursor (lx_advance n lx) = lx_cursor lx + n"
  "lx_line (lx_advance n lx) = lx_line lx"
  "lx_advance m (lx_advance n lx) = lx_advance (n + m) lx"
  "lx_advance 0 lx = lx"
  by (simp_all add: lx_advance_def)

lemma lx_rest_advance [simp]: "lx_rest (lx_advance n lx) = drop n (lx_rest lx)"
  by (simp add: lx_rest_def add.commute)

lemma skip_while_eq: "skip_while p lx = lx_advance (length (takeWhile p (lx_rest lx))) lx"
proof (induction p lx rule: skip_while.induct)
  case (1 p lx)
  show ?case
  proof (cases "lx_more lx \<and> p (lx_byte lx)")
    case True
    with 1 show ?thesis
      by (simp add: lx_rest_more skip_while.simps [of p lx] del: lx_rest_advance)
  next
    case False
    then show ?thesis
      by (cases "lx_more lx")
        (simp_all add: skip_while.simps [of p lx] lx_rest_more del: lx_rest_advance)
  qed
qed

text \<open>The number a digit string denotes: underscores are skipped, letters are hex digits.\<close>

definition digit_val :: "char \<Rightarrow> nat" where
  "digit_val c =
    (if in_range CHR ''0'' CHR ''9'' c then of_char c - 48
     else if in_range CHR ''a'' CHR ''f'' c then of_char c - 87
     else of_char c - 55)"

fun num_val :: "nat \<Rightarrow> nat \<Rightarrow> string \<Rightarrow> nat" where
  "num_val b v [] = v"
| "num_val b v (c # cs) = num_val b (if c = CHR ''_'' then v else v * b + digit_val c) cs"

lemma num_val_ge: "0 < b \<Longrightarrow> v \<le> num_val b v cs"
proof (induction cs arbitrary: v)
  case (Cons c cs)
  have "v \<le> v * b + digit_val c"
    using Cons.prems by (simp add: trans_le_add1)
  with Cons show ?case
    by (auto intro: order_trans)
qed simp

lemma of_char_less: "(of_char c :: nat) < 256"
  using of_char_mod_256 [of c, where 'a = nat] mod_less_divisor [of 256 "of_char c :: nat"] by simp

lemma unat_char_minus:
  assumes "m \<le> (of_char c :: nat)"
  shows "unat (of_char c - of_nat m :: u32) = of_char c - m"
proof -
  have "(of_char c - of_nat m :: u32) = of_nat (of_char c - m)"
    using assms by (simp add: of_nat_diff of_nat_of_char)
  moreover have "of_char c - m < 2 ^ 32"
    by (rule le_less_trans [OF diff_le_self less_trans [OF of_char_less]]) simp
  ultimately show ?thesis
    by (simp add: unat_of_nat)
qed

lemma push_digit_Some:
  "push_digit base v d = Some w \<longleftrightarrow> unat w = unat v * unat base + unat d"
proof -
  have "checked_mul v base = None \<Longrightarrow> 2 ^ 32 \<le> unat v * unat base"
    by (auto simp: checked_mul_unat split: if_splits)
  then show ?thesis
    using unat_less_u32 [of w]
    by (auto simp: push_digit_def checked_mul_Some checked_add_Some split: option.split)
qed

lemma push_digit_None:
  "push_digit base v d = None \<longleftrightarrow> 2 ^ 32 \<le> unat v * unat base + unat d"
  by (auto simp: push_digit_def checked_mul_unat checked_add_unat unat_mult_u32)

lemma hex_digit_Some:
  "hex_digit c = Some d \<longleftrightarrow> is_ascii_hexdigit c \<and> unat d = digit_val c"
  using unat_char_minus [of 48 c] unat_char_minus [of 87 c] unat_char_minus [of 55 c]
  by (auto simp: hex_digit_def is_ascii_hexdigit_def is_ascii_digit_def digit_val_def
      in_range_def word_unat_eq_iff)

lemma hex_digit_None: "hex_digit c = None \<longleftrightarrow> \<not> is_ascii_hexdigit c"
  by (auto simp: hex_digit_def is_ascii_hexdigit_def is_ascii_digit_def)

lemma dec_digit_val: "is_ascii_digit c \<Longrightarrow> unat (of_char c - 48 :: u32) = digit_val c"
  using unat_char_minus [of 48 c] by (simp add: is_ascii_digit_def digit_val_def in_range_def)

lemma not_digit_underscore [simp]:
  "\<not> is_ascii_digit CHR ''_''" "\<not> is_ascii_hexdigit CHR ''_''"
  by (simp_all add: is_ascii_digit_def is_ascii_hexdigit_def in_range_def)

abbreviation dec_char :: "char \<Rightarrow> bool" where
  "dec_char c \<equiv> is_ascii_digit c \<or> c = CHR ''_''"

abbreviation hex_char :: "char \<Rightarrow> bool" where
  "hex_char c \<equiv> is_ascii_hexdigit c \<or> c = CHR ''_''"

definition literal_value :: "nat \<Rightarrow> string \<Rightarrow> nat \<Rightarrow> string \<Rightarrow> Token + u32" where
  "literal_value b msg v ds =
    (if num_val b v ds < 2 ^ 32 then Inr (of_nat (num_val b v ds)) else Inl (TokError msg))"

lemma literal_value_simps [simp]:
  "literal_value b msg (unat v) [] = Inr v"
  "literal_value b msg n (CHR ''_'' # cs) = literal_value b msg n cs"
  using unat_less_u32 [of v] by (simp_all add: literal_value_def)

lemma literal_value_digit:
  assumes "unat (d :: u32) = digit_val c" "c \<noteq> CHR ''_''" "unat base = b" "0 < b"
  shows "literal_value b msg (unat v) (c # cs) =
    (case push_digit base v d of
       Some w \<Rightarrow> literal_value b msg (unat w) cs
     | None \<Rightarrow> Inl (TokError msg))"
proof (cases "push_digit base v d")
  case None
  then have "2 ^ 32 \<le> unat v * b + digit_val c"
    using assms by (simp add: push_digit_None)
  also have "\<dots> \<le> num_val b (unat v * b + digit_val c) cs"
    by (rule num_val_ge [OF assms(4)])
  finally show ?thesis
    using None assms(2) by (simp add: literal_value_def)
next
  case (Some w)
  moreover from this have "unat w = unat v * b + digit_val c"
    using assms by (simp add: push_digit_Some)
  ultimately show ?thesis
    using assms(2) by (simp add: literal_value_def)
qed

lemma dec_loop_eq:
  "dec_loop lx v =
    (let ds = takeWhile dec_char (lx_rest lx)
     in (literal_value 10 ''literal overflow'' (unat v) ds, lx_advance (length ds) lx))"
proof (induction lx v rule: dec_loop.induct)
  case (1 lx v)
  let ?c = "lx_byte lx"
  consider "\<not> lx_more lx" | "lx_more lx" "is_ascii_digit ?c"
    | "lx_more lx" "?c = CHR ''_''" | "lx_more lx" "\<not> dec_char ?c"
    by blast
  then show ?case
  proof cases
    case 2
    let ?d = "of_char ?c - 48 :: u32"
    have "literal_value 10 ''literal overflow'' (unat v) (?c # cs) =
        (case push_digit 10 v ?d of
           Some w \<Rightarrow> literal_value 10 ''literal overflow'' (unat w) cs
         | None \<Rightarrow> Inl (TokError ''literal overflow''))" for cs
      using 2 by (intro literal_value_digit dec_digit_val) auto
    then show ?thesis
      using 2 1
      by (cases "push_digit 10 v ?d")
        (auto simp: dec_loop.simps [of lx v] skip_while_eq lx_rest_more Let_def
          simp del: lx_rest_advance)
  qed (use 1 in \<open>auto simp: dec_loop.simps [of lx v] lx_rest_more Let_def
      simp del: lx_rest_advance\<close>)
qed

lemma hex_loop_eq:
  "hex_loop lx v =
    (let ds = takeWhile hex_char (lx_rest lx)
     in (literal_value 16 ''hex literal overflow'' (unat v) ds, lx_advance (length ds) lx))"
proof (induction lx v rule: hex_loop.induct)
  case (1 lx v)
  let ?c = "lx_byte lx"
  consider "\<not> lx_more lx" | d where "lx_more lx" "hex_digit ?c = Some d"
    | "lx_more lx" "hex_digit ?c = None" "\<not> is_ascii_hexdigit ?c" "?c = CHR ''_''"
    | "lx_more lx" "hex_digit ?c = None" "\<not> is_ascii_hexdigit ?c" "?c \<noteq> CHR ''_''"
    using hex_digit_None [of ?c] by (cases "hex_digit ?c") blast+
  then show ?case
  proof cases
    case 2
    then have "literal_value 16 ''hex literal overflow'' (unat v) (?c # cs) =
        (case push_digit 16 v d of
           Some w \<Rightarrow> literal_value 16 ''hex literal overflow'' (unat w) cs
         | None \<Rightarrow> Inl (TokError ''hex literal overflow''))" for cs
      by (intro literal_value_digit) (auto simp: hex_digit_Some)
    moreover have "is_ascii_hexdigit ?c"
      using 2 by (simp add: hex_digit_Some)
    ultimately show ?thesis
      using 2 1
      by (cases "push_digit 16 v d")
        (auto simp: hex_loop.simps [of lx v] skip_while_eq lx_rest_more Let_def
          simp del: lx_rest_advance)
  qed (use 1 in \<open>auto simp: hex_loop.simps [of lx v] lx_rest_more Let_def
      simp del: lx_rest_advance\<close>)
qed

lemmas loop_eqs = skip_while_eq dec_loop_eq hex_loop_eq

text \<open>Which byte starts what, and where a token ends.\<close>

definition is_space :: "char \<Rightarrow> bool" where
  "is_space b \<longleftrightarrow> b \<in> {CHR '' '', CHR 0x09, CHR 0x0D, CHR 0x0A}"

definition newlines :: "string \<Rightarrow> nat" where
  "newlines s = length (filter (\<lambda>b. b = CHR 0x0A) s)"

lemma newlines_append [simp]: "newlines (s @ t) = newlines s + newlines t"
  by (simp add: newlines_def)

text \<open>A scanner consumes a prefix without newlines: the part shared by the three scanners.\<close>

definition scans :: "nat \<Rightarrow> Lexer \<Rightarrow> Lexer \<Rightarrow> bool" where
  "scans least lx lx' \<longleftrightarrow>
    (\<exists>n\<ge>least. n \<le> length (lx_rest lx) \<and> lx' = lx_advance n lx \<and> newlines (take n (lx_rest lx)) = 0)"

lemma newlines_takeWhile [simp]:
  "\<not> p CHR 0x0A \<Longrightarrow> newlines (takeWhile p s) = 0"
  by (auto simp: newlines_def filter_empty_conv dest: set_takeWhileD)

lemma take_length_takeWhile [simp]: "take (length (takeWhile p s)) s = takeWhile p s"
  by (metis takeWhile_eq_take length_take takeWhile_eq_take)

lemma newline_classes [simp]:
  "\<not> is_ascii_alphanumeric CHR 0x0A" "\<not> is_ascii_alphabetic CHR 0x0A" "\<not> is_ascii_digit CHR 0x0A" "\<not> is_ascii_hexdigit CHR 0x0A"
  by (simp_all add: is_ascii_alphanumeric_def is_ascii_alphabetic_def is_ascii_digit_def
      is_ascii_hexdigit_def in_range_def)

lemma scans_takeWhile:
  assumes "lx_more lx" "p (lx_byte lx)" "\<not> p CHR 0x0A"
  shows "scans 1 lx (lx_advance (length (takeWhile p (lx_rest lx))) lx)"
  unfolding scans_def
  using assms newlines_takeWhile [of p "lx_rest lx"]
  by (intro exI [of _ "length (takeWhile p (lx_rest lx))"])
    (auto simp: length_takeWhile_le lx_rest_more simp del: lx_rest_advance newlines_takeWhile)

lemma parse_identifier_scans:
  assumes "lx_more lx" "is_ascii_alphabetic (lx_byte lx) \<or> lx_byte lx = CHR ''_''"
  shows "scans 1 lx (snd (parse_identifier lx))"
  unfolding parse_identifier_def Let_def skip_while_eq snd_conv
  by (rule scans_takeWhile) (use assms in \<open>auto simp: is_ascii_alphanumeric_def\<close>)

lemma parse_literal_scans:
  assumes "lx_more lx" "is_ascii_digit (lx_byte lx)"
  shows "scans 1 lx (snd (parse_literal lx))"
proof (cases "lx_byte lx = CHR ''0''
        \<and> lx_cursor lx + 1 < length (lx_stream lx)
        \<and> (lx_byte (lx_advance 1 lx) = CHR ''x'' \<or> lx_byte (lx_advance 1 lx) = CHR ''X'')")
  case True
  then have "lx_more (lx_advance 1 lx)"
    by (simp add: lx_more_def)
  from lx_rest_more [OF this] lx_rest_more [OF assms(1)]
  have rest: "lx_rest lx = lx_byte lx # lx_byte (lx_advance 1 lx) # lx_rest (lx_advance 2 lx)"
    by (simp only: lx_advance_simps one_add_one)
  define s where "s = lx_rest (lx_advance 2 lx)"
  let ?n = "2 + length (takeWhile hex_char s)"
  have "snd (parse_literal lx) = lx_advance ?n lx"
    using True unfolding parse_literal_def loop_eqs Let_def s_def literal_value_def
    by (simp add: split_def)
  moreover have "newlines (take ?n (lx_rest lx)) = 0" "?n \<le> length (lx_rest lx)"
    using True newlines_takeWhile [of hex_char s]
    unfolding rest s_def [symmetric] by (auto simp: newlines_def length_takeWhile_le)
  ultimately show ?thesis
    unfolding scans_def by (intro exI [of _ ?n]) simp
next
  case False
  then have "snd (parse_literal lx) = lx_advance (length (takeWhile dec_char (lx_rest lx))) lx"
    unfolding parse_literal_def loop_eqs Let_def literal_value_def by auto
  then show ?thesis
    using scans_takeWhile [of lx dec_char] assms by simp
qed

text \<open>One call of the lexer: it consumes \<open>n\<close> bytes of what is left and counts their newlines;
  it returns \<open>Eof\<close> exactly when only white space was left, and then stands at the end.\<close>

definition tok_step :: "Lexer \<Rightarrow> Token \<Rightarrow> Lexer \<Rightarrow> bool" where
  "tok_step lx t lx' \<longleftrightarrow>
    (\<exists>n\<le>length (lx_rest lx).
       lx' = (lx_advance n lx)\<lparr>lx_line := lx_line lx + newlines (take n (lx_rest lx))\<rparr>
       \<and> (if list_all is_space (lx_rest lx) then t = Eof \<and> n = length (lx_rest lx)
          else t \<noteq> Eof \<and> 0 < n))"

lemma tok_step_scan:
  assumes "scans 1 lx lx'" "t \<noteq> Eof" "lx_more lx" "\<not> is_space (lx_byte lx)"
  shows "tok_step lx t lx'"
proof -
  obtain n where "1 \<le> n" "n \<le> length (lx_rest lx)" "lx' = lx_advance n lx"
    "newlines (take n (lx_rest lx)) = 0"
    using assms(1) by (auto simp: scans_def)
  then show ?thesis
    using assms(2-4) lx_rest_more [OF assms(3)] unfolding tok_step_def
    by (intro exI [of _ n]) (simp add: lx_advance_def)
qed

lemma tok_step_single:
  assumes "lx_more lx" "\<not> is_space (lx_byte lx)" "t \<noteq> Eof"
  shows "tok_step lx t (lx_advance 1 lx)"
proof (rule tok_step_scan)
  show "scans 1 lx (lx_advance 1 lx)"
    using assms(1,2) unfolding scans_def
    by (intro exI [of _ 1]) (auto simp: lx_rest_more newlines_def is_space_def simp del: lx_rest_advance)
qed (use assms in auto)

lemma tok_step_space:
  assumes "lx_more lx" "is_space (lx_byte lx)"
    and "lx1 = (lx_advance 1 lx)\<lparr>lx_line := lx_line lx + newlines [lx_byte lx]\<rparr>"
    and "tok_step lx1 t lx'"
  shows "tok_step lx t lx'"
proof -
  let ?s = "lx_rest (lx_advance 1 lx)"
  have rest1: "lx_rest lx1 = ?s"
    using assms(3) by (simp add: lx_rest_def)
  note rest = lx_rest_more [OF assms(1)]
  obtain n where n: "n \<le> length ?s"
    "lx' = (lx_advance n lx1)\<lparr>lx_line := lx_line lx1 + newlines (take n ?s)\<rparr>"
    "if list_all is_space ?s then t = Eof \<and> n = length ?s else t \<noteq> Eof \<and> 0 < n"
    using assms(4) unfolding tok_step_def rest1 by blast
  have "newlines (lx_byte lx # take n ?s) = newlines [lx_byte lx] + newlines (take n ?s)"
    by (simp add: newlines_def)
  then show ?thesis
    unfolding tok_step_def rest using assms(2) n
    by (intro exI [of _ "Suc n"]) (auto simp: assms(3) lx_advance_def split: if_splits)
qed

lemma parse_identifier_not_Eof: "fst (parse_identifier lx) \<noteq> Eof"
  by (simp add: parse_identifier_def Let_def)

lemma parse_literal_not_Eof: "fst (parse_literal lx) \<noteq> Eof"
  by (simp add: parse_literal_def loop_eqs literal_value_def Let_def)

lemma is_space_classes:
  "is_ascii_alphabetic b \<or> b = CHR ''_'' \<or> is_ascii_digit b \<Longrightarrow> \<not> is_space b"
  by (auto simp: is_space_def is_ascii_alphabetic_def is_ascii_digit_def in_range_def)

text \<open>The three ways a token starts.\<close>

definition ident_start :: "char \<Rightarrow> bool" where
  "ident_start b \<longleftrightarrow> is_ascii_alphabetic b \<or> b = CHR ''_''"

definition single_token :: "char \<Rightarrow> Token" where
  "single_token b =
    (if b = CHR ''('' then LParen else if b = CHR '')'' then RParen
     else if b = CHR ''{'' then LBrace else if b = CHR ''}'' then RBrace
     else if b = CHR '';'' then Semicolon else if b = CHR '','' then Comma
     else if is_operator b then Operator b else TokError ''unexpected character'')"

lemma single_token_not_Eof [simp]: "single_token b \<noteq> Eof"
  by (simp add: single_token_def)

lemma next_token_ident:
  "lx_more lx \<Longrightarrow> ident_start (lx_byte lx) \<Longrightarrow> next_token lx = parse_identifier lx"
  using is_space_classes [of "lx_byte lx"]
  by (auto simp: next_token.simps [of lx] is_space_def ident_start_def Let_def)

lemma next_token_literal:
  "lx_more lx \<Longrightarrow> is_ascii_digit (lx_byte lx) \<Longrightarrow> next_token lx = parse_literal lx"
  using is_space_classes [of "lx_byte lx"]
  by (auto simp: next_token.simps [of lx] is_space_def Let_def is_ascii_alphabetic_def
      is_ascii_digit_def in_range_def)

lemma next_token_single:
  "lx_more lx \<Longrightarrow> \<not> is_space (lx_byte lx) \<Longrightarrow> \<not> ident_start (lx_byte lx)
    \<Longrightarrow> \<not> is_ascii_digit (lx_byte lx)
    \<Longrightarrow> next_token lx = (single_token (lx_byte lx), lx_advance 1 lx)"
  by (simp add: next_token.simps [of lx] is_space_def ident_start_def single_token_def Let_def)

lemma next_token_step: "tok_step lx (fst (next_token lx)) (snd (next_token lx))"
proof (induction lx rule: next_token.induct)
  case (1 lx)
  let ?b = "lx_byte lx"
  note eq = next_token.simps [of lx] Let_def
  consider (Eof) "\<not> lx_more lx" | (space) "lx_more lx" "is_space ?b"
    | (ident) "lx_more lx" "ident_start ?b"
    | (lit) "lx_more lx" "is_ascii_digit ?b"
    | (single) "lx_more lx" "\<not> is_space ?b" "\<not> ident_start ?b" "\<not> is_ascii_digit ?b"
    by blast
  then show ?case
  proof cases
    case Eof
    then show ?thesis
      by (auto simp: eq tok_step_def lx_advance_def newlines_def)
  next
    case space
    then show ?thesis
      by (intro tok_step_space [OF space refl])
        (use 1 space in \<open>auto simp: eq is_space_def newlines_def lx_advance_def\<close>)
  next
    case ident
    then show ?thesis
      using is_space_classes [of ?b]
      by (auto intro!: tok_step_scan parse_identifier_scans
          simp: next_token_ident parse_identifier_not_Eof ident_start_def)
  next
    case lit
    then show ?thesis
      using is_space_classes [of ?b]
      by (auto intro!: tok_step_scan parse_literal_scans
          simp: next_token_literal parse_literal_not_Eof)
  next
    case single
    then show ?thesis
      using tok_step_single [of lx] by (simp add: next_token_single)
  qed
qed

lemma lx_byte_rest: "lx_rest lx = c # s \<Longrightarrow> lx_more lx \<and> lx_byte lx = c"
  using lx_rest_ConsD by blast

lemma takeWhile_prefix:
  "list_all p xs \<Longrightarrow> ys = [] \<or> \<not> p (hd ys) \<Longrightarrow> takeWhile p (xs @ ys) = xs"
  by (cases ys) (auto simp: list_all_iff takeWhile_append)

text \<open>The hex prefix, over what is left.\<close>

definition hex_prefix :: "string \<Rightarrow> bool" where
  "hex_prefix s \<longleftrightarrow> (\<exists>x r. s = CHR ''0'' # x # r \<and> (x = CHR ''x'' \<or> x = CHR ''X''))"

lemma hex_prefix_iff:
  assumes "lx_more lx"
  shows "hex_prefix (lx_rest lx) \<longleftrightarrow>
    lx_byte lx = CHR ''0'' \<and> lx_cursor lx + 1 < length (lx_stream lx)
    \<and> (lx_byte (lx_advance 1 lx) = CHR ''x'' \<or> lx_byte (lx_advance 1 lx) = CHR ''X'')"
proof (cases "lx_more (lx_advance 1 lx)")
  case True
  then show ?thesis
    using lx_rest_more [OF assms] lx_rest_more [OF True]
    by (auto simp: hex_prefix_def lx_more_def simp del: lx_rest_advance)
next
  case False
  then show ?thesis
    using lx_rest_more [OF assms] lx_rest_end [OF False]
    by (auto simp: hex_prefix_def lx_more_def simp del: lx_rest_advance)
qed

lemma parse_literal_dec:
  assumes "lx_more lx" "\<not> hex_prefix (lx_rest lx)" "takeWhile dec_char (lx_rest lx) = ds"
  shows "parse_literal lx =
    (if num_val 10 0 ds < 2 ^ 32 then Literal (of_nat (num_val 10 0 ds))
     else TokError ''literal overflow'', lx_advance (length ds) lx)"
  using assms(2,3) unfolding hex_prefix_iff [OF assms(1)] parse_literal_def loop_eqs Let_def
  by (auto simp: literal_value_def)

lemma parse_literal_hex:
  assumes "hex_prefix (lx_rest lx)" "takeWhile hex_char (drop 2 (lx_rest lx)) = hs"
  shows "parse_literal lx =
    (if hs = [] then TokError ''malformed hex literal''
     else if num_val 16 0 hs < 2 ^ 32 then Literal (of_nat (num_val 16 0 hs))
     else TokError ''hex literal overflow'', lx_advance (length hs + 2) lx)"
proof -
  have "lx_more lx"
    using assms(1) lx_byte_rest by (auto simp: hex_prefix_def)
  from hex_prefix_iff [OF this] show ?thesis
    using assms unfolding parse_literal_def loop_eqs Let_def
    by (auto simp: literal_value_def)
qed

section \<open>Properties\<close>

text \<open>A call of \<open>next_token\<close> on a lexer whose cursor is inside the input keeps the cursor
  inside it, reads the input in order and never changes it. It returns \<open>Eof\<close> exactly when only
  white space is left, and then the cursor is at the end; every other token, an error token
  included, advances the cursor, so a client that reads tokens until \<open>Eof\<close> terminates. The
  line counter grows by the newlines that were read.\<close>

theorem next_token_progress:
  assumes "lx_cursor lx \<le> length (lx_stream lx)" and "next_token lx = (t, lx')"
  shows "lx_stream lx' = lx_stream lx \<and> lx_cursor lx' \<le> length (lx_stream lx)
    \<and> lx_line lx' = lx_line lx + newlines (take (lx_cursor lx' - lx_cursor lx) (lx_rest lx))
    \<and> (if list_all is_space (lx_rest lx)
       then t = Eof \<and> lx_cursor lx' = length (lx_stream lx)
       else t \<noteq> Eof \<and> lx_cursor lx < lx_cursor lx')"
proof -
  have "length (lx_rest lx) = length (lx_stream lx) - lx_cursor lx"
    by (simp add: lx_rest_def)
  then show ?thesis
    using next_token_step [of lx] assms by (auto simp: tok_step_def)
qed

theorem next_token_progress_witness:
  "lx_cursor (snd (next_token (lexer_new ''  poke 7''))) \<le> 8
    \<and> fst (next_token (lexer_new ''  poke 7'')) \<noteq> Eof"
  using next_token_progress [of "lexer_new ''  poke 7''"
      "fst (next_token (lexer_new ''  poke 7''))" "snd (next_token (lexer_new ''  poke 7''))"]
  by (simp add: lexer_new_def lx_rest_def is_space_def)

text \<open>C18. Numeric literals. A maximal run of decimal digits and underscores that starts with a
  digit and does not open a hex literal is one \<open>Literal\<close> token with the number it denotes when
  that fits in 32 bits, and one overflow error that consumes the whole run otherwise. After
  \<open>0x\<close> or \<open>0X\<close> the same holds of the maximal run of hex digits and underscores in base 16,
  and an empty run is the malformed-literal error; a run of underscores only is the literal 0.\<close>

theorem next_token_numbers:
  assumes "lx_rest lx = c # s" "is_ascii_digit c"
  shows "next_token lx =
    (if hex_prefix (c # s)
     then (let hs = takeWhile hex_char (tl s)
           in (if hs = [] then TokError ''malformed hex literal''
               else if num_val 16 0 hs < 2 ^ 32 then Literal (of_nat (num_val 16 0 hs))
               else TokError ''hex literal overflow'', lx_advance (length hs + 2) lx))
     else (let ds = takeWhile dec_char (c # s)
           in (if num_val 10 0 ds < 2 ^ 32 then Literal (of_nat (num_val 10 0 ds))
               else TokError ''literal overflow'', lx_advance (length ds) lx)))"
proof -
  note lx = lx_rest_ConsD [OF assms(1)]
  have "drop 2 (lx_rest lx) = tl s"
    using assms(1) by (simp add: drop_Suc numeral_2_eq_2)
  then show ?thesis
    using parse_literal_dec [OF lx(1) _ refl] parse_literal_hex [OF _ refl, of lx] assms lx
    by (simp add: next_token_literal Let_def)
qed

theorem next_token_numbers_witness:
  "next_token (lexer_new ''0xFF_00;'') = (Literal 0xFF00, lx_advance 7 (lexer_new ''0xFF_00;''))
    \<and> next_token (lexer_new ''4294967296'')
      = (TokError ''literal overflow'', lx_advance 10 (lexer_new ''4294967296''))"
  using next_token_numbers [of "lexer_new ''0xFF_00;''" "CHR ''0''" "''xFF_00;''"]
    next_token_numbers [of "lexer_new ''4294967296''" "CHR ''4''" "''294967296''"]
  by (simp add: lexer_new_def lx_rest_def hex_prefix_def is_ascii_digit_def is_ascii_hexdigit_def
      in_range_def digit_val_def)
end
