(* ===== verification/Ring_Buffers.thy ===== *)
theory Ring_Buffers
  imports Interfaces
begin

text \<open>
  Arithmetic of index pairs into a circular array, shared by the ring buffers of the program:
  the UART receive ring, the DMA descriptor ring and the scheduler's task queue. Each keeps a
  read index \<open>r\<close> and a write index \<open>w\<close> into an array of \<open>n\<close> slots and leaves one slot free, so
  that \<open>r = w\<close> means empty and \<open>w + 1 = r\<close> (modulo \<open>n\<close>) means full.
\<close>

definition ring_len :: "nat \<Rightarrow> nat \<Rightarrow> nat \<Rightarrow> nat" where
  "ring_len n r w = (w + n - r) mod n"

definition ring_contents :: "'a list \<Rightarrow> nat \<Rightarrow> nat \<Rightarrow> 'a list" where
  "ring_contents buf r w =
    map (\<lambda>k. buf ! ((r + k) mod length buf)) [0..<ring_len (length buf) r w]"

lemma length_ring_contents [simp]:
  "length (ring_contents buf r w) = ring_len (length buf) r w"
  by (simp add: ring_contents_def)

lemma Suc_mod_cases: "w < n \<Longrightarrow> Suc w mod n = (if Suc w = n then 0 else Suc w)" for n :: nat
  by auto

lemma add_mod_cases:
  "r < n \<Longrightarrow> k < n \<Longrightarrow> (r + k) mod n = (if r + k < n then r + k else r + k - n)" for n :: nat
  by (simp add: le_mod_geq)

lemma ring_len_cases:
  assumes "r < n" "w < n"
  shows "ring_len n r w = (if r \<le> w then w - r else n + w - r)"
  using assms add_mod_cases [of "n - r" n w]
  by (cases "r = 0") (auto simp: ring_len_def add.commute)

lemmas ring_arith = ring_len_cases Suc_mod_cases add_mod_cases

lemma ring_len_less: "r < n \<Longrightarrow> w < n \<Longrightarrow> ring_len n r w < n"
  by (simp add: ring_len_def)

lemma ring_full_iff:
  "r < n \<Longrightarrow> w < n \<Longrightarrow> Suc w mod n = r \<longleftrightarrow> \<not> ring_len n r w < n - 1"
  by (auto simp: ring_arith split: if_splits)

lemma ring_empty_iff: "r < n \<Longrightarrow> w < n \<Longrightarrow> r = w \<longleftrightarrow> ring_len n r w = 0"
  by (auto simp: ring_arith)

lemma ring_slot: "r < n \<Longrightarrow> w < n \<Longrightarrow> (r + ring_len n r w) mod n = w" for n :: nat
  by (simp add: add_mod_cases ring_len_less) (auto simp: ring_len_cases)

lemma ring_slot_other:
  assumes "r < n" "w < n" "k < ring_len n r w"
  shows "(r + k) mod n \<noteq> w"
proof -
  have "k < n"
    using assms ring_len_less [of r n w] by simp
  then show ?thesis
    using assms by (auto simp: ring_arith split: if_splits)
qed

lemma ring_len_push:
  "r < n \<Longrightarrow> w < n \<Longrightarrow> Suc w mod n \<noteq> r \<Longrightarrow> ring_len n r (Suc w mod n) = Suc (ring_len n r w)"
  by (auto simp: ring_arith)

lemma ring_len_pop:
  "r < n \<Longrightarrow> w < n \<Longrightarrow> r \<noteq> w \<Longrightarrow> ring_len n r w = Suc (ring_len n (Suc r mod n) w)"
  by (auto simp: ring_arith)

text \<open>The two steps of a ring buffer, on its contents.\<close>

lemma ring_contents_push:
  assumes "r < length buf" "w < length buf" "Suc w mod length buf \<noteq> r"
  shows "ring_contents (buf[w := x]) r (Suc w mod length buf) = ring_contents buf r w @ [x]"
proof -
  have "map (\<lambda>k. buf[w := x] ! ((r + k) mod length buf)) [0..<ring_len (length buf) r w]
      = map (\<lambda>k. buf ! ((r + k) mod length buf)) [0..<ring_len (length buf) r w]"
    using ring_slot_other [OF assms(1,2)] by (intro map_cong refl nth_list_update_neq) fastforce
  then show ?thesis
    using ring_len_push [OF assms] ring_slot [OF assms(1,2)] assms(2)
    by (simp add: ring_contents_def)
qed

lemma ring_contents_pop:
  assumes "r < length buf" "w < length buf" "r \<noteq> w"
  shows "ring_contents buf r w = buf ! r # ring_contents buf (Suc r mod length buf) w"
proof -
  let ?n = "length buf"
  have "[0..<ring_len ?n r w] = 0 # map Suc [0..<ring_len ?n (Suc r mod ?n) w]"
    unfolding ring_len_pop [OF assms] map_Suc_upt by (simp add: upt_conv_Cons)
  moreover have "(r + Suc k) mod ?n = (Suc r mod ?n + k) mod ?n" for k
    by (simp add: mod_add_left_eq)
  ultimately show ?thesis
    using assms(1) by (simp add: ring_contents_def comp_def)
qed

lemma ring_contents_Nil: "r < length buf \<Longrightarrow> w < length buf \<Longrightarrow> ring_contents buf r w = [] \<longleftrightarrow> r = w"
  using ring_empty_iff [of r "length buf" w] by (metis length_0_conv length_ring_contents)

end
