(* ===== verification/Uart.thy ===== *)
theory Uart
  imports Ring_Buffers Lexer Byte_Memory "HOL-Library.Sublist"
begin

text \<open>
  The console driver of \<^verbatim>\<open>src/drivers/uart.rs\<close>: the receive ring fed by the interrupt handler
  and drained by the command loop, and the formatted output of numbers. The values that
  volatile reads of the device registers return are inputs of the model: the status and data
  words of one poll, and for the transmitter the sequence \<open>sr\<close> of the words that successive
  reads of the status register return.
\<close>

section \<open>Receive ring\<close>

definition RING_SIZE :: nat where
  "RING_SIZE = 256"

record RxRing =
  rx_buf :: "char list"
  rx_head :: nat
  rx_tail :: nat

definition RX_RING :: RxRing where
  "RX_RING = \<lparr>rx_buf = replicate RING_SIZE (CHR 0x00), rx_head = 0, rx_tail = 0\<rparr>"

definition SR_TXE :: u32 where "SR_TXE = push_bit 7 1"
definition SR_RXNE :: u32 where "SR_RXNE = push_bit 5 1"
definition RX_EMPTY :: u32 where "RX_EMPTY = push_bit 31 1"

text \<open>\<open>status\<close> and \<open>data\<close> are what the reads return: of \<open>SR\<close> and \<open>DR\<close> on ARM, and of \<open>RXDATA\<close>
  (both of them the same word) on RISC-V.\<close>

definition poll_get_byte :: "arch \<Rightarrow> u32 \<Rightarrow> u32 \<Rightarrow> char option" where
  "poll_get_byte a status data =
    (case a of
       Arm \<Rightarrow> if status AND SR_RXNE \<noteq> 0 then Some (char_of (unat (data AND 0xFF))) else None
     | Riscv32 \<Rightarrow> if data AND RX_EMPTY = 0 then Some (char_of (unat (data AND 0xFF))) else None
     | Host \<Rightarrow> None)"

text \<open>The producer's half of the interrupt handler, for a byte that was polled; the Boolean says
  whether it was stored or dropped.\<close>

definition ring_push :: "RxRing \<Rightarrow> char \<Rightarrow> bool \<times> RxRing" where
  "ring_push ring byte =
    (let next = (rx_head ring + 1) mod RING_SIZE
     in if next \<noteq> rx_tail ring
        then (True, ring\<lparr>rx_buf := (rx_buf ring)[rx_head ring := byte], rx_head := next\<rparr>)
        else (False, ring))"

definition irq_handler :: "arch \<Rightarrow> u32 \<Rightarrow> u32 \<Rightarrow> RxRing \<Rightarrow> RxRing" where
  "irq_handler a status data ring =
    (case poll_get_byte a status data of
       Some byte \<Rightarrow> snd (ring_push ring byte)
     | None \<Rightarrow> ring)"

definition ring_pop :: "RxRing \<Rightarrow> char option \<times> RxRing" where
  "ring_pop ring =
    (if rx_tail ring = rx_head ring then (None, ring)
     else (Some (rx_buf ring ! rx_tail ring), ring\<lparr>rx_tail := (rx_tail ring + 1) mod RING_SIZE\<rparr>))"

definition rx_inv :: "RxRing \<Rightarrow> bool" where
  "rx_inv ring \<longleftrightarrow>
    length (rx_buf ring) = RING_SIZE \<and> rx_head ring < RING_SIZE \<and> rx_tail ring < RING_SIZE"

definition rx_contents :: "RxRing \<Rightarrow> string" where
  "rx_contents ring = ring_contents (rx_buf ring) (rx_tail ring) (rx_head ring)"

section \<open>Transmission and formatted output\<close>

text \<open>The console: how many reads of the status register have happened, and the bytes written
  to the data register, in order.\<close>

record Console =
  c_reads :: nat
  c_out :: string

partial_function (option) spin_txe :: "(nat \<Rightarrow> u32) \<Rightarrow> nat \<Rightarrow> nat option" where
  "spin_txe sr t = (if sr t AND SR_TXE = 0 then spin_txe sr (t + 1) else Some (t + 1))"

definition put_byte :: "arch \<Rightarrow> (nat \<Rightarrow> u32) \<Rightarrow> Console \<Rightarrow> char \<Rightarrow> Console option" where
  "put_byte a sr con byte =
    (case a of
       Arm \<Rightarrow>
         (case spin_txe sr (c_reads con) of
            None \<Rightarrow> None
          | Some t \<Rightarrow> Some (con\<lparr>c_reads := t, c_out := c_out con @ [byte]\<rparr>))
     | Riscv32 \<Rightarrow> Some (con\<lparr>c_out := c_out con @ [byte]\<rparr>)
     | Host \<Rightarrow> Some con)"

fun write_str :: "arch \<Rightarrow> (nat \<Rightarrow> u32) \<Rightarrow> Console \<Rightarrow> string \<Rightarrow> Console option" where
  "write_str a sr con [] = Some con"
| "write_str a sr con (b # s) =
    (case put_byte a sr con b of None \<Rightarrow> None | Some con' \<Rightarrow> write_str a sr con' s)"

definition HEX :: string where
  "HEX = ''0123456789ABCDEF''"

definition hex_bytes :: "u32 \<Rightarrow> string" where
  "hex_bytes value = map (\<lambda>shift. HEX ! unat (drop_bit shift value AND 0xF)) [28, 24, 20, 16, 12, 8, 4, 0]"

definition write_hex_u32 :: "arch \<Rightarrow> (nat \<Rightarrow> u32) \<Rightarrow> Console \<Rightarrow> u32 \<Rightarrow> Console option" where
  "write_hex_u32 a sr con value =
    (case write_str a sr con ''0x'' of
       None \<Rightarrow> None
     | Some con' \<Rightarrow> write_str a sr con' (hex_bytes value))"

text \<open>The digit loop fills a scratch array of ten bytes from the front; an index past its end
  would panic and is \<open>None\<close> here.\<close>

function fill_scratch :: "string \<Rightarrow> nat \<Rightarrow> u32 \<Rightarrow> (string \<times> nat) option" where
  "fill_scratch scratch len value =
    (if len < length scratch then
       (let scratch' = scratch[len := char_of (48 + unat (value mod 10))];
            value' = value div 10
        in if value' = 0 then Some (scratch', len + 1) else fill_scratch scratch' (len + 1) value')
     else None)"
  by pat_completeness auto
termination
  by (relation "measure (\<lambda>(scratch, len, value). length scratch - len)") auto

declare fill_scratch.simps [simp del]

definition write_dec_u32 :: "arch \<Rightarrow> (nat \<Rightarrow> u32) \<Rightarrow> Console \<Rightarrow> u32 \<Rightarrow> Console option" where
  "write_dec_u32 a sr con value =
    (case fill_scratch (replicate 10 (CHR 0x00)) 0 value of
       None \<Rightarrow> None
     | Some (scratch, len) \<Rightarrow> write_str a sr con (rev (take len scratch)))"

definition write_line :: "arch \<Rightarrow> (nat \<Rightarrow> u32) \<Rightarrow> Console \<Rightarrow> string \<Rightarrow> Console option" where
  "write_line a sr con s =
    (case write_str a sr con s of
       None \<Rightarrow> None
     | Some con' \<Rightarrow> write_str a sr con' [CHR 0x0D, CHR 0x0A])"

definition write_line_u32 :: "arch \<Rightarrow> (nat \<Rightarrow> u32) \<Rightarrow> Console \<Rightarrow> u32 \<Rightarrow> Console option" where
  "write_line_u32 a sr con value =
    (case write_hex_u32 a sr con value of
       None \<Rightarrow> None
     | Some con' \<Rightarrow> write_str a sr con' [CHR 0x0D, CHR 0x0A])"

definition CR1 :: u32 where "CR1 = 0x4001100C"
definition CR1_bits :: u32 where "CR1_bits = push_bit 13 1 OR push_bit 3 1 OR push_bit 2 1"

definition uart_init :: "arch \<Rightarrow> mem \<Rightarrow> mem" where
  "uart_init a m =
    (case a of
       Arm \<Rightarrow> poke_u32 m CR1 (peek_u32 m CR1 OR CR1_bits)
     | _ \<Rightarrow> m)"

section \<open>The receive ring is a bounded queue\<close>

interpretation rx: bounded_fifo ring_push ring_pop rx_inv rx_contents "RING_SIZE - 1"
proof unfold_locales
  fix q x assume "rx_inv q"
  then have q: "length (rx_buf q) = 256" "rx_head q < 256" "rx_tail q < 256"
    by (auto simp: rx_inv_def RING_SIZE_def)
  note defs = ring_push_def ring_pop_def rx_contents_def rx_inv_def RING_SIZE_def Let_def
  have full: "Suc (rx_head q) mod 256 = rx_tail q \<longleftrightarrow> \<not> ring_len 256 (rx_tail q) (rx_head q) < 255"
    using ring_full_iff [OF q(3,2)] by simp
  show "fst (ring_push q x) \<longleftrightarrow> length (rx_contents q) < RING_SIZE - 1"
    using q full by (simp add: defs)
  show "rx_contents (snd (ring_push q x)) =
      (if length (rx_contents q) < RING_SIZE - 1 then rx_contents q @ [x] else rx_contents q)"
    using q full ring_contents_push [of "rx_tail q" "rx_buf q" "rx_head q" x] by (simp add: defs)
  show "rx_inv (snd (ring_push q x))"
    using q by (simp add: defs)
  show "fst (ring_pop q) = (case rx_contents q of [] \<Rightarrow> None | x # xs \<Rightarrow> Some x)"
    using q ring_contents_pop [of "rx_tail q" "rx_buf q" "rx_head q"]
      ring_contents_Nil [of "rx_tail q" "rx_buf q" "rx_head q"] by (auto simp: defs split: list.split)
  show "rx_contents (snd (ring_pop q)) = tl (rx_contents q)"
    using q ring_contents_pop [of "rx_tail q" "rx_buf q" "rx_head q"]
      ring_contents_Nil [of "rx_tail q" "rx_buf q" "rx_head q"] by (auto simp: defs)
  show "rx_inv (snd (ring_pop q))"
    using q by (simp add: defs)
qed

section \<open>Histories of the receive ring\<close>

text \<open>An interrupt with the words its register reads return, or a read by the command loop.\<close>

datatype rx_event = Irq u32 u32 | Take

fun run_rx :: "arch \<Rightarrow> RxRing \<Rightarrow> rx_event list \<Rightarrow> string \<times> RxRing" where
  "run_rx a ring [] = ([], ring)"
| "run_rx a ring (Irq status data # es) = run_rx a (irq_handler a status data ring) es"
| "run_rx a ring (Take # es) =
    (let (r, ring') = ring_pop ring; (out, ring'') = run_rx a ring' es
     in (case r of None \<Rightarrow> out | Some b \<Rightarrow> b # out, ring''))"

fun received :: "arch \<Rightarrow> rx_event list \<Rightarrow> string" where
  "received a [] = []"
| "received a (Irq status data # es) =
    (case poll_get_byte a status data of None \<Rightarrow> received a es | Some b \<Rightarrow> b # received a es)"
| "received a (Take # es) = received a es"

fun rx_ops :: "arch \<Rightarrow> rx_event list \<Rightarrow> char fifo_op list" where
  "rx_ops a [] = []"
| "rx_ops a (Irq status data # es) =
    (case poll_get_byte a status data of None \<Rightarrow> rx_ops a es | Some b \<Rightarrow> Push b # rx_ops a es)"
| "rx_ops a (Take # es) = Pop # rx_ops a es"

lemma run_rx_fifo:
  "run_rx a ring es = (let (acc, out, ring') = run_fifo ring_push ring_pop ring (rx_ops a es) in (out, ring'))"
  by (induction a ring es rule: run_rx.induct)
    (auto simp: irq_handler_def Let_def split: option.splits prod.splits)

lemma accepted_subseq:
  "subseq (fst (run_fifo ring_push ring_pop ring (rx_ops a es))) (received a es)"
  by (induction a es arbitrary: ring rule: rx_ops.induct)
    (auto simp: Let_def split_def split: option.split)

lemma accepted_all:
  assumes "rx_inv ring" "length (rx_contents ring) + length (received a es) \<le> RING_SIZE - 1"
  shows "fst (run_fifo ring_push ring_pop ring (rx_ops a es)) = received a es"
  using assms
proof (induction a es arbitrary: ring rule: rx_ops.induct)
  case (2 a status data es)
  show ?case
  proof (cases "poll_get_byte a status data")
    case (Some b)
    let ?ring = "snd (ring_push ring b)"
    have "fst (ring_push ring b)" "length (rx_contents ?ring) = Suc (length (rx_contents ring))"
      using 2(3,4) Some by (auto simp: rx.push_fst rx.push_snd)
    then show ?thesis
      using 2(2) [OF Some, of ?ring] 2(3,4) Some
      by (auto simp: Let_def split_def rx.push_invar)
  qed (use 2 in simp)
next
  case (3 a es)
  let ?ring = "snd (ring_pop ring)"
  have "length (rx_contents ?ring) \<le> length (rx_contents ring)"
    using 3 by (simp add: rx.pop_snd)
  then show ?case
    using 3(1) [of ?ring] 3(2,3) by (auto simp: Let_def split_def rx.pop_invar)
qed simp

lemma rx_init: "rx_inv RX_RING" "rx_contents RX_RING = []"
  by (simp_all add: rx_inv_def RX_RING_def RING_SIZE_def rx_contents_def ring_contents_def ring_len_def)

text \<open>C19. Whatever the interleaving of receive interrupts and reads, the bytes read, followed by
  those still in the ring, are a subsequence of the received ones: bytes are never invented,
  duplicated or reordered, only dropped. As long as no more than 255 bytes are received, none
  is dropped, and an empty ring means that every byte received so far has been read.\<close>

theorem rx_ring_delivers_in_order:
  assumes "run_rx a RX_RING es = (out, ring)"
  shows "subseq (out @ rx_contents ring) (received a es)
    \<and> (length (received a es) \<le> 255 \<longrightarrow> out @ rx_contents ring = received a es)"
proof -
  obtain acc where run: "run_fifo ring_push ring_pop RX_RING (rx_ops a es) = (acc, out, ring)"
    using assms by (auto simp: run_rx_fifo Let_def split: prod.splits)
  then have "acc = out @ rx_contents ring"
    using rx.fifo_order [OF rx_init(1) run] by (simp add: rx_init)
  then show ?thesis
    using accepted_subseq [of RX_RING a es] accepted_all [OF rx_init(1), of a es] run
    by (simp add: rx_init RING_SIZE_def)
qed

theorem rx_ring_delivers_in_order_witness:
  "subseq (''o'' @ rx_contents (snd (run_rx Arm RX_RING [Irq 0x20 0x6F, Take, Irq 0x20 0x6B])))
    (received Arm [Irq 0x20 0x6F, Take, Irq 0x20 0x6B])"
  using rx_ring_delivers_in_order [of Arm "[Irq 0x20 0x6F, Take, Irq 0x20 0x6B]" "''o''"
    "snd (run_rx Arm RX_RING [Irq 0x20 0x6F, Take, Irq 0x20 0x6B])"]
  by code_simp

section \<open>Transmission\<close>

lemma spin_txe_ready:
  assumes "t \<le> t'" "sr t' AND SR_TXE \<noteq> 0"
  shows "\<exists>r. spin_txe sr t = Some r"
  using assms
proof (induction "t' - t" arbitrary: t)
  case 0
  then show ?case
    by (subst spin_txe.simps) simp
next
  case (Suc n)
  then have "sr t AND SR_TXE = 0 \<Longrightarrow> \<exists>r. spin_txe sr (t + 1) = Some r"
    by (cases "t = t'") auto
  then show ?case
    by (subst spin_txe.simps) auto
qed

text \<open>A transmitter that always becomes ready again.\<close>

definition tx_ready :: "arch \<Rightarrow> (nat \<Rightarrow> u32) \<Rightarrow> bool" where
  "tx_ready a sr \<longleftrightarrow> a \<noteq> Host \<and> (a = Arm \<longrightarrow> (\<forall>t. \<exists>t'\<ge>t. sr t' AND SR_TXE \<noteq> 0))"

lemma put_byte_ready:
  assumes "tx_ready a sr"
  shows "\<exists>r. put_byte a sr con b = Some \<lparr>c_reads = r, c_out = c_out con @ [b]\<rparr>"
proof (cases a)
  case Arm
  then obtain t' where "c_reads con \<le> t'" "sr t' AND SR_TXE \<noteq> 0"
    using assms by (auto simp: tx_ready_def)
  then show ?thesis
    using spin_txe_ready [of "c_reads con" t' sr] Arm by (cases con) (auto simp: put_byte_def)
qed (use assms in \<open>cases con; auto simp: put_byte_def tx_ready_def\<close>)+

lemma write_str_ready:
  assumes "tx_ready a sr"
  shows "\<exists>r. write_str a sr con s = Some \<lparr>c_reads = r, c_out = c_out con @ s\<rparr>"
proof (induction s arbitrary: con)
  case Nil
  then show ?case
    by (cases con) simp
next
  case (Cons b s)
  obtain r where "put_byte a sr con b = Some \<lparr>c_reads = r, c_out = c_out con @ [b]\<rparr>"
    using put_byte_ready [OF assms] by blast
  then show ?case
    using Cons [of "\<lparr>c_reads = r, c_out = c_out con @ [b]\<rparr>"] by simp
qed

section \<open>Number formats\<close>

fun digits10 :: "nat \<Rightarrow> string" where
  "digits10 n = (if n < 10 then [char_of (48 + n)] else digits10 (n div 10) @ [char_of (48 + n mod 10)])"

declare digits10.simps [simp del]

lemma num_val_append: "num_val b v (xs @ ys) = num_val b (num_val b v xs) ys"
  by (induction xs arbitrary: v) auto

lemma dec_char_of:
  assumes "n < 10"
  shows "is_ascii_digit (char_of (48 + n))" "digit_val (char_of (48 + n)) = n"
    "char_of (48 + n) \<noteq> CHR ''_''"
  using assms by (auto simp: is_ascii_digit_def digit_val_def in_range_def dest: arg_cong [of _ _ "of_char :: char \<Rightarrow> nat"])

lemma num_val_digits10: "num_val 10 0 (digits10 n) = n"
proof (induction n rule: digits10.induct)
  case (1 n)
  show ?case
    using 1 dec_char_of [of n] dec_char_of [of "n mod 10"]
    by (subst digits10.simps) (auto simp: num_val_append)
qed

lemma digits10_digits: "list_all is_ascii_digit (digits10 n) \<and> digits10 n \<noteq> []"
proof (induction n rule: digits10.induct)
  case (1 n)
  then show ?case
    using dec_char_of [of n] dec_char_of [of "n mod 10"]
    by (subst (1 2) digits10.simps) auto
qed

text \<open>The scratch array receives the digits, least significant first; ten are enough for 32 bits.\<close>

lemma length_digits10: "n < 10 ^ Suc k \<Longrightarrow> length (digits10 n) \<le> Suc k"
proof (induction k arbitrary: n)
  case (Suc k)
  then have "n div 10 < 10 ^ Suc k"
    by (simp add: less_mult_imp_div_less)
  then show ?case
    using Suc.IH [of "n div 10"] by (subst digits10.simps) simp
qed (simp add: digits10.simps)

lemma fill_scratch_digits:
  assumes "len + length (digits10 (unat v)) \<le> length scratch"
  shows "\<exists>scratch'. fill_scratch scratch len v = Some (scratch', len + length (digits10 (unat v)))
    \<and> take (len + length (digits10 (unat v))) scratch' = take len scratch @ rev (digits10 (unat v))"
  using assms
proof (induction scratch len v rule: fill_scratch.induct)
  case (1 scratch len v)
  define d where "d = char_of (48 + unat (v mod 10))"
  define scratch1 where "scratch1 = scratch[len := d]"
  have dm: "unat (v mod 10) = unat v mod 10" "unat (v div 10) = unat v div 10"
    by (simp_all add: unat_mod unat_div)
  have less: "len < length scratch"
    using 1(2) digits10_digits [of "unat v"] by (cases "digits10 (unat v)") auto
  have tk: "take (Suc len) scratch1 = take len scratch @ [d]"
    using less by (simp add: scratch1_def take_Suc_conv_app_nth)
  show ?case
  proof (cases "unat v < 10")
    case True
    then have "v div 10 = 0" "digits10 (unat v) = [d]"
      by (simp_all add: dm word_unat_eq_iff d_def digits10.simps)
    then show ?thesis
      using less tk by (auto simp: fill_scratch.simps [of scratch len v] d_def scratch1_def)
  next
    case False
    have nz: "v div 10 \<noteq> 0"
      using False by (simp add: dm word_unat_eq_iff)
    have digs: "digits10 (unat v) = digits10 (unat (v div 10)) @ [d]"
      using False by (subst digits10.simps) (simp add: dm d_def)
    obtain scratch' where
      "fill_scratch scratch1 (len + 1) (v div 10) = Some (scratch', len + 1 + length (digits10 (unat (v div 10))))"
      "take (len + 1 + length (digits10 (unat (v div 10)))) scratch' =
        take (len + 1) scratch1 @ rev (digits10 (unat (v div 10)))"
      using 1(1) [OF less refl refl nz] 1(2) digs by (auto simp: d_def scratch1_def)
    then show ?thesis
      using less nz digs tk by (auto simp: fill_scratch.simps [of scratch len v] d_def scratch1_def)
  qed
qed

lemma nibble_unat:
  "unat (drop_bit (4 * i) v AND 0xF) = unat v div 16 ^ i mod 16" for v :: u32
proof -
  have "(15 :: u32) = mask 4"
    by (simp add: mask_eq_exp_minus_1)
  then have "drop_bit (4 * i) v AND 0xF = take_bit 4 (drop_bit (4 * i) v)"
    by (simp add: take_bit_eq_mask)
  then have "unat (drop_bit (4 * i) v AND 0xF) = take_bit 4 (drop_bit (4 * i) (unat v))"
    using take_bit_nat_eq_self [OF unat_less_u32 [of v]]
    by (simp only: unsigned_take_bit_eq unsigned_drop_bit_eq) simp
  then show ?thesis
    by (simp add: power_mult take_bit_eq_mod drop_bit_eq_div)
qed
lemma HEX_digit:
  assumes "n < 16"
  shows "is_ascii_hexdigit (HEX ! n)" "digit_val (HEX ! n) = n" "HEX ! n \<noteq> CHR ''_''"
  using assms
  by (simp_all add: HEX_def less_Suc_eq numeral_eq_Suc)
    (auto simp: is_ascii_hexdigit_def is_ascii_digit_def in_range_def digit_val_def)

text \<open>The \<open>k\<close> low nibbles, most significant first.\<close>

fun hex_digits :: "nat \<Rightarrow> nat \<Rightarrow> string" where
  "hex_digits 0 n = []"
| "hex_digits (Suc k) n = hex_digits k (n div 16) @ [HEX ! (n mod 16)]"

lemma num_val_hex_digits: "num_val 16 0 (hex_digits k n) = n mod 16 ^ k"
proof (induction k arbitrary: n)
  case (Suc k)
  then show ?case
    using HEX_digit [of "n mod 16"] by (simp add: num_val_append mod_mult2_eq)
qed simp

lemma hex_digits_chars: "list_all is_ascii_hexdigit (hex_digits k n) \<and> length (hex_digits k n) = k"
  by (induction k n rule: hex_digits.induct) (simp_all add: HEX_digit)

lemma hex_digits_map: "hex_digits k n = map (\<lambda>i. HEX ! (n div 16 ^ i mod 16)) (rev [0..<k])"
proof (induction k arbitrary: n)
  case (Suc k)
  have "rev [0..<Suc k] = map Suc (rev [0..<k]) @ [0]"
    by (simp add: rev_map [symmetric] map_Suc_upt upt_conv_Cons del: upt_Suc)
  then show ?case
    using Suc by (simp add: comp_def div_mult2_eq del: upt_Suc)
qed simp

lemma hex_bytes_eq: "hex_bytes v = hex_digits 8 (unat v)"
proof -
  have "[28, 24, 20, 16, 12, 8, 4, 0] = map (\<lambda>i. 4 * i) (rev [0..<8])"
    by (simp add: upt_rec)
  then show ?thesis
    by (simp only: hex_bytes_def hex_digits_map map_map comp_def nibble_unat)
qed

lemma digits_not_hex_prefix: "list_all is_ascii_digit ds \<Longrightarrow> \<not> hex_prefix ds"
  by (auto simp: hex_prefix_def is_ascii_digit_def in_range_def)

lemma takeWhile_all: "list_all p xs \<Longrightarrow> takeWhile p xs = xs"
  using takeWhile_prefix [of p xs "[]"] by simp

lemma lx_new_rest [simp]: "lx_rest (lexer_new s) = s"
  by (simp add: lx_rest_def lexer_new_def)

lemma lex_digits10: "next_token (lexer_new (digits10 (unat v))) =
    (Literal v, lx_advance (length (digits10 (unat v))) (lexer_new (digits10 (unat v))))"
proof -
  let ?ds = "digits10 (unat v)"
  obtain c s where ds: "?ds = c # s" "is_ascii_digit c"
    using digits10_digits [of "unat v"] by (cases ?ds) auto
  then have lx: "lx_more (lexer_new ?ds)" "lx_byte (lexer_new ?ds) = c"
    using lx_rest_ConsD [of "lexer_new ?ds" c s] by simp_all
  have "takeWhile dec_char (lx_rest (lexer_new ?ds)) = ?ds"
    using digits10_digits [of "unat v"] by (auto simp: list_all_iff intro!: takeWhile_all)
  from parse_literal_dec [OF lx(1) _ this]
  show ?thesis
    using lx ds(2) digits10_digits [of "unat v"] unat_less_u32 [of v]
    by (simp add: next_token_literal digits_not_hex_prefix num_val_digits10)
qed

lemma lex_hex_bytes: "next_token (lexer_new (''0x'' @ hex_bytes v)) =
    (Literal v, lx_advance 10 (lexer_new (''0x'' @ hex_bytes v)))"
proof -
  let ?lx = "lexer_new (''0x'' @ hex_bytes v)"
  have "lx_more ?lx" "lx_byte ?lx = CHR ''0''"
    using lx_rest_ConsD [of ?lx "CHR ''0''" "CHR ''x'' # hex_bytes v"] by simp_all
  then have lex: "next_token ?lx = parse_literal ?lx"
    by (simp add: next_token_literal is_ascii_digit_def in_range_def)
  have val: "num_val 16 0 (hex_bytes v) = unat v"
    using unat_less_u32 [of v] by (simp add: hex_bytes_eq num_val_hex_digits)
  have len: "length (hex_bytes v) = 8"
    by (simp add: hex_bytes_def)
  have "takeWhile hex_char (drop 2 (lx_rest ?lx)) = hex_bytes v"
    using hex_digits_chars [of 8 "unat v"]
    by (auto simp: hex_bytes_eq list_all_iff intro!: takeWhile_all)
  from parse_literal_hex [OF _ this] show ?thesis
    using unat_less_u32 [of v] len unfolding lex val by (simp add: hex_prefix_def flip: length_0_conv)
qed

text \<open>Printed numbers read back. On a transmitter that always becomes ready again, the
  decimal and the hexadecimal printer return (the polling loops end and the ten-byte scratch
  array is never overrun) and append text to the output; that text, given to the lexer, is
  one literal token with the number that was printed.\<close>

theorem printed_numbers_lex_back:
  assumes "tx_ready a sr"
  shows "(\<exists>con' s. write_dec_u32 a sr con v = Some con' \<and> c_out con' = c_out con @ s
      \<and> next_token (lexer_new s) = (Literal v, lx_advance (length s) (lexer_new s)))
    \<and> (\<exists>con' s. write_hex_u32 a sr con v = Some con' \<and> c_out con' = c_out con @ s
      \<and> next_token (lexer_new s) = (Literal v, lx_advance (length s) (lexer_new s)))"
proof (intro conjI)
  let ?ds = "digits10 (unat v)"
  have "length ?ds \<le> 10"
    using length_digits10 [of "unat v" 9] unat_less_u32 [of v] by simp
  then obtain scratch where "fill_scratch (replicate 10 (CHR 0x00)) 0 v = Some (scratch, length ?ds)"
    "take (length ?ds) scratch = rev ?ds"
    using fill_scratch_digits [of 0 v "replicate 10 (CHR 0x00)"] by auto
  then show "\<exists>con' s. write_dec_u32 a sr con v = Some con' \<and> c_out con' = c_out con @ s
      \<and> next_token (lexer_new s) = (Literal v, lx_advance (length s) (lexer_new s))"
    using write_str_ready [OF assms, of con ?ds] lex_digits10 [of v]
    by (auto simp: write_dec_u32_def)
next
  have "length (''0x'' @ hex_bytes v) = 10"
    by (simp add: hex_bytes_def)
  moreover obtain r where "write_str a sr con ''0x'' = Some \<lparr>c_reads = r, c_out = c_out con @ ''0x''\<rparr>"
    using write_str_ready [OF assms] by blast
  ultimately show "\<exists>con' s. write_hex_u32 a sr con v = Some con' \<and> c_out con' = c_out con @ s
      \<and> next_token (lexer_new s) = (Literal v, lx_advance (length s) (lexer_new s))"
    using write_str_ready [OF assms, of "\<lparr>c_reads = r, c_out = c_out con @ ''0x''\<rparr>" "hex_bytes v"]
      lex_hex_bytes [of v]
    by (auto simp: write_hex_u32_def intro!: exI [of _ "''0x'' @ hex_bytes v"])
qed

theorem printed_numbers_lex_back_witness:
  "\<exists>con' s. write_dec_u32 Arm (\<lambda>t. 0x80) \<lparr>c_reads = 0, c_out = []\<rparr> 4096 = Some con' \<and> c_out con' = s
    \<and> next_token (lexer_new s) = (Literal 4096, lx_advance (length s) (lexer_new s))"
proof -
  have "tx_ready Arm (\<lambda>t. 0x80)"
    by (auto simp: tx_ready_def SR_TXE_def)
  from printed_numbers_lex_back [OF this, of "\<lparr>c_reads = 0, c_out = []\<rparr>" 4096]
  show ?thesis
    by auto
qed

end
