(* ===== verification/Symbols.thy ===== *)
theory Symbols
  imports Ring_Buffers
begin

text \<open>
  The symbol table of the compiler (\<^verbatim>\<open>src/compiler/parser.rs\<close>): fixed-size names, an FNV-1a hash
  and an array of 32 slots with linear probing. The length byte of a name is a \<open>nat\<close>; it is at
  most \<open>NAME_MAX\<close>. The table is shown to implement a finite map of at most 32 entries.
\<close>

definition NAME_MAX :: nat where "NAME_MAX = 16"
definition SYMBOL_SLOTS :: nat where "SYMBOL_SLOTS = 32"

datatype ParseError =
    LexError string
  | UnexpectedToken
  | UnsupportedOperator char
  | UnknownSymbol
  | DuplicateFn
  | SymbolTableFull
  | FnTableFull
  | StreamFull
  | NameTooLong
  | DivByZero
  | MissingSemicolon
  | EmptyLine
  | CapabilityViolationP
  | LoopTooLarge

record NameBuf =
  nb_len :: nat
  nb_bytes :: string

definition from_slice :: "string \<Rightarrow> ParseError + NameBuf" where
  "from_slice name =
    (if length name > NAME_MAX then Inl NameTooLong
     else Inr \<lparr>nb_len = length name, nb_bytes = copy_prefix name (replicate NAME_MAX (CHR 0x00))\<rparr>)"

definition as_slice :: "NameBuf \<Rightarrow> string" where
  "as_slice nb = take (nb_len nb) (nb_bytes nb)"

definition eq_bytes :: "NameBuf \<Rightarrow> string \<Rightarrow> bool" where
  "eq_bytes nb other \<longleftrightarrow> as_slice nb = other"

record Symbol =
  sym_used :: bool
  sym_name_len :: nat
  sym_name :: string
  sym_value :: u32

definition EMPTY_SYMBOL :: Symbol where
  "EMPTY_SYMBOL =
    \<lparr>sym_used = False, sym_name_len = 0, sym_name = replicate NAME_MAX (CHR 0x00), sym_value = 0\<rparr>"

text \<open>FNV-1a, and its reduction to a slot.\<close>

definition fnv1a :: "string \<Rightarrow> u32" where
  "fnv1a name = foldl (\<lambda>h b. (h XOR of_char b) * 0x01000193) 0x811C9DC5 name"

definition hash :: "string \<Rightarrow> nat" where
  "hash name = unat (fnv1a name mod of_nat SYMBOL_SLOTS)"

definition slot :: "nat \<Rightarrow> nat \<Rightarrow> nat" where
  "slot start step = (start + step) mod SYMBOL_SLOTS"

definition sym_matches :: "Symbol \<Rightarrow> string \<Rightarrow> bool" where
  "sym_matches s name \<longleftrightarrow> sym_name_len s = length name \<and> take (length name) (sym_name s) = name"

fun lookup_from :: "Symbol list \<Rightarrow> string \<Rightarrow> nat \<Rightarrow> nat list \<Rightarrow> u32 option" where
  "lookup_from syms name start [] = None"
| "lookup_from syms name start (step # steps) =
    (let s = syms ! slot start step
     in if \<not> sym_used s then None
        else if sym_matches s name then Some (sym_value s)
        else lookup_from syms name start steps)"

definition lookup_symbol :: "Symbol list \<Rightarrow> string \<Rightarrow> u32 option" where
  "lookup_symbol syms name = lookup_from syms name (hash name) [0..<SYMBOL_SLOTS]"

definition store_symbol :: "string \<Rightarrow> u32 \<Rightarrow> Symbol \<Rightarrow> Symbol" where
  "store_symbol bytes value s =
    s\<lparr>sym_used := True, sym_name_len := length bytes, sym_name := copy_prefix bytes (sym_name s),
      sym_value := value\<rparr>"

fun insert_from :: "Symbol list \<Rightarrow> string \<Rightarrow> u32 \<Rightarrow> nat \<Rightarrow> nat list \<Rightarrow> ParseError + Symbol list" where
  "insert_from syms bytes value start [] = Inl SymbolTableFull"
| "insert_from syms bytes value start (step # steps) =
    (let i = slot start step; s = syms ! i
     in if \<not> sym_used s \<or> sym_matches s bytes then Inr (syms[i := store_symbol bytes value s])
        else insert_from syms bytes value start steps)"

definition insert_symbol :: "Symbol list \<Rightarrow> NameBuf \<Rightarrow> u32 \<Rightarrow> ParseError + Symbol list" where
  "insert_symbol syms name value =
    insert_from syms (as_slice name) value (hash (as_slice name)) [0..<SYMBOL_SLOTS]"

section \<open>Invariant and abstract map\<close>

definition sym_key :: "Symbol \<Rightarrow> string" where
  "sym_key s = take (sym_name_len s) (sym_name s)"

definition sym_wf :: "Symbol \<Rightarrow> bool" where
  "sym_wf s \<longleftrightarrow> length (sym_name s) = NAME_MAX \<and> sym_name_len s \<le> NAME_MAX"

text \<open>Every slot is well formed, no two used slots hold the same name, and the slots between
  the hash of a stored name and its slot are all used.\<close>

definition symbols_inv :: "Symbol list \<Rightarrow> bool" where
  "symbols_inv syms \<longleftrightarrow>
    length syms = SYMBOL_SLOTS \<and> (\<forall>s\<in>set syms. sym_wf s)
    \<and> (\<forall>i<SYMBOL_SLOTS. \<forall>j<SYMBOL_SLOTS. sym_used (syms ! i) \<and> sym_used (syms ! j)
        \<and> sym_key (syms ! i) = sym_key (syms ! j) \<longrightarrow> i = j)
    \<and> (\<forall>i<SYMBOL_SLOTS. sym_used (syms ! i) \<longrightarrow>
        (\<exists>st < SYMBOL_SLOTS. slot (hash (sym_key (syms ! i))) st = i
          \<and> (\<forall>t < st. sym_used (syms ! slot (hash (sym_key (syms ! i))) t))))"

text \<open>The first probe that ends a search.\<close>

definition probe :: "Symbol list \<Rightarrow> string \<Rightarrow> nat option" where
  "probe syms name =
    find_index SYMBOL_SLOTS
      (\<lambda>st. \<not> sym_used (syms ! slot (hash name) st) \<or> sym_matches (syms ! slot (hash name) st) name)"

lemma lookup_from_find:
  "lookup_from syms name start steps =
    (case List.find (\<lambda>st. \<not> sym_used (syms ! slot start st) \<or> sym_matches (syms ! slot start st) name) steps of
       None \<Rightarrow> None
     | Some st \<Rightarrow> if sym_used (syms ! slot start st) then Some (sym_value (syms ! slot start st)) else None)"
  by (induction steps) (auto simp: Let_def)

lemma insert_from_find:
  "insert_from syms name v start steps =
    (case List.find (\<lambda>st. \<not> sym_used (syms ! slot start st) \<or> sym_matches (syms ! slot start st) name) steps of
       None \<Rightarrow> Inl SymbolTableFull
     | Some st \<Rightarrow> Inr (syms[slot start st := store_symbol name v (syms ! slot start st)]))"
  by (induction steps) (auto simp: Let_def)

lemma lookup_symbol_probe:
  "lookup_symbol syms name =
    (case probe syms name of
       None \<Rightarrow> None
     | Some st \<Rightarrow>
         if sym_used (syms ! slot (hash name) st) then Some (sym_value (syms ! slot (hash name) st))
         else None)"
  by (simp add: lookup_symbol_def lookup_from_find probe_def find_index_def)

lemma slot_less [simp]: "slot s t < SYMBOL_SLOTS"
  by (simp add: slot_def SYMBOL_SLOTS_def)

lemma slot_surj:
  assumes "i < SYMBOL_SLOTS"
  obtains st where "st < SYMBOL_SLOTS" "slot (hash name) st = i"
proof -
  have "hash name < SYMBOL_SLOTS"
    by (simp add: hash_def SYMBOL_SLOTS_def unat_mod)
  then show ?thesis
    using that ring_slot [OF _ assms] ring_len_less [OF _ assms] by (auto simp: slot_def)
qed

lemma sym_matches_key: "sym_wf s \<Longrightarrow> sym_matches s name \<longleftrightarrow> sym_key s = name"
  by (auto simp: sym_matches_def sym_key_def sym_wf_def)

lemma symbols_invD:
  assumes "symbols_inv syms" "i < SYMBOL_SLOTS"
  shows "length syms = SYMBOL_SLOTS" "sym_wf (syms ! i)"
    "sym_used (syms ! i) \<Longrightarrow> j < SYMBOL_SLOTS \<Longrightarrow> sym_used (syms ! j) \<Longrightarrow>
      sym_key (syms ! i) = sym_key (syms ! j) \<Longrightarrow> i = j"
  using assms by (auto simp: symbols_inv_def)

text \<open>A stored name is found at its slot; a probe that ends elsewhere proves it absent.\<close>

lemma probe_stored:
  assumes inv: "symbols_inv syms" and i: "i < SYMBOL_SLOTS" "sym_used (syms ! i)"
    and key: "sym_key (syms ! i) = name"
  shows "\<exists>st. probe syms name = Some st \<and> slot (hash name) st = i"
proof -
  obtain st where st: "st < SYMBOL_SLOTS" "slot (hash name) st = i"
    "\<forall>t < st. sym_used (syms ! slot (hash name) t)"
    using inv i key by (auto simp: symbols_inv_def)
  define st' where "st' = (LEAST t. slot (hash name) t = i)"
  have st': "slot (hash name) st' = i" "st' \<le> st"
    using st(2) by (auto simp: st'_def intro: LeastI Least_le)
  have "sym_used (syms ! slot (hash name) t) \<and> \<not> sym_matches (syms ! slot (hash name) t) name"
    if "t < st'" for t
  proof
    show "sym_used (syms ! slot (hash name) t)"
      using st(3) st'(2) that by simp
    then show "\<not> sym_matches (syms ! slot (hash name) t) name"
      using symbols_invD [OF inv, of "slot (hash name) t"] i key not_less_Least [of t "\<lambda>t. slot (hash name) t = i"] that
      by (auto simp: sym_matches_key st'_def)
  qed
  moreover have "sym_matches (syms ! i) name"
    using symbols_invD [OF inv i(1)] key by (simp add: sym_matches_key)
  ultimately have "probe syms name = Some st'"
    using st' st(1) unfolding probe_def find_index_Some by auto
  with st'(1) show ?thesis
    by blast
qed

lemma probe_unused_absent:
  assumes "symbols_inv syms" "i < SYMBOL_SLOTS" "sym_used (syms ! i)"
    and "case probe syms name of None \<Rightarrow> True | Some st \<Rightarrow> \<not> sym_used (syms ! slot (hash name) st)"
  shows "sym_key (syms ! i) \<noteq> name"
  using probe_stored [OF assms(1-3)] assms(3,4) by fastforce

text \<open>The map the table represents.\<close>

lemma lookup_symbol_Some:
  assumes "symbols_inv syms"
  shows "lookup_symbol syms name = Some v \<longleftrightarrow>
    (\<exists>i<SYMBOL_SLOTS. sym_used (syms ! i) \<and> sym_key (syms ! i) = name \<and> sym_value (syms ! i) = v)"
proof
  assume "lookup_symbol syms name = Some v"
  then obtain st where st: "probe syms name = Some st" "sym_used (syms ! slot (hash name) st)"
    "v = sym_value (syms ! slot (hash name) st)"
    by (auto simp: lookup_symbol_probe split: option.splits if_splits)
  then have "sym_key (syms ! slot (hash name) st) = name"
    using symbols_invD [OF assms, of "slot (hash name) st"]
    by (auto simp: probe_def find_index_Some sym_matches_key)
  with st show "\<exists>i<SYMBOL_SLOTS. sym_used (syms ! i) \<and> sym_key (syms ! i) = name \<and> sym_value (syms ! i) = v"
    by (auto intro!: exI [of _ "slot (hash name) st"])
next
  assume "\<exists>i<SYMBOL_SLOTS. sym_used (syms ! i) \<and> sym_key (syms ! i) = name \<and> sym_value (syms ! i) = v"
  then obtain i where i: "i < SYMBOL_SLOTS" "sym_used (syms ! i)" "sym_key (syms ! i) = name"
    "sym_value (syms ! i) = v"
    by blast
  with probe_stored [OF assms i(1-3)] show "lookup_symbol syms name = Some v"
    by (auto simp: lookup_symbol_probe)
qed

lemma dom_lookup_symbol:
  assumes "symbols_inv syms"
  shows "dom (lookup_symbol syms) = sym_key ` {s \<in> set syms. sym_used s}"
proof -
  have "length syms = SYMBOL_SLOTS"
    using assms by (simp add: symbols_inv_def)
  then show ?thesis
    using lookup_symbol_Some [OF assms] by (fastforce simp: dom_def in_set_conv_nth)
qed

lemma card_dom_lookup_symbol:
  assumes "symbols_inv syms"
  shows "card (dom (lookup_symbol syms)) = card {i. i < SYMBOL_SLOTS \<and> sym_used (syms ! i)}"
proof -
  have "length syms = SYMBOL_SLOTS"
    using assms by (simp add: symbols_inv_def)
  then have "dom (lookup_symbol syms) = (\<lambda>i. sym_key (syms ! i)) ` {i. i < SYMBOL_SLOTS \<and> sym_used (syms ! i)}"
    unfolding dom_lookup_symbol [OF assms] by (auto simp: in_set_conv_nth image_iff)
  moreover have "inj_on (\<lambda>i. sym_key (syms ! i)) {i. i < SYMBOL_SLOTS \<and> sym_used (syms ! i)}"
    using assms by (auto simp: inj_on_def symbols_inv_def)
  ultimately show ?thesis
    by (simp add: card_image)
qed

lemma probe_None_full:
  assumes "probe syms name = None"
  shows "\<forall>i<SYMBOL_SLOTS. sym_used (syms ! i)"
proof (intro allI impI)
  fix i assume "i < SYMBOL_SLOTS"
  then obtain st where "st < SYMBOL_SLOTS" "slot (hash name) st = i"
    by (rule slot_surj)
  then show "sym_used (syms ! i)"
    using assms by (auto simp: probe_def find_index_None)
qed

section \<open>Insertion\<close>

lemma store_symbol_wf:
  "sym_wf s \<Longrightarrow> length bytes \<le> NAME_MAX \<Longrightarrow>
    sym_wf (store_symbol bytes v s) \<and> sym_key (store_symbol bytes v s) = bytes
    \<and> sym_used (store_symbol bytes v s) \<and> sym_value (store_symbol bytes v s) = v"
  by (simp add: sym_wf_def store_symbol_def sym_key_def)

definition insert_key :: "Symbol list \<Rightarrow> string \<Rightarrow> u32 \<Rightarrow> Symbol list option" where
  "insert_key syms bytes v =
    (case probe syms bytes of
       None \<Rightarrow> None
     | Some st \<Rightarrow> Some (syms[slot (hash bytes) st := store_symbol bytes v (syms ! slot (hash bytes) st)]))"

lemma insert_symbol_key:
  "insert_symbol syms name v =
    (case insert_key syms (as_slice name) v of None \<Rightarrow> Inl SymbolTableFull | Some syms' \<Rightarrow> Inr syms')"
  by (simp add: insert_symbol_def insert_from_find insert_key_def probe_def find_index_def
      split: option.split)

lemma insert_key_inv:
  assumes inv: "symbols_inv syms" and len: "length bytes \<le> NAME_MAX"
    and ins: "insert_key syms bytes v = Some syms'"
  shows "symbols_inv syms'"
proof -
  obtain st where st: "probe syms bytes = Some st"
    and syms': "syms' = syms[slot (hash bytes) st := store_symbol bytes v (syms ! slot (hash bytes) st)]"
    using ins by (auto simp: insert_key_def split: option.splits)
  define i where "i = slot (hash bytes) st"
  define s where "s = store_symbol bytes v (syms ! i)"
  have i: "i < SYMBOL_SLOTS" "length syms = SYMBOL_SLOTS"
    using inv by (auto simp: i_def symbols_inv_def)
  have s: "sym_wf s" "sym_key s = bytes" "sym_used s"
    using store_symbol_wf symbols_invD(2) [OF inv i(1)] len by (auto simp: s_def)
  have nth: "syms' ! j = (if j = i then s else syms ! j)" if "j < SYMBOL_SLOTS" for j
    using i that by (simp add: syms' i_def s_def)
  have st32: "st < SYMBOL_SLOTS"
    using st by (simp add: probe_def find_index_Some)
  have before: "sym_used (syms ! slot (hash bytes) t)" if "t < st" for t
    using st that by (auto simp: probe_def find_index_Some)
  have used_mono: "sym_used (syms' ! j)" if "j < SYMBOL_SLOTS" "sym_used (syms ! j)" for j
    using that s by (simp add: nth)
  have other: "sym_key (syms ! j) \<noteq> bytes" if "j < SYMBOL_SLOTS" "sym_used (syms ! j)" "j \<noteq> i" for j
    using probe_stored [OF inv that(1,2)] st that(3) by (auto simp: i_def)
  have key_or: "sym_key (syms' ! j) = sym_key (syms ! j) \<and> sym_used (syms ! j) \<or> j = i"
    if "j < SYMBOL_SLOTS" "sym_used (syms' ! j)" for j
    using that by (auto simp: nth split: if_splits)
  show ?thesis
    unfolding symbols_inv_def
  proof (intro conjI allI impI ballI)
    show "length syms' = SYMBOL_SLOTS"
      using i by (simp add: syms')
    show "sym_wf x" if "x \<in> set syms'" for x
      using that symbols_invD(2) [OF inv] s i
      by (auto simp: in_set_conv_nth nth syms' s_def [symmetric] i_def [symmetric] nth_list_update split: if_splits)
    show "a = b" if "a < SYMBOL_SLOTS" "b < SYMBOL_SLOTS"
      "sym_used (syms' ! a) \<and> sym_used (syms' ! b) \<and> sym_key (syms' ! a) = sym_key (syms' ! b)" for a b
      using that s symbols_invD(3) [OF inv] other
      by (auto simp: nth split: if_splits)
    show "\<exists>st < SYMBOL_SLOTS. slot (hash (sym_key (syms' ! j))) st = j
        \<and> (\<forall>t < st. sym_used (syms' ! slot (hash (sym_key (syms' ! j))) t))"
      if j: "j < SYMBOL_SLOTS" "sym_used (syms' ! j)" for j
    proof (cases "j = i")
      case True
      then show ?thesis
        using st32 before used_mono i s
        by (intro exI [of _ st]) (auto simp: nth i_def [symmetric])
    next
      case False
      then have "sym_used (syms ! j)" "sym_key (syms' ! j) = sym_key (syms ! j)"
        using j by (auto simp: nth)
      then obtain st where "st < SYMBOL_SLOTS" "slot (hash (sym_key (syms' ! j))) st = j"
        "\<forall>t < st. sym_used (syms ! slot (hash (sym_key (syms' ! j))) t)"
        using inv j(1) by (auto simp: symbols_inv_def)
      then show ?thesis
        using used_mono by auto
    qed
  qed
qed

lemma insert_key_lookup:
  assumes inv: "symbols_inv syms" and len: "length bytes \<le> NAME_MAX"
    and ins: "insert_key syms bytes v = Some syms'"
  shows "lookup_symbol syms' = (lookup_symbol syms)(bytes \<mapsto> v)"
proof -
  obtain st where st: "probe syms bytes = Some st"
    and syms': "syms' = syms[slot (hash bytes) st := store_symbol bytes v (syms ! slot (hash bytes) st)]"
    using ins by (auto simp: insert_key_def split: option.splits)
  define i where "i = slot (hash bytes) st"
  define s where "s = store_symbol bytes v (syms ! i)"
  have i: "i < SYMBOL_SLOTS" "length syms = SYMBOL_SLOTS"
    using inv by (auto simp: i_def symbols_inv_def)
  have s: "sym_key s = bytes" "sym_used s" "sym_value s = v"
    using store_symbol_wf symbols_invD(2) [OF inv i(1)] len by (auto simp: s_def)
  have nth: "syms' ! j = (if j = i then s else syms ! j)" if "j < SYMBOL_SLOTS" for j
    using i that by (simp add: syms' i_def s_def)
  have at_i: "sym_used (syms ! i) \<Longrightarrow> sym_key (syms ! i) = bytes"
    using st symbols_invD(2) [OF inv i(1)]
    by (auto simp: probe_def find_index_Some i_def sym_matches_key)
  have others: "sym_key (syms ! j) \<noteq> bytes" if "j < SYMBOL_SLOTS" "sym_used (syms ! j)" "j \<noteq> i" for j
    using probe_stored [OF inv that(1,2)] st that(3) by (auto simp: i_def)
  have "lookup_symbol syms' k = Some w \<longleftrightarrow> ((lookup_symbol syms)(bytes \<mapsto> v)) k = Some w" for k w
  proof (cases "k = bytes")
    case True
    then show ?thesis
      unfolding lookup_symbol_Some [OF insert_key_inv [OF assms]]
      using i(1) s others by (auto simp: nth intro!: exI [of _ i] split: if_splits)
  next
    case False
    then have "(\<exists>j<SYMBOL_SLOTS. sym_used (syms' ! j) \<and> sym_key (syms' ! j) = k \<and> sym_value (syms' ! j) = w)
        \<longleftrightarrow> (\<exists>j<SYMBOL_SLOTS. sym_used (syms ! j) \<and> sym_key (syms ! j) = k \<and> sym_value (syms ! j) = w)"
      using s(1) at_i by (intro ex_cong1 conj_cong [OF refl]) (auto simp: nth)
    then show ?thesis
      using False
      by (simp add: lookup_symbol_Some [OF insert_key_inv [OF assms]] lookup_symbol_Some [OF inv])
  qed
  then show ?thesis
    by (intro ext) (metis not_None_eq)
qed

lemma insert_key_refused:
  assumes "symbols_inv syms"
  shows "insert_key syms bytes v = None \<longleftrightarrow>
    bytes \<notin> dom (lookup_symbol syms) \<and> card (dom (lookup_symbol syms)) = SYMBOL_SLOTS"
proof
  assume "insert_key syms bytes v = None"
  then have none: "probe syms bytes = None"
    by (auto simp: insert_key_def split: option.splits)
  then have "{i. i < SYMBOL_SLOTS \<and> sym_used (syms ! i)} = {..<SYMBOL_SLOTS}"
    using probe_None_full by auto
  moreover have "bytes \<notin> dom (lookup_symbol syms)"
    using none by (simp add: domIff lookup_symbol_probe)
  ultimately show "bytes \<notin> dom (lookup_symbol syms) \<and> card (dom (lookup_symbol syms)) = SYMBOL_SLOTS"
    by (simp add: card_dom_lookup_symbol [OF assms])
next
  assume full: "bytes \<notin> dom (lookup_symbol syms) \<and> card (dom (lookup_symbol syms)) = SYMBOL_SLOTS"
  let ?U = "{i. i < SYMBOL_SLOTS \<and> sym_used (syms ! i)}"
  have "?U = {..<SYMBOL_SLOTS}"
    using full by (intro card_subset_eq) (auto simp: card_dom_lookup_symbol [OF assms])
  then have used: "sym_used (syms ! i)" if "i < SYMBOL_SLOTS" for i
    using that by blast
  have "probe syms bytes = None"
    using full used by (cases "probe syms bytes") (auto simp: lookup_symbol_probe domIff)
  then show "insert_key syms bytes v = None"
    by (simp add: insert_key_def)
qed

interpretation symtab: bounded_map lookup_symbol insert_key symbols_inv
  "{name. length name \<le> NAME_MAX}" SYMBOL_SLOTS
proof unfold_locales
  fix syms :: "Symbol list" and k v syms' assume inv: "symbols_inv syms"
  show "finite (dom (lookup_symbol syms))"
    by (simp add: dom_lookup_symbol [OF inv])
  show "card (dom (lookup_symbol syms)) \<le> SYMBOL_SLOTS"
    using card_mono [of "{..<SYMBOL_SLOTS}" "{i. i < SYMBOL_SLOTS \<and> sym_used (syms ! i)}"]
    by (auto simp: card_dom_lookup_symbol [OF inv])
  show "insert_key syms k v = None \<longleftrightarrow>
      k \<notin> dom (lookup_symbol syms) \<and> card (dom (lookup_symbol syms)) = SYMBOL_SLOTS"
    by (rule insert_key_refused [OF inv])
  assume "k \<in> {name. length name \<le> NAME_MAX}" "insert_key syms k v = Some syms'"
  then show "lookup_symbol syms' = (lookup_symbol syms)(k \<mapsto> v)" "symbols_inv syms'"
    using insert_key_lookup insert_key_inv inv by auto
qed

lemma symbols_inv_empty: "symbols_inv (replicate SYMBOL_SLOTS EMPTY_SYMBOL)"
  by (auto simp: symbols_inv_def sym_wf_def EMPTY_SYMBOL_def)

lemma lookup_symbol_empty: "lookup_symbol (replicate SYMBOL_SLOTS EMPTY_SYMBOL) = Map.empty"
proof -
  have "dom (lookup_symbol (replicate SYMBOL_SLOTS EMPTY_SYMBOL)) = {}"
    unfolding dom_lookup_symbol [OF symbols_inv_empty] by (auto simp: EMPTY_SYMBOL_def)
  then show ?thesis
    by (simp only: dom_eq_empty_conv)
qed

lemma from_slice_Inr: "from_slice name = Inr nb \<Longrightarrow> as_slice nb = name \<and> length name \<le> NAME_MAX"
  by (auto simp: from_slice_def as_slice_def split: if_splits)

section \<open>Properties\<close>

text \<open>The bindings of a session, as the compiler makes them.\<close>

fun bind_all :: "Symbol list \<Rightarrow> (string \<times> u32) list \<Rightarrow> ParseError + Symbol list" where
  "bind_all syms [] = Inr syms"
| "bind_all syms (kv # kvs) =
    (case from_slice (fst kv) of
       Inl e \<Rightarrow> Inl e
     | Inr nb \<Rightarrow> (case insert_symbol syms nb (snd kv) of Inl e \<Rightarrow> Inl e | Inr syms' \<Rightarrow> bind_all syms' kvs))"

lemma bind_all_insert_all:
  "\<forall>kv\<in>set kvs. length (fst kv) \<le> NAME_MAX \<Longrightarrow>
    bind_all syms kvs =
      (case insert_all insert_key syms kvs of None \<Rightarrow> Inl SymbolTableFull | Some syms' \<Rightarrow> Inr syms')"
proof (induction kvs arbitrary: syms)
  case (Cons kv kvs)
  then obtain nb where "from_slice (fst kv) = Inr nb" "as_slice nb = fst kv"
    using from_slice_Inr by (auto simp: from_slice_def)
  with Cons show ?case
    by (auto simp: insert_symbol_key split: option.split)
qed simp

text \<open>C11. The symbol table is a finite map. Binding any sequence of names of at most 16 bytes in
  a fresh table succeeds as long as there are at most 32 distinct names, whatever their hashes,
  and afterwards every name looks up the value it was bound to last and every other name
  nothing; with more than 32 distinct names, the binding fails with the table-full error.\<close>

theorem symbol_table_is_map:
  assumes "\<forall>kv\<in>set kvs. length (fst kv) \<le> NAME_MAX"
  shows "if card (fst ` set kvs) \<le> SYMBOL_SLOTS
    then \<exists>syms. bind_all (replicate SYMBOL_SLOTS EMPTY_SYMBOL) kvs = Inr syms
      \<and> (\<forall>name. lookup_symbol syms name = map_of (rev kvs) name)
    else bind_all (replicate SYMBOL_SLOTS EMPTY_SYMBOL) kvs = Inl SymbolTableFull"
proof -
  let ?t = "replicate SYMBOL_SLOTS EMPTY_SYMBOL"
  have ok: "fst ` set kvs \<subseteq> {name. length name \<le> NAME_MAX}"
    using assms by auto
  show ?thesis
  proof (cases "insert_all insert_key ?t kvs")
    case None
    then have "\<not> card (fst ` set kvs) \<le> SYMBOL_SLOTS"
      using symtab.insert_all_succeeds [OF symbols_inv_empty ok] by (auto simp: lookup_symbol_empty)
    with None show ?thesis
      using bind_all_insert_all [OF assms, of ?t] by simp
  next
    case (Some syms)
    then have syms: "symbols_inv syms" "lookup_symbol syms = map_of (rev kvs)"
      using symtab.insert_all_lookup [OF symbols_inv_empty ok Some] by (auto simp: lookup_symbol_empty)
    moreover have "card (fst ` set kvs) \<le> SYMBOL_SLOTS"
      using symtab.card_dom [OF syms(1)] by (simp add: syms(2) dom_map_of_conv_image_fst)
    ultimately show ?thesis
      using Some bind_all_insert_all [OF assms, of ?t] by simp
  qed
qed

theorem symbol_table_is_map_witness:
  "\<exists>syms. bind_all (replicate SYMBOL_SLOTS EMPTY_SYMBOL) [(''x'', 1), (''y'', 2), (''x'', 3)] = Inr syms
    \<and> lookup_symbol syms ''x'' = Some 3 \<and> lookup_symbol syms ''z'' = None"
proof -
  let ?kvs = "[(''x'', 1), (''y'', 2), (''x'', 3)] :: (string \<times> u32) list"
  have "card (fst ` set ?kvs) \<le> SYMBOL_SLOTS" "\<forall>kv\<in>set ?kvs. length (fst kv) \<le> NAME_MAX"
    by (simp_all add: SYMBOL_SLOTS_def NAME_MAX_def card_insert_if)
  with symbol_table_is_map [of ?kvs] obtain syms where
    "bind_all (replicate SYMBOL_SLOTS EMPTY_SYMBOL) ?kvs = Inr syms"
    "\<forall>name. lookup_symbol syms name = map_of (rev ?kvs) name"
    by (auto simp del: bind_all.simps)
  then show ?thesis
    by (auto simp del: bind_all.simps)
qed

end
