(* ===== verification/Threaded_VM.thy ===== *)
theory Threaded_VM
  imports Byte_Memory
begin

text \<open>
  The threaded-code engine: the operand stack and the dispatch loop of \<^verbatim>\<open>src/kernel/exec.rs\<close> and
  the micro-primitives of \<^verbatim>\<open>src/compiler/primitives.rs\<close>.

  A token stream is an array of words; a word is the address of a primitive or an inline
  literal. The addresses are chosen by the linker and are a parameter \<open>wof\<close> of the model; what
  the code relies on is that the addresses of the eight functions are distinct and not null
  (\<open>good_words\<close>). Calling a word that is not the address of a primitive and reading past the
  end of the array have no defined result and are \<open>None\<close>.
\<close>

section \<open>Operand stack\<close>

definition VM_STACK_SIZE :: nat where "VM_STACK_SIZE = 64"

record VM =
  vm_stack :: "u32 list"
  vm_sp :: nat
  vm_mem :: mem

definition vm_init :: "mem \<Rightarrow> VM" where
  "vm_init m = \<lparr>vm_stack = replicate VM_STACK_SIZE 0, vm_sp = 0, vm_mem = m\<rparr>"

definition vm_push :: "u32 \<Rightarrow> VM \<Rightarrow> bool \<times> VM" where
  "vm_push value vm =
    (let sp = vm_sp vm
     in if sp \<ge> VM_STACK_SIZE then (False, vm)
        else (True, vm\<lparr>vm_stack := (vm_stack vm)[sp := value], vm_sp := sp + 1\<rparr>))"

definition vm_pop :: "VM \<Rightarrow> u32 \<times> VM" where
  "vm_pop vm =
    (let sp = vm_sp vm
     in if sp = 0 then (0, vm) else (vm_stack vm ! (sp - 1), vm\<lparr>vm_sp := sp - 1\<rparr>))"

definition vm_reset :: "VM \<Rightarrow> VM" where
  "vm_reset vm = vm\<lparr>vm_sp := 0\<rparr>"

definition vm_depth :: "VM \<Rightarrow> nat" where
  "vm_depth vm = vm_sp vm"

section \<open>Primitives\<close>

datatype prim =
    lit_prim
  | load_reg_prim
  | write_reg_prim
  | add_prim
  | sub_prim
  | mul_prim
  | div_prim
  | halt_prim

definition prims :: "prim list" where
  "prims = [lit_prim, load_reg_prim, write_reg_prim, add_prim, sub_prim, mul_prim, div_prim, halt_prim]"

lemma set_prims [simp]: "set prims = UNIV"
proof -
  have "p \<in> set prims" for p
    by (cases p) (simp_all add: prims_def)
  then show ?thesis
    by blast
qed

text \<open>\<open>a.checked_div(b).unwrap_or(0)\<close>\<close>

definition div_or_zero :: "u32 \<Rightarrow> u32 \<Rightarrow> u32" where
  "div_or_zero a b = (if b = 0 then 0 else a div b)"

definition binary_prim :: "(u32 \<Rightarrow> u32 \<Rightarrow> u32) \<Rightarrow> VM \<Rightarrow> VM" where
  "binary_prim f vm =
    (let (b, vm1) = vm_pop vm; (a, vm2) = vm_pop vm1 in snd (vm_push (f a b) vm2))"

definition load_reg :: "VM \<Rightarrow> VM" where
  "load_reg vm = (let (addr, vm1) = vm_pop vm in snd (vm_push (peek_u32 (vm_mem vm1) addr) vm1))"

definition write_reg :: "VM \<Rightarrow> VM" where
  "write_reg vm =
    (let (value, vm1) = vm_pop vm; (addr, vm2) = vm_pop vm1
     in vm2\<lparr>vm_mem := poke_u32 (vm_mem vm2) addr value\<rparr>)"

text \<open>One primitive on the stream \<open>words\<close> with the instruction pointer past its opcode: the next
  instruction pointer (\<open>None\<close> for the null pointer) and the new machine.\<close>

fun run_prim :: "prim \<Rightarrow> u32 list \<Rightarrow> nat \<Rightarrow> VM \<Rightarrow> (nat option \<times> VM) option" where
  "run_prim lit_prim words ip vm =
    (if ip < length words then Some (Some (ip + 1), snd (vm_push (words ! ip) vm)) else None)"
| "run_prim load_reg_prim words ip vm = Some (Some ip, load_reg vm)"
| "run_prim write_reg_prim words ip vm = Some (Some ip, write_reg vm)"
| "run_prim add_prim words ip vm = Some (Some ip, binary_prim (+) vm)"
| "run_prim sub_prim words ip vm = Some (Some ip, binary_prim (-) vm)"
| "run_prim mul_prim words ip vm = Some (Some ip, binary_prim (*) vm)"
| "run_prim div_prim words ip vm = Some (Some ip, binary_prim div_or_zero vm)"
| "run_prim halt_prim words ip vm = Some (None, vm)"

section \<open>Dispatch\<close>

text \<open>\<open>core::mem::transmute(word)\<close>: the primitive at an address.\<close>

definition prim_of :: "(prim \<Rightarrow> u32) \<Rightarrow> u32 \<Rightarrow> prim option" where
  "prim_of wof w = List.find (\<lambda>p. wof p = w) prims"

definition good_words :: "(prim \<Rightarrow> u32) \<Rightarrow> bool" where
  "good_words wof \<longleftrightarrow> distinct (map wof prims) \<and> 0 \<notin> set (map wof prims)"

lemma run_prim_ip: "run_prim p words ip vm = Some (Some ip', vm') \<Longrightarrow> ip \<le> ip'"
  by (cases p) (auto split: if_splits)

function run_threaded_stream :: "(prim \<Rightarrow> u32) \<Rightarrow> u32 list \<Rightarrow> nat \<Rightarrow> VM \<Rightarrow> VM option" where
  "run_threaded_stream wof words ip vm =
    (if ip < length words then
       (let word = words ! ip
        in if word = 0 then Some vm
           else (case prim_of wof word of
                   None \<Rightarrow> None
                 | Some p \<Rightarrow>
                     (case run_prim p words (ip + 1) vm of
                        None \<Rightarrow> None
                      | Some (None, vm') \<Rightarrow> Some vm'
                      | Some (Some ip', vm') \<Rightarrow> run_threaded_stream wof words ip' vm')))
     else None)"
  by pat_completeness auto
termination
  by (relation "measure (\<lambda>(wof, words, ip, vm). length words - ip)") (auto dest: run_prim_ip)

declare run_threaded_stream.simps [simp del]

section \<open>Structured code\<close>

text \<open>What a stream means: literals and primitives in sequence. \<open>halt_prim\<close> ends the run.\<close>

datatype instr = Lit u32 | Op prim

fun instr_words :: "(prim \<Rightarrow> u32) \<Rightarrow> instr \<Rightarrow> u32 list" where
  "instr_words wof (Lit v) = [wof lit_prim, v]"
| "instr_words wof (Op p) = [wof p]"

definition code_words :: "(prim \<Rightarrow> u32) \<Rightarrow> instr list \<Rightarrow> u32 list" where
  "code_words wof is = concat (map (instr_words wof) is)"

fun exec_instr :: "instr \<Rightarrow> VM \<Rightarrow> VM" where
  "exec_instr (Lit v) vm = snd (vm_push v vm)"
| "exec_instr (Op load_reg_prim) vm = load_reg vm"
| "exec_instr (Op write_reg_prim) vm = write_reg vm"
| "exec_instr (Op add_prim) vm = binary_prim (+) vm"
| "exec_instr (Op sub_prim) vm = binary_prim (-) vm"
| "exec_instr (Op mul_prim) vm = binary_prim (*) vm"
| "exec_instr (Op div_prim) vm = binary_prim div_or_zero vm"
| "exec_instr (Op lit_prim) vm = vm"
| "exec_instr (Op halt_prim) vm = vm"

text \<open>A plain instruction neither takes an inline argument nor stops the run.\<close>

definition plain :: "instr \<Rightarrow> bool" where
  "plain i \<longleftrightarrow> i \<noteq> Op lit_prim \<and> i \<noteq> Op halt_prim"

lemma code_words_simps [simp]:
  "code_words wof [] = []"
  "code_words wof (i # is) = instr_words wof i @ code_words wof is"
  "code_words wof (is @ js) = code_words wof is @ code_words wof js"
  by (simp_all add: code_words_def)

lemma prim_of_wof: "good_words wof \<Longrightarrow> prim_of wof (wof p) = Some p"
  by (cases p) (auto simp: good_words_def prim_of_def prims_def)

lemma wof_nonzero: "good_words wof \<Longrightarrow> wof p \<noteq> 0"
  by (cases p) (auto simp: good_words_def prims_def)

text \<open>Dispatch of one structured instruction anywhere in an array.\<close>

lemma run_instr:
  assumes "good_words wof" "plain i"
  shows "run_threaded_stream wof (pre @ instr_words wof i @ post) (length pre) vm =
    run_threaded_stream wof (pre @ instr_words wof i @ post)
      (length (pre @ instr_words wof i)) (exec_instr i vm)"
proof (cases i)
  case (Lit v)
  then show ?thesis
    using assms
    by (subst run_threaded_stream.simps) (simp add: Let_def prim_of_wof wof_nonzero nth_append)
next
  case (Op p)
  then show ?thesis
    using assms
    by (subst run_threaded_stream.simps; cases p)
      (simp_all add: Let_def prim_of_wof wof_nonzero plain_def)
qed

lemma run_code:
  assumes "good_words wof" "list_all plain is"
  shows "run_threaded_stream wof (pre @ code_words wof is @ wof halt_prim # post) (length pre) vm
    = Some (fold exec_instr is vm)"
  using assms(2)
proof (induction "is" arbitrary: pre vm)
  case Nil
  then show ?case
    using assms(1)
    by (subst run_threaded_stream.simps) (simp add: Let_def prim_of_wof wof_nonzero)
next
  case (Cons i "is")
  have "run_threaded_stream wof (pre @ code_words wof (i # is) @ wof halt_prim # post) (length pre) vm
    = run_threaded_stream wof ((pre @ instr_words wof i) @ code_words wof is @ wof halt_prim # post)
        (length (pre @ instr_words wof i)) (exec_instr i vm)"
    using run_instr [OF assms(1), of i pre] Cons.prems by simp
  also have "\<dots> = Some (fold exec_instr is (exec_instr i vm))"
    using Cons by (simp del: append_assoc length_append)
  finally show ?case
    by simp
qed

section \<open>The operand stack as a list\<close>

definition vm_inv :: "VM \<Rightarrow> bool" where
  "vm_inv vm \<longleftrightarrow> length (vm_stack vm) = VM_STACK_SIZE \<and> vm_sp vm \<le> VM_STACK_SIZE"

text \<open>Top of the stack last.\<close>

definition vm_list :: "VM \<Rightarrow> u32 list" where
  "vm_list vm = take (vm_sp vm) (vm_stack vm)"

lemma length_vm_list: "vm_inv vm \<Longrightarrow> length (vm_list vm) = vm_sp vm"
  by (simp add: vm_inv_def vm_list_def)

lemma vm_init_list [simp]: "vm_inv (vm_init m)" "vm_list (vm_init m) = []" "vm_mem (vm_init m) = m"
  by (simp_all add: vm_inv_def vm_list_def vm_init_def)

text \<open>\<open>vm_is vm xs m\<close>: a well-formed machine with operands \<open>xs\<close> and memory \<open>m\<close>.\<close>

definition vm_is :: "VM \<Rightarrow> u32 list \<Rightarrow> mem \<Rightarrow> bool" where
  "vm_is vm xs m \<longleftrightarrow> vm_inv vm \<and> vm_list vm = xs \<and> vm_mem vm = m"

lemma vm_is_push:
  "vm_is vm xs m \<Longrightarrow> length xs < VM_STACK_SIZE \<Longrightarrow> vm_is (snd (vm_push v vm)) (xs @ [v]) m"
  by (auto simp: vm_is_def vm_push_def vm_inv_def vm_list_def Let_def take_Suc_conv_app_nth)

lemma vm_is_push_full:
  "vm_is vm xs m \<Longrightarrow> length xs = VM_STACK_SIZE \<Longrightarrow> vm_push v vm = (False, vm)"
  by (auto simp: vm_is_def vm_push_def length_vm_list)

lemma vm_is_pop:
  assumes "vm_is vm (xs @ [v]) m"
  shows "fst (vm_pop vm) = v \<and> vm_is (snd (vm_pop vm)) xs m"
proof -
  have sp: "vm_sp vm = Suc (length xs)" "vm_sp vm \<le> length (vm_stack vm)"
    using assms length_vm_list [of vm] by (auto simp: vm_is_def vm_inv_def)
  then have "take (length xs) (vm_stack vm) @ [vm_stack vm ! length xs] = xs @ [v]"
    using assms by (simp add: vm_is_def vm_list_def take_Suc_conv_app_nth)
  then show ?thesis
    using assms sp by (auto simp: vm_is_def vm_pop_def vm_inv_def vm_list_def)
qed

lemma vm_is_pop_empty: "vm_is vm [] m \<Longrightarrow> vm_pop vm = (0, vm)"
  by (auto simp: vm_is_def vm_pop_def vm_list_def vm_inv_def VM_STACK_SIZE_def)

lemma vm_is_binary:
  assumes "vm_is vm (xs @ [a, b]) m" "length xs < VM_STACK_SIZE"
  shows "vm_is (binary_prim f vm) (xs @ [f a b]) m"
proof -
  have "fst (vm_pop vm) = b \<and> vm_is (snd (vm_pop vm)) (xs @ [a]) m"
    using vm_is_pop [of vm "xs @ [a]"] assms(1) by simp
  moreover from this have "fst (vm_pop (snd (vm_pop vm))) = a \<and> vm_is (snd (vm_pop (snd (vm_pop vm)))) xs m"
    using vm_is_pop by blast
  ultimately show ?thesis
    using vm_is_push [OF _ assms(2)] by (simp add: binary_prim_def split_def Let_def)
qed

lemma vm_is_load:
  assumes "vm_is vm (xs @ [a]) m" "length xs < VM_STACK_SIZE"
  shows "vm_is (load_reg vm) (xs @ [peek_u32 m a]) m"
  using vm_is_pop [OF assms(1)] vm_is_push [OF _ assms(2)]
  by (auto simp: load_reg_def split_def Let_def vm_is_def)

lemma vm_is_write:
  assumes "vm_is vm (xs @ [a, v]) m"
  shows "vm_is (write_reg vm) xs (poke_u32 m a v)"
proof -
  have "fst (vm_pop vm) = v \<and> vm_is (snd (vm_pop vm)) (xs @ [a]) m"
    using vm_is_pop [of vm "xs @ [a]"] assms by simp
  moreover from this have "fst (vm_pop (snd (vm_pop vm))) = a \<and> vm_is (snd (vm_pop (snd (vm_pop vm)))) xs m"
    using vm_is_pop by blast
  ultimately show ?thesis
    by (auto simp: write_reg_def split_def Let_def vm_is_def vm_inv_def vm_list_def)
qed

lemmas vm_is_steps = vm_is_push vm_is_binary vm_is_load vm_is_write

section \<open>Expressions in reverse Polish notation\<close>

datatype expr = EConst u32 | ELoad expr | EBin prim expr expr

fun bin_op :: "prim \<Rightarrow> u32 \<Rightarrow> u32 \<Rightarrow> u32" where
  "bin_op add_prim a b = a + b"
| "bin_op sub_prim a b = a - b"
| "bin_op mul_prim a b = a * b"
| "bin_op div_prim a b = (if b = 0 then 0 else a div b)"
| "bin_op _ a b = 0"

fun expr_ok :: "expr \<Rightarrow> bool" where
  "expr_ok (EConst v) = True"
| "expr_ok (ELoad e) = expr_ok e"
| "expr_ok (EBin p e f) \<longleftrightarrow> p \<in> {add_prim, sub_prim, mul_prim, div_prim} \<and> expr_ok e \<and> expr_ok f"

fun expr_eval :: "mem \<Rightarrow> expr \<Rightarrow> u32" where
  "expr_eval m (EConst v) = v"
| "expr_eval m (ELoad e) = peek_u32 m (expr_eval m e)"
| "expr_eval m (EBin p e f) = bin_op p (expr_eval m e) (expr_eval m f)"

fun rpn :: "expr \<Rightarrow> instr list" where
  "rpn (EConst v) = [Lit v]"
| "rpn (ELoad e) = rpn e @ [Op load_reg_prim]"
| "rpn (EBin p e f) = rpn e @ rpn f @ [Op p]"

text \<open>How many operands the code of an expression has on the stack at once.\<close>

fun expr_need :: "expr \<Rightarrow> nat" where
  "expr_need (EConst v) = 1"
| "expr_need (ELoad e) = expr_need e"
| "expr_need (EBin p e f) = max (expr_need e) (Suc (expr_need f))"

lemma expr_need_pos: "0 < expr_need e"
  by (induction e) auto

lemma rpn_plain: "expr_ok e \<Longrightarrow> list_all plain (rpn e)"
  by (induction e) (auto simp: plain_def)

lemma rpn_correct:
  "expr_ok e \<Longrightarrow> vm_is vm xs m \<Longrightarrow> length xs + expr_need e \<le> VM_STACK_SIZE \<Longrightarrow>
    vm_is (fold exec_instr (rpn e) vm) (xs @ [expr_eval m e]) m"
proof (induction e arbitrary: vm xs)
  case (EConst v)
  then show ?case
    by (simp add: vm_is_push)
next
  case (ELoad e)
  have "vm_is (fold exec_instr (rpn e) vm) (xs @ [expr_eval m e]) m"
    using ELoad by simp
  then show ?case
    using ELoad.prems(3) expr_need_pos [of e] by (simp add: vm_is_load)
next
  case (EBin p e f)
  let ?vm1 = "fold exec_instr (rpn e) vm"
  have "vm_is ?vm1 (xs @ [expr_eval m e]) m"
    using EBin by simp
  then have "vm_is (fold exec_instr (rpn f) ?vm1) (xs @ [expr_eval m e, expr_eval m f]) m"
    using EBin.IH(2) [of ?vm1 "xs @ [expr_eval m e]"] EBin.prems by simp
  then have res: "vm_is (binary_prim g (fold exec_instr (rpn f) ?vm1)) (xs @ [g (expr_eval m e) (expr_eval m f)]) m" for g
    using EBin.prems(3) by (intro vm_is_binary) auto
  show ?case
    using EBin.prems(1) res [of "(+)"] res [of "(-)"] res [of "(*)"] res [of div_or_zero]
    by (auto simp: div_or_zero_def)
qed

text \<open>C12. Threaded execution of an expression. For every placement of the primitives by the linker,
  the dispatch loop run on the token stream of an expression that needs at most 64 operands
  stops, leaves the memory as it was, and its value is what the stack yields: additions,
  subtractions and products wrap around, a division by zero gives 0, and a load reads the
  memory.\<close>

theorem threaded_expression_value:
  assumes "good_words wof" "expr_ok e" "expr_need e \<le> VM_STACK_SIZE"
  shows "\<exists>vm. run_threaded_stream wof (code_words wof (rpn e) @ [wof halt_prim]) 0 (vm_reset (vm_init m)) = Some vm
    \<and> fst (vm_pop vm) = expr_eval m e \<and> vm_depth vm = 1 \<and> vm_mem vm = m"
proof -
  let ?vm = "fold exec_instr (rpn e) (vm_init m)"
  have start: "vm_is (vm_init m) [] m"
    by (simp add: vm_is_def)
  have res: "vm_is ?vm [expr_eval m e] m"
    using rpn_correct [OF assms(2) start] assms(3) by simp
  moreover have "run_threaded_stream wof (code_words wof (rpn e) @ [wof halt_prim]) 0 (vm_init m) = Some ?vm"
    using run_code [OF assms(1) rpn_plain [OF assms(2)], of "[]" "[]"] by simp
  moreover have "vm_reset (vm_init m) = vm_init m"
    by (simp add: vm_reset_def vm_init_def)
  moreover have "vm_depth ?vm = 1"
    using res length_vm_list [of ?vm] by (simp add: vm_is_def vm_depth_def)
  ultimately show ?thesis
    using vm_is_pop [of ?vm "[]"] by (auto simp: vm_is_def)
qed

text \<open>An example placement of the primitives.\<close>

fun example_words :: "prim \<Rightarrow> u32" where
  "example_words lit_prim = 0x08000101"
| "example_words load_reg_prim = 0x08000111"
| "example_words write_reg_prim = 0x08000121"
| "example_words add_prim = 0x08000131"
| "example_words sub_prim = 0x08000141"
| "example_words mul_prim = 0x08000151"
| "example_words div_prim = 0x08000161"
| "example_words halt_prim = 0x08000171"

lemma good_example_words: "good_words example_words"
  by (simp add: good_words_def prims_def)

theorem threaded_expression_value_witness:
  "\<exists>vm. run_threaded_stream example_words
      (code_words example_words (rpn (EBin div_prim (EConst 7) (EBin sub_prim (EConst 2) (EConst 2)))) @ [example_words halt_prim])
      0 (vm_reset (vm_init (\<lambda>a. 0))) = Some vm \<and> fst (vm_pop vm) = 0 \<and> vm_depth vm = 1"
  using threaded_expression_value [OF good_example_words,
      of "EBin div_prim (EConst 7) (EBin sub_prim (EConst 2) (EConst 2))" "\<lambda>a. 0"]
  by (auto simp: VM_STACK_SIZE_def simp del: example_words.simps)

section \<open>Register programs\<close>

text \<open>What compiled function bodies and loops consist of: register writes and register reads,
  each with its address as an immediate.\<close>

datatype act = APoke u32 u32 | APeek u32

fun act_code :: "act \<Rightarrow> instr list" where
  "act_code (APoke a v) = [Lit a, Lit v, Op write_reg_prim]"
| "act_code (APeek a) = [Lit a, Op load_reg_prim]"

definition acts_code :: "act list \<Rightarrow> instr list" where
  "acts_code acts = concat (map act_code acts)"

fun act_addr :: "act \<Rightarrow> u32" where
  "act_addr (APoke a v) = a"
| "act_addr (APeek a) = a"

text \<open>Their meaning: writes change the memory, reads append the value read.\<close>

fun do_act :: "act \<Rightarrow> u32 list \<times> mem \<Rightarrow> u32 list \<times> mem" where
  "do_act (APoke a v) (xs, m) = (xs, poke_u32 m a v)"
| "do_act (APeek a) (xs, m) = (xs @ [peek_u32 m a], m)"

lemma acts_code_simps [simp]:
  "acts_code [] = []"
  "acts_code (c # cs) = act_code c @ acts_code cs"
  "acts_code (cs @ ds) = acts_code cs @ acts_code ds"
  by (simp_all add: acts_code_def)

lemma acts_code_plain: "list_all plain (acts_code acts)"
proof (induction acts)
  case (Cons c cs)
  then show ?case
    by (cases c) (auto simp: plain_def)
qed simp

lemma length_acts_words: "3 * length acts \<le> length (code_words wof (acts_code acts))"
proof (induction acts)
  case (Cons c cs)
  then show ?case
    by (cases c) auto
qed simp

lemma do_act_vm:
  assumes "vm_is vm xs m" "length xs + 2 \<le> VM_STACK_SIZE"
  shows "vm_is (fold exec_instr (act_code c) vm) (fst (do_act c (xs, m))) (snd (do_act c (xs, m)))"
proof (cases c)
  case (APoke a v)
  have "vm_is (snd (vm_push v (snd (vm_push a vm)))) (xs @ [a, v]) m"
    using vm_is_push [OF vm_is_push [OF assms(1)], of a v] assms(2) by simp
  then show ?thesis
    using APoke vm_is_write by simp
next
  case (APeek a)
  then show ?thesis
    using vm_is_load [OF vm_is_push [OF assms(1), of a]] assms(2) by simp
qed

lemma length_do_act: "length (fst (do_act c s)) \<le> Suc (length (fst s))"
  by (cases c; cases s) auto

lemma acts_vm:
  "vm_is vm xs m \<Longrightarrow> length xs + length acts + 2 \<le> VM_STACK_SIZE \<Longrightarrow>
    vm_is (fold exec_instr (acts_code acts) vm) (fst (fold do_act acts (xs, m))) (snd (fold do_act acts (xs, m)))"
proof (induction acts arbitrary: vm xs m)
  case (Cons c cs)
  let ?s = "do_act c (xs, m)"
  have "vm_is (fold exec_instr (act_code c) vm) (fst ?s) (snd ?s)"
    using Cons.prems by (intro do_act_vm) auto
  then show ?case
    using Cons.IH [of _ "fst ?s" "snd ?s"] Cons.prems(2) length_do_act [of c "(xs, m)"] by simp
qed simp

text \<open>A stream of at most 128 words never fills the operand stack.\<close>

lemma acts_run:
  assumes "good_words wof" "length (code_words wof (acts_code acts)) \<le> 128"
  shows "\<exists>vm. run_threaded_stream wof (code_words wof (acts_code acts) @ wof halt_prim # post) 0 (vm_init m) = Some vm
    \<and> vm_is vm (fst (fold do_act acts ([], m))) (snd (fold do_act acts ([], m)))"
proof -
  have "length acts + 2 \<le> VM_STACK_SIZE"
    using length_acts_words [of acts wof] assms(2) by (simp add: VM_STACK_SIZE_def)
  moreover have "vm_is (vm_init m) [] m"
    by (simp add: vm_is_def)
  ultimately show ?thesis
    using acts_vm [of "vm_init m" "[]" m acts] run_code [OF assms(1) acts_code_plain [of acts], of "[]" post]
    by simp
qed

end
