(* ===== verification/Parser.thy ===== *)
theory Parser
  imports Lexer Symbols Threaded_VM Cap_Registry
begin

text \<open>
  The single-pass compiler front end of \<^verbatim>\<open>src/compiler/parser.rs\<close>: the token cursor, the
  persistent compiler state, expressions (folded to constants while they are parsed),
  statements (compiled to threaded code) and the commands of the interactive language.

  The statics a parse reads are collected in an environment: the architecture, the capability
  registry, the memory that a compile-time \<open>peek\<close> reads, and the placement of the primitives.
  Expression parsers do not change the compiler and return the cursor with the value; statement
  parsers return the compiler also on an error, since the source mutates it in place. The
  recursion of the parsers is bounded by fuel, and \<open>None\<close> means that it ran out; the entry
  point \<open>parse\<close> supplies enough of it for every line.
\<close>

section \<open>Constants and state\<close>

definition MAX_STREAM_WORDS :: nat where "MAX_STREAM_WORDS = 128"
definition MAX_FNS :: nat where "MAX_FNS = 2"
definition FN_BODY_WORDS :: nat where "FN_BODY_WORDS = 32"
definition MAX_LOOP_UNROLL :: nat where "MAX_LOOP_UNROLL = 64"

record StreamProgram =
  sp_words :: "u32 list"
  sp_len :: nat
  sp_yields_value :: bool

datatype Outcome =
    Empty
  | Bound NameBuf u32
  | FnDefined NameBuf
  | Run StreamProgram
  | Claim NameBuf
  | Drop NameBuf
  | SetBit u32 u32
  | ClrBit u32 u32
  | Help
  | Banner
  | SysAudit
  | EnforcedPoke u32 u32
  | EnforcedPeek u32
  | Bench
  | Pwm u32 u32
  | PwmDuty u32
  | SpiTx u8
  | FlashTest
  | Store NameBuf
  | Load NameBuf
  | StoreList
  | Spawn NameBuf
  | PoolAlloc u32
  | PoolFree
  | PoolStats

record Compiler =
  symbols :: "Symbol list"
  fn_names :: "NameBuf list"
  fn_bodies :: "u32 list list"
  fn_body_lens :: "nat list"
  stream :: "u32 list"
  stream_len :: nat

definition compiler_new :: Compiler where
  "compiler_new =
    \<lparr>symbols = replicate SYMBOL_SLOTS EMPTY_SYMBOL,
     fn_names = replicate MAX_FNS \<lparr>nb_len = 0, nb_bytes = replicate NAME_MAX (CHR 0x00)\<rparr>,
     fn_bodies = replicate MAX_FNS (replicate FN_BODY_WORDS 0),
     fn_body_lens = replicate MAX_FNS 0,
     stream = replicate MAX_STREAM_WORDS 0,
     stream_len = 0\<rparr>"

record Env =
  env_arch :: arch
  env_reg :: registry
  env_mem :: mem
  env_word :: "prim \<Rightarrow> u32"

section \<open>Token cursor\<close>

record Cur =
  cur_lx :: Lexer
  cur_ahead :: "Token option"

definition cur_new :: "string \<Rightarrow> Cur" where
  "cur_new line = \<lparr>cur_lx = lexer_new line, cur_ahead = None\<rparr>"

definition cur_next :: "Cur \<Rightarrow> Token \<times> Cur" where
  "cur_next cur =
    (case cur_ahead cur of
       Some t \<Rightarrow> (t, cur\<lparr>cur_ahead := None\<rparr>)
     | None \<Rightarrow> (let (t, lx) = next_token (cur_lx cur) in (t, cur\<lparr>cur_lx := lx\<rparr>)))"

definition cur_peek :: "Cur \<Rightarrow> Token \<times> Cur" where
  "cur_peek cur =
    (case cur_ahead cur of
       Some t \<Rightarrow> (t, cur)
     | None \<Rightarrow>
         (let (t, lx) = next_token (cur_lx cur) in (t, cur\<lparr>cur_lx := lx, cur_ahead := Some t\<rparr>)))"

section \<open>Results\<close>

text \<open>\<open>pres\<close>: an expression parser; \<open>sres\<close>: a statement parser, which also returns the compiler.
  The binds are the \<open>?\<close> of the source.\<close>

type_synonym 'a pres = "(ParseError + 'a) option"
type_synonym 'a sres = "((ParseError + 'a) \<times> Compiler) option"

definition pbind :: "'a pres \<Rightarrow> ('a \<Rightarrow> 'b pres) \<Rightarrow> 'b pres" where
  "pbind r f = (case r of None \<Rightarrow> None | Some (Inl e) \<Rightarrow> Some (Inl e) | Some (Inr x) \<Rightarrow> f x)"

definition sbind :: "'a sres \<Rightarrow> ('a \<Rightarrow> Compiler \<Rightarrow> 'b sres) \<Rightarrow> 'b sres" where
  "sbind r f =
    (case r of None \<Rightarrow> None | Some (Inl e, c) \<Rightarrow> Some (Inl e, c) | Some (Inr x, c) \<Rightarrow> f x c)"

definition pure :: "Compiler \<Rightarrow> 'a pres \<Rightarrow> 'a sres" where
  "pure c r = (case r of None \<Rightarrow> None | Some x \<Rightarrow> Some (x, c))"

text \<open>\<open>check_access(addr).map_err(|_| CapabilityViolation)\<close>\<close>

definition check_cap :: "Env \<Rightarrow> u32 \<Rightarrow> ParseError + unit" where
  "check_cap env addr =
    (case check_access (env_arch env) (env_reg env) addr of
       Inl _ \<Rightarrow> Inl CapabilityViolationP
     | Inr _ \<Rightarrow> Inr ())"

section \<open>Token helpers\<close>

definition expect_name :: "Cur \<Rightarrow> (NameBuf \<times> Cur) pres" where
  "expect_name cur =
    (case cur_next cur of
       (Identifier ident, cur') \<Rightarrow>
         Some (case from_slice ident of Inl e \<Rightarrow> Inl e | Inr nb \<Rightarrow> Inr (nb, cur'))
     | _ \<Rightarrow> Some (Inl UnexpectedToken))"

definition expect_semicolon :: "Cur \<Rightarrow> Cur pres" where
  "expect_semicolon cur =
    (case cur_next cur of
       (Semicolon, cur') \<Rightarrow> Some (Inr cur')
     | (Eof, cur') \<Rightarrow> Some (Inr cur')
     | _ \<Rightarrow> Some (Inl MissingSemicolon))"

definition allow_optional_semicolon :: "Cur \<Rightarrow> Cur" where
  "allow_optional_semicolon cur =
    (case cur_peek cur of
       (Semicolon, cur') \<Rightarrow> snd (cur_next cur')
     | (_, cur') \<Rightarrow> cur')"

definition expect_token :: "Token \<Rightarrow> Cur \<Rightarrow> Cur pres" where
  "expect_token t cur =
    (let (t', cur') = cur_next cur
     in if t' = t then Some (Inr cur') else Some (Inl UnexpectedToken))"

section \<open>Expressions\<close>

definition apply_op :: "char \<Rightarrow> u32 \<Rightarrow> u32 \<Rightarrow> ParseError + u32" where
  "apply_op op acc rhs =
    (if op = CHR ''+'' then Inr (acc + rhs)
     else if op = CHR ''-'' then Inr (acc - rhs)
     else if op = CHR ''*'' then Inr (acc * rhs)
     else if op = CHR ''/'' then (if rhs = 0 then Inl DivByZero else Inr (acc div rhs))
     else (if rhs = 0 then Inl DivByZero else Inr (acc mod rhs)))"

text \<open>The arithmetic operators of the expression loop, and what a single token is as a term:
  a constant, an error, or (\<open>Inr None\<close>) the keyword \<open>peek\<close>, whose operand follows.\<close>

definition arith_op :: "Token \<Rightarrow> char option" where
  "arith_op t = (case t of Operator op \<Rightarrow> if op \<in> set ''+-*/%'' then Some op else None | _ \<Rightarrow> None)"

definition term_value :: "Symbol list \<Rightarrow> Token \<Rightarrow> ParseError + u32 option" where
  "term_value syms tok =
    (case tok of
       Literal v \<Rightarrow> Inr (Some v)
     | Identifier ident \<Rightarrow>
         if ident = ''peek'' then Inr None
         else (case lookup_symbol syms ident of Some v \<Rightarrow> Inr (Some v) | None \<Rightarrow> Inl UnknownSymbol)
     | TokError msg \<Rightarrow> Inl (LexError msg)
     | _ \<Rightarrow> Inl UnexpectedToken)"

text \<open>The three recursive functions of the source are built from one bounded recursion. Each of
  the following takes the parser of operands one level down as the argument \<open>operand\<close>;
  \<open>eval_operand\<close> is the choice between a parenthesised expression and a term that
  \<open>parse_atomic_term\<close> and \<open>eval_expr\<close> make on a token they have taken, and \<open>eval_ops\<close> is the loop
  of \<open>eval_expr\<close>.\<close>

type_synonym operand_parser = "Token \<Rightarrow> Cur \<Rightarrow> (u32 \<times> Cur) pres"

definition resolve_term :: "operand_parser \<Rightarrow> Env \<Rightarrow> Symbol list \<Rightarrow> Token \<Rightarrow> Cur \<Rightarrow> (u32 \<times> Cur) pres" where
  "resolve_term operand env syms tok cur =
    (case term_value syms tok of
       Inl e \<Rightarrow> Some (Inl e)
     | Inr (Some v) \<Rightarrow> Some (Inr (v, cur))
     | Inr None \<Rightarrow>
         (let (tok', cur1) = cur_next cur
          in pbind (operand tok' cur1) (\<lambda>(addr, cur2).
             Some (Inr (peek_u32 (env_mem env) addr, cur2)))))"

fun eval_ops :: "nat \<Rightarrow> operand_parser \<Rightarrow> u32 \<Rightarrow> Cur \<Rightarrow> (u32 \<times> Cur) pres" where
  "eval_ops 0 operand acc cur = None"
| "eval_ops (Suc n) operand acc cur =
    (let (t, cur1) = cur_peek cur
     in case arith_op t of
          None \<Rightarrow> Some (Inr (acc, cur1))
        | Some op \<Rightarrow>
            (let (_, cur2) = cur_next cur1; (rhs_tok, cur3) = cur_next cur2
             in pbind (operand rhs_tok cur3) (\<lambda>(rhs, cur4).
                (case apply_op op acc rhs of
                   Inl e \<Rightarrow> Some (Inl e)
                 | Inr acc' \<Rightarrow> eval_ops n operand acc' cur4))))"

definition expr_with :: "nat \<Rightarrow> operand_parser \<Rightarrow> Token option \<Rightarrow> Cur \<Rightarrow> (u32 \<times> Cur) pres" where
  "expr_with n operand first cur =
    (let (head, cur1) = (case first of Some t \<Rightarrow> (t, cur) | None \<Rightarrow> cur_next cur)
     in pbind (operand head cur1) (\<lambda>(acc, cur2). eval_ops n operand acc cur2))"

fun eval_operand :: "nat \<Rightarrow> Env \<Rightarrow> Symbol list \<Rightarrow> operand_parser" where
  "eval_operand 0 env syms tok cur = None"
| "eval_operand (Suc n) env syms tok cur =
    (if tok = LParen then
       pbind (expr_with n (eval_operand n env syms) None cur) (\<lambda>(val, cur1).
       pbind (expect_token RParen cur1) (\<lambda>cur2.
       Some (Inr (val, cur2))))
     else resolve_term (eval_operand n env syms) env syms tok cur)"

definition eval_expr :: "nat \<Rightarrow> Env \<Rightarrow> Symbol list \<Rightarrow> Token option \<Rightarrow> Cur \<Rightarrow> (u32 \<times> Cur) pres" where
  "eval_expr n env syms = expr_with n (eval_operand n env syms)"

definition parse_atomic_term :: "nat \<Rightarrow> Env \<Rightarrow> Symbol list \<Rightarrow> Cur \<Rightarrow> (u32 \<times> Cur) pres" where
  "parse_atomic_term n env syms cur =
    (let (tok, cur1) = cur_next cur in eval_operand n env syms tok cur1)"

section \<open>Stream emission\<close>

definition stream_reset :: "Compiler \<Rightarrow> Compiler" where
  "stream_reset c = c\<lparr>stream_len := 0\<rparr>"

definition stream_push :: "Compiler \<Rightarrow> u32 \<Rightarrow> unit sres" where
  "stream_push c word =
    (if stream_len c \<ge> MAX_STREAM_WORDS then Some (Inl StreamFull, c)
     else Some (Inr (), c\<lparr>stream := (stream c)[stream_len c := word], stream_len := stream_len c + 1\<rparr>))"

definition stream_push_lit :: "Env \<Rightarrow> Compiler \<Rightarrow> u32 \<Rightarrow> unit sres" where
  "stream_push_lit env c value =
    sbind (stream_push c (env_word env lit_prim)) (\<lambda>_ c1. stream_push c1 value)"

definition stream_halt :: "Env \<Rightarrow> Compiler \<Rightarrow> unit sres" where
  "stream_halt env c = stream_push c (env_word env halt_prim)"

definition take_program :: "Compiler \<Rightarrow> bool \<Rightarrow> StreamProgram" where
  "take_program c yields =
    \<lparr>sp_words = copy_prefix (take (stream_len c) (stream c)) (replicate MAX_STREAM_WORDS 0),
     sp_len = stream_len c,
     sp_yields_value = yields\<rparr>"

definition build_value_program :: "Env \<Rightarrow> Compiler \<Rightarrow> u32 \<Rightarrow> StreamProgram sres" where
  "build_value_program env c value =
    sbind (stream_push_lit env (stream_reset c) value) (\<lambda>_ c1.
    sbind (stream_halt env c1) (\<lambda>_ c2.
    Some (Inr (take_program c2 True), c2)))"

definition fn_allocated :: "Compiler \<Rightarrow> nat \<Rightarrow> bool" where
  "fn_allocated c i \<longleftrightarrow> nb_len (fn_names c ! i) > 0"

definition find_fn :: "Compiler \<Rightarrow> string \<Rightarrow> nat option" where
  "find_fn c name = find_index MAX_FNS (\<lambda>i. fn_allocated c i \<and> eq_bytes (fn_names c ! i) name)"

text \<open>\<open>for w in 0..len { self.stream_push(self.fn_bodies[index][w])? }\<close>\<close>

fun push_words :: "Compiler \<Rightarrow> u32 list \<Rightarrow> unit sres" where
  "push_words c [] = Some (Inr (), c)"
| "push_words c (w # ws) = sbind (stream_push c w) (\<lambda>_ c1. push_words c1 ws)"

definition fn_body :: "Compiler \<Rightarrow> nat \<Rightarrow> u32 list" where
  "fn_body c i = map (\<lambda>w. fn_bodies c ! i ! w) [0..<fn_body_lens c ! i]"

definition build_call_program :: "Env \<Rightarrow> Compiler \<Rightarrow> string \<Rightarrow> StreamProgram sres" where
  "build_call_program env c name =
    (case find_fn c name of
       None \<Rightarrow> Some (Inl UnknownSymbol, c)
     | Some i \<Rightarrow>
         sbind (push_words (stream_reset c) (fn_body c i)) (\<lambda>_ c1.
         sbind (stream_halt env c1) (\<lambda>_ c2.
         Some (Inr (take_program c2 False), c2))))"

definition splice_call :: "Compiler \<Rightarrow> string \<Rightarrow> unit sres" where
  "splice_call c name =
    (case find_fn c name of
       None \<Rightarrow> Some (Inl UnknownSymbol, c)
     | Some i \<Rightarrow> push_words c (fn_body c i))"

definition alloc_fn_slot :: "Compiler \<Rightarrow> NameBuf \<Rightarrow> ParseError + nat" where
  "alloc_fn_slot c name =
    (if find_fn c (as_slice name) \<noteq> None then Inl DuplicateFn
     else (case find_index MAX_FNS (\<lambda>i. nb_len (fn_names c ! i) = 0) of
             Some i \<Rightarrow> Inr i
           | None \<Rightarrow> Inl FnTableFull))"

text \<open>The last lines of \<open>parse_fn\<close> and of \<open>import_fn\<close>: the body is copied into a free slot.\<close>

definition store_fn :: "Compiler \<Rightarrow> NameBuf \<Rightarrow> u32 list \<Rightarrow> (ParseError + unit) \<times> Compiler" where
  "store_fn c name words =
    (case alloc_fn_slot c name of
       Inl e \<Rightarrow> (Inl e, c)
     | Inr i \<Rightarrow>
         (Inr (), c\<lparr>fn_names := (fn_names c)[i := name],
            fn_body_lens := (fn_body_lens c)[i := length words],
            fn_bodies := (fn_bodies c)[i := copy_prefix words (fn_bodies c ! i)]\<rparr>))"

text \<open>\<open>export_fn\<close> copies the body into the front of a caller's buffer \<open>out\<close>.\<close>

definition export_fn :: "Compiler \<Rightarrow> string \<Rightarrow> u32 list \<Rightarrow> (nat \<times> u32 list) option" where
  "export_fn c name out =
    (case find_fn c name of
       None \<Rightarrow> None
     | Some i \<Rightarrow>
         (let len = fn_body_lens c ! i
          in if len > length out then None
             else Some (len, copy_prefix (take len (fn_bodies c ! i)) out)))"

definition import_fn :: "Compiler \<Rightarrow> string \<Rightarrow> u32 list \<Rightarrow> (ParseError + unit) \<times> Compiler" where
  "import_fn c name words =
    (if length name > NAME_MAX then (Inl NameTooLong, c)
     else if length words > FN_BODY_WORDS then (Inl StreamFull, c)
     else (case from_slice name of
             Inl e \<Rightarrow> (Inl e, c)
           | Inr nb \<Rightarrow> store_fn c nb words))"

section \<open>Statements of function bodies and loops\<close>

text \<open>\<open>poke ADDR VALUE;\<close> and \<open>peek ADDR;\<close> as compiled code, the keyword already taken; the same
  lines occur in \<open>parse_body_stmt\<close> and in the \<open>loop\<close> command.\<close>

definition compile_poke :: "nat \<Rightarrow> Env \<Rightarrow> Cur \<Rightarrow> Compiler \<Rightarrow> Cur sres" where
  "compile_poke n env cur c =
    sbind (pure c (parse_atomic_term n env (symbols c) cur)) (\<lambda>(addr, cur1) c.
    sbind (pure c (eval_expr n env (symbols c) None cur1)) (\<lambda>(val, cur2) c.
    sbind (pure c (expect_semicolon cur2)) (\<lambda>cur3 c.
    sbind (pure c (Some (check_cap env addr))) (\<lambda>_ c.
    sbind (stream_push_lit env c addr) (\<lambda>_ c.
    sbind (stream_push_lit env c val) (\<lambda>_ c.
    sbind (stream_push c (env_word env write_reg_prim)) (\<lambda>_ c.
    Some (Inr cur3, c))))))))"

definition compile_peek :: "nat \<Rightarrow> Env \<Rightarrow> Cur \<Rightarrow> Compiler \<Rightarrow> Cur sres" where
  "compile_peek n env cur c =
    sbind (pure c (parse_atomic_term n env (symbols c) cur)) (\<lambda>(addr, cur1) c.
    sbind (pure c (expect_semicolon cur1)) (\<lambda>cur2 c.
    sbind (pure c (Some (check_cap env addr))) (\<lambda>_ c.
    sbind (stream_push_lit env c addr) (\<lambda>_ c.
    sbind (stream_push c (env_word env load_reg_prim)) (\<lambda>_ c.
    Some (Inr cur2, c))))))"

text \<open>\<open>for i in body_start..body_end { self.stream_push(self.stream[i])? }\<close>, once per further
  iteration.\<close>

fun replay :: "Compiler \<Rightarrow> nat list \<Rightarrow> unit sres" where
  "replay c [] = Some (Inr (), c)"
| "replay c (i # is) = sbind (stream_push c (stream c ! i)) (\<lambda>_ c1. replay c1 is)"

fun unroll :: "nat \<Rightarrow> nat \<Rightarrow> nat \<Rightarrow> Compiler \<Rightarrow> unit sres" where
  "unroll body_start body_end 0 c = Some (Inr (), c)"
| "unroll body_start body_end (Suc k) c =
    (if stream_len c + (body_end - body_start) > MAX_STREAM_WORDS then Some (Inl StreamFull, c)
     else sbind (replay c [body_start..<body_end]) (\<lambda>_ c1. unroll body_start body_end k c1))"

definition loop_count_ok :: "u32 \<Rightarrow> bool" where
  "loop_count_ok count \<longleftrightarrow> \<not> (count = 0 \<or> count > of_nat MAX_LOOP_UNROLL)"

text \<open>What the first token of a statement of a body says.\<close>

datatype stmt_kind = SPoke | SPeek | SLoop | SOther string | SBad

definition stmt_of :: "Token \<Rightarrow> stmt_kind" where
  "stmt_of t =
    (case t of
       Identifier ident \<Rightarrow>
         if ident = ''poke'' then SPoke
         else if ident = ''peek'' then SPeek
         else if ident = ''loop'' then SLoop
         else SOther ident
     | _ \<Rightarrow> SBad)"

text \<open>A call, spliced into the stream, or a bare expression, evaluated and dropped.\<close>

definition body_other :: "nat \<Rightarrow> Env \<Rightarrow> string \<Rightarrow> Cur \<Rightarrow> Compiler \<Rightarrow> Cur sres" where
  "body_other n env ident cur c =
    (let (t, cur1) = cur_peek cur
     in if t = LParen then
          sbind (pure c (expect_token RParen (snd (cur_next cur1)))) (\<lambda>cur2 c.
          sbind (pure c (expect_semicolon cur2)) (\<lambda>cur3 c.
          sbind (splice_call c ident) (\<lambda>_ c.
          Some (Inr cur3, c))))
        else
          sbind (pure c (eval_expr n env (symbols c) (Some (Identifier ident)) cur1)) (\<lambda>(_, cur2) c.
          pure c (expect_semicolon cur2)))"

text \<open>\<open>body_block\<close> is the loop over the statements up to and including the closing brace, in
  \<open>parse_fn\<close> and in a nested \<open>loop\<close>.\<close>

fun parse_body_stmt :: "nat \<Rightarrow> Env \<Rightarrow> Cur \<Rightarrow> Compiler \<Rightarrow> Cur sres"
  and body_block :: "nat \<Rightarrow> Env \<Rightarrow> Cur \<Rightarrow> Compiler \<Rightarrow> Cur sres"
where
  "parse_body_stmt 0 env cur c = None"
| "parse_body_stmt (Suc n) env cur c =
    (let (t, cur1) = cur_next cur
     in case stmt_of t of
          SPoke \<Rightarrow> compile_poke n env cur1 c
        | SPeek \<Rightarrow> compile_peek n env cur1 c
        | SLoop \<Rightarrow>
            sbind (pure c (parse_atomic_term n env (symbols c) cur1)) (\<lambda>(count, cur2) c.
            if \<not> loop_count_ok count then Some (Inl LoopTooLarge, c)
            else
              sbind (pure c (expect_token LBrace cur2)) (\<lambda>cur3 c.
              sbind (body_block n env cur3 c) (\<lambda>cur4 c'.
              sbind (unroll (stream_len c) (stream_len c') (unat count - 1) c') (\<lambda>_ c''.
              Some (Inr cur4, c'')))))
        | SOther ident \<Rightarrow> body_other n env ident cur1 c
        | SBad \<Rightarrow> Some (Inl UnexpectedToken, c))"
| "body_block 0 env cur c = None"
| "body_block (Suc n) env cur c =
    (let (t, cur1) = cur_peek cur
     in if t = RBrace then Some (Inr (snd (cur_next cur1)), c)
        else if t = Eof then Some (Inl UnexpectedToken, c)
        else sbind (parse_body_stmt n env cur1 c) (\<lambda>cur2 c1. body_block n env cur2 c1))"

section \<open>Top-level statements\<close>

definition parse_let :: "nat \<Rightarrow> Env \<Rightarrow> Cur \<Rightarrow> Compiler \<Rightarrow> Outcome sres" where
  "parse_let n env cur c =
    sbind (pure c (expect_name cur)) (\<lambda>(name, cur1) c.
    sbind (pure c (expect_token (Operator CHR ''='') cur1)) (\<lambda>cur2 c.
    sbind (pure c (eval_expr n env (symbols c) None cur2)) (\<lambda>(value, cur3) c.
    sbind (pure c (expect_semicolon cur3)) (\<lambda>_ c.
    (case insert_symbol (symbols c) name value of
       Inl e \<Rightarrow> Some (Inl e, c)
     | Inr syms \<Rightarrow> Some (Inr (Bound name value), c\<lparr>symbols := syms\<rparr>))))))"

definition parse_fn :: "nat \<Rightarrow> Env \<Rightarrow> Cur \<Rightarrow> Compiler \<Rightarrow> Outcome sres" where
  "parse_fn n env cur c =
    sbind (pure c (expect_name cur)) (\<lambda>(name, cur1) c.
    sbind (pure c (expect_token LParen cur1)) (\<lambda>cur2 c.
    sbind (pure c (expect_token RParen cur2)) (\<lambda>cur3 c.
    sbind (pure c (expect_token LBrace cur3)) (\<lambda>cur4 c.
    sbind (body_block n env cur4 (c\<lparr>stream_len := 0\<rparr>)) (\<lambda>_ c.
    if stream_len c > FN_BODY_WORDS then Some (Inl StreamFull, c)
    else sbind (Some (store_fn c name (take (stream_len c) (stream c)))) (\<lambda>_ c.
         Some (Inr (FnDefined name), c)))))))"

text \<open>The statement loop of the \<open>loop\<close> command: only \<open>poke\<close> and \<open>peek\<close> are compiled, every other
  token is skipped.\<close>

fun loop_block :: "nat \<Rightarrow> Env \<Rightarrow> Cur \<Rightarrow> Compiler \<Rightarrow> Cur sres" where
  "loop_block 0 env cur c = None"
| "loop_block (Suc n) env cur c =
    (let (t, cur1) = cur_peek cur
     in if t = RBrace then Some (Inr (snd (cur_next cur1)), c)
        else if t = Eof then Some (Inl UnexpectedToken, c)
        else
          (let (t', cur2) = cur_next cur1
           in case stmt_of t' of
                SPoke \<Rightarrow> sbind (compile_poke n env cur2 c) (\<lambda>cur3 c1. loop_block n env cur3 c1)
              | SPeek \<Rightarrow> sbind (compile_peek n env cur2 c) (\<lambda>cur3 c1. loop_block n env cur3 c1)
              | _ \<Rightarrow> loop_block n env cur2 c))"

definition parse_loop :: "nat \<Rightarrow> Env \<Rightarrow> Cur \<Rightarrow> Compiler \<Rightarrow> Outcome sres" where
  "parse_loop n env cur c =
    sbind (pure c (parse_atomic_term n env (symbols c) cur)) (\<lambda>(count, cur1) c.
    if \<not> loop_count_ok count then Some (Inl LoopTooLarge, c)
    else
      sbind (pure c (expect_token LBrace cur1)) (\<lambda>cur2 c.
      sbind (loop_block n env cur2 (stream_reset c)) (\<lambda>_ c.
      sbind (unroll 0 (stream_len c) (unat count - 1) c) (\<lambda>_ c.
      sbind (stream_halt env c) (\<lambda>_ c.
      Some (Inr (Run (take_program c False)), c))))))"

definition check_timer_cap :: "Env \<Rightarrow> ParseError + unit" where
  "check_timer_cap env =
    check_cap env (case env_arch env of Riscv32 \<Rightarrow> 0x10015000 | _ \<Rightarrow> 0x40000000)"

definition check_spi_cap :: "Env \<Rightarrow> ParseError + unit" where
  "check_spi_cap env =
    check_cap env (case env_arch env of Riscv32 \<Rightarrow> 0x10014000 | _ \<Rightarrow> 0x40013000)"

section \<open>Commands\<close>

text \<open>Three shapes of commands: one atomic term, two atomic terms, a name; each ends with a
  semicolon and may then be subject to a capability check.\<close>

definition command1 ::
    "nat \<Rightarrow> Env \<Rightarrow> Cur \<Rightarrow> Compiler \<Rightarrow> (u32 \<Rightarrow> ParseError + unit) \<Rightarrow> (u32 \<Rightarrow> Outcome) \<Rightarrow> Outcome sres" where
  "command1 n env cur c check out =
    sbind (pure c (parse_atomic_term n env (symbols c) cur)) (\<lambda>(a, cur1) c.
    sbind (pure c (expect_semicolon cur1)) (\<lambda>_ c.
    sbind (pure c (Some (check a))) (\<lambda>_ c.
    Some (Inr (out a), c))))"

definition command2 ::
    "nat \<Rightarrow> Env \<Rightarrow> Cur \<Rightarrow> Compiler \<Rightarrow> (u32 \<Rightarrow> ParseError + unit) \<Rightarrow> (u32 \<Rightarrow> u32 \<Rightarrow> Outcome) \<Rightarrow> Outcome sres" where
  "command2 n env cur c check out =
    sbind (pure c (parse_atomic_term n env (symbols c) cur)) (\<lambda>(a, cur1) c.
    sbind (pure c (parse_atomic_term n env (symbols c) cur1)) (\<lambda>(b, cur2) c.
    sbind (pure c (expect_semicolon cur2)) (\<lambda>_ c.
    sbind (pure c (Some (check a))) (\<lambda>_ c.
    Some (Inr (out a b), c)))))"

definition command_name :: "Cur \<Rightarrow> Compiler \<Rightarrow> (NameBuf \<Rightarrow> Outcome) \<Rightarrow> Outcome sres" where
  "command_name cur c out =
    sbind (pure c (expect_name cur)) (\<lambda>(name, cur1) c.
    sbind (pure c (expect_semicolon cur1)) (\<lambda>_ c.
    Some (Inr (out name), c)))"

definition command_plain :: "Cur \<Rightarrow> Compiler \<Rightarrow> Outcome \<Rightarrow> Outcome sres" where
  "command_plain cur c out = (let cur1 = allow_optional_semicolon cur in Some (Inr out, c))"

definition command_poke :: "nat \<Rightarrow> Env \<Rightarrow> Cur \<Rightarrow> Compiler \<Rightarrow> Outcome sres" where
  "command_poke n env cur c =
    sbind (pure c (parse_atomic_term n env (symbols c) cur)) (\<lambda>(addr, cur1) c.
    sbind (pure c (eval_expr n env (symbols c) None cur1)) (\<lambda>(val, cur2) c.
    sbind (pure c (expect_semicolon cur2)) (\<lambda>_ c.
    sbind (pure c (Some (check_cap env addr))) (\<lambda>_ c.
    Some (Inr (EnforcedPoke addr val), c)))))"

definition command_value :: "nat \<Rightarrow> Env \<Rightarrow> Token \<Rightarrow> Cur \<Rightarrow> Compiler \<Rightarrow> Outcome sres" where
  "command_value n env first cur c =
    sbind (pure c (eval_expr n env (symbols c) (Some first) cur)) (\<lambda>(value, cur1) c.
    sbind (pure c (expect_semicolon cur1)) (\<lambda>_ c.
    sbind (build_value_program env c value) (\<lambda>program c.
    Some (Inr (Run program), c))))"

definition command_other :: "nat \<Rightarrow> Env \<Rightarrow> string \<Rightarrow> Cur \<Rightarrow> Compiler \<Rightarrow> Outcome sres" where
  "command_other n env ident cur c =
    (case cur_peek cur of
       (LParen, cur1) \<Rightarrow>
         sbind (pure c (expect_token RParen (snd (cur_next cur1)))) (\<lambda>cur2 c.
         sbind (pure c (expect_semicolon cur2)) (\<lambda>_ c.
         sbind (build_call_program env c ident) (\<lambda>program c.
         Some (Inr (Run program), c))))
     | (_, cur1) \<Rightarrow> command_value n env (Identifier ident) cur1 c)"

definition parse_command :: "nat \<Rightarrow> Env \<Rightarrow> string \<Rightarrow> Cur \<Rightarrow> Compiler \<Rightarrow> Outcome sres" where
  "parse_command n env ident cur c =
    (let free = (\<lambda>_. Inr ())
     in if ident = ''peek'' then command1 n env cur c (check_cap env) EnforcedPeek
        else if ident = ''poke'' then command_poke n env cur c
        else if ident = ''cap_claim'' then command_name cur c Claim
        else if ident = ''cap_drop'' then command_name cur c Drop
        else if ident = ''reg_set_bit'' then command2 n env cur c (check_cap env) SetBit
        else if ident = ''reg_clr_bit'' then command2 n env cur c (check_cap env) ClrBit
        else if ident = ''help'' then command_plain cur c Help
        else if ident = ''banner'' then command_plain cur c Banner
        else if ident = ''sys_audit'' then command_plain cur c SysAudit
        else if ident = ''bench'' then command_plain cur c Bench
        else if ident = ''pwm'' then command2 n env cur c (\<lambda>_. check_timer_cap env) Pwm
        else if ident = ''pwm_duty'' then command1 n env cur c (\<lambda>_. check_timer_cap env) PwmDuty
        else if ident = ''store'' then command_name cur c Store
        else if ident = ''load'' then command_name cur c Load
        else if ident = ''store_list'' then command_plain cur c StoreList
        else if ident = ''loop'' then parse_loop n env cur c
        else if ident = ''flash_test'' then command_plain cur c FlashTest
        else if ident = ''pool_alloc'' then command1 n env cur c free PoolAlloc
        else if ident = ''pool_free'' then command_plain cur c PoolFree
        else if ident = ''pool_stats;'' \<or> ident = ''pool_stats'' then Some (Inr PoolStats, c)
        else if ident = ''spawn'' then command_name cur c Spawn
        else if ident = ''spi_tx'' then command1 n env cur c (\<lambda>_. check_spi_cap env) (\<lambda>b. SpiTx (ucast b))
        else command_other n env ident cur c)"

definition parse_fuel :: "string \<Rightarrow> nat" where
  "parse_fuel line = 3 * length line + 10"

definition parse_line :: "nat \<Rightarrow> Env \<Rightarrow> string \<Rightarrow> Compiler \<Rightarrow> Outcome sres" where
  "parse_line n env line c =
    (case cur_next (cur_new line) of
       (Eof, cur) \<Rightarrow> Some (Inl EmptyLine, c)
     | (KwLet, cur) \<Rightarrow> parse_let n env cur c
     | (KwFn, cur) \<Rightarrow> parse_fn n env cur c
     | (Identifier ident, cur) \<Rightarrow> parse_command n env ident cur c
     | (Literal v, cur) \<Rightarrow> command_value n env (Literal v) cur c
     | (Operator op, cur) \<Rightarrow> command_value n env (Operator op) cur c
     | (LParen, cur) \<Rightarrow> command_value n env LParen cur c
     | (TokError msg, cur) \<Rightarrow> Some (Inl (LexError msg), c)
     | _ \<Rightarrow> Some (Inl UnexpectedToken, c))"

definition parse :: "Env \<Rightarrow> string \<Rightarrow> Compiler \<Rightarrow> Outcome sres" where
  "parse env line c = parse_line (parse_fuel line) env line c"

text \<open>The names of the live functions, as \<open>fn_names_iter\<close> yields them.\<close>

definition fn_names_iter :: "Compiler \<Rightarrow> string list" where
  "fn_names_iter c =
    map (\<lambda>i. as_slice (fn_names c ! i)) (filter (\<lambda>i. nb_len (fn_names c ! i) > 0) [0..<MAX_FNS])"

text \<open>The iterator itself: \<open>next\<close> skips free slots and yields a copy of the name, padded with zeros, and its length. The loop
  that draws from it until it ends sees the names of \<open>fn_names_iter\<close>.\<close>

function fn_names_next :: "Compiler \<Rightarrow> nat \<Rightarrow> (string \<times> nat) option \<times> nat" where
  "fn_names_next c next =
    (if next < MAX_FNS then
       (let name = fn_names c ! next
        in if nb_len name > 0
           then (Some (copy_prefix (as_slice name) (replicate NAME_MAX (CHR 0x00)), nb_len name), next + 1)
           else fn_names_next c (next + 1))
     else (None, next))"
  by pat_completeness auto
termination
  by (relation "measure (\<lambda>(c, next). MAX_FNS - next)") auto

declare fn_names_next.simps [simp del]

fun draw_names :: "nat \<Rightarrow> Compiler \<Rightarrow> nat \<Rightarrow> string list" where
  "draw_names 0 c next = []"
| "draw_names (Suc n) c next =
    (case fn_names_next c next of (None, _) \<Rightarrow> [] | (Some (buf, len), next') \<Rightarrow> take len buf # draw_names n c next')"

lemma draw_names_iter:
  assumes "\<forall>i<MAX_FNS. nb_len (fn_names c ! i) \<le> length (nb_bytes (fn_names c ! i))"
  shows "draw_names (Suc MAX_FNS) c 0 = fn_names_iter c"
proof -
  have at_end: "fn_names_next c (Suc (Suc 0)) = (None, Suc (Suc 0))"
    by (subst fn_names_next.simps) (simp add: MAX_FNS_def)
  have "take (nb_len (fn_names c ! i)) (copy_prefix (as_slice (fn_names c ! i)) ys) = as_slice (fn_names c ! i)" if "i < MAX_FNS" for i ys
    using assms that take_copy_prefix [of "as_slice (fn_names c ! i)" ys] by (simp add: as_slice_def min_absorb2)
  then show ?thesis
    by (simp add: fn_names_iter_def MAX_FNS_def numeral_2_eq_2 fn_names_next.simps [of c 0] fn_names_next.simps [of c "Suc 0"] at_end Let_def)
qed

end
