(* ===== verification/Parser_Safety.thy ===== *)
theory Parser_Safety
  imports Parser
begin

text \<open>
  What the parser guarantees: it always returns, it keeps the compiler well formed, and every
  register access it compiles was granted by the capability registry. The proofs follow the
  structure of the parser with two predicates on results, one for expression parsers and one
  for statement parsers, whose rules for the binds carry the case analysis.
\<close>

section \<open>The cursor\<close>

definition cur_size :: "Cur \<Rightarrow> nat" where
  "cur_size cur =
    length (lx_rest (cur_lx cur)) + (case cur_ahead cur of Some t \<Rightarrow> of_bool (t \<noteq> Eof) | None \<Rightarrow> 0)"

lemma next_token_rest:
  "length (lx_rest (snd (next_token lx))) + of_bool (fst (next_token lx) \<noteq> Eof) \<le> length (lx_rest lx)"
proof -
  obtain n where "n \<le> length (lx_rest lx)" "lx_cursor (snd (next_token lx)) = lx_cursor lx + n"
    "lx_stream (snd (next_token lx)) = lx_stream lx" "fst (next_token lx) \<noteq> Eof \<longrightarrow> 0 < n"
    using next_token_step [of lx] by (auto simp: tok_step_def split: if_splits)
  then show ?thesis
    by (auto simp: lx_rest_def)
qed

lemma cur_next_size:
  "cur_next cur = (t, cur') \<Longrightarrow> cur_size cur' + of_bool (t \<noteq> Eof) \<le> cur_size cur"
  using next_token_rest [of "cur_lx cur"]
  by (auto simp: cur_next_def cur_size_def split: option.splits prod.splits)

lemma cur_next_less: "cur_next cur = (t, cur') \<Longrightarrow> t \<noteq> Eof \<Longrightarrow> cur_size cur' < cur_size cur"
  using cur_next_size by fastforce

lemma cur_next_le: "cur_next cur = (t, cur') \<Longrightarrow> cur_size cur' \<le> cur_size cur"
  using cur_next_size by fastforce

lemma cur_peek_size:
  "cur_peek cur = (t, cur') \<Longrightarrow> cur_size cur' \<le> cur_size cur \<and> fst (cur_next cur') = t"
  using next_token_rest [of "cur_lx cur"]
  by (auto simp: cur_peek_def cur_next_def cur_size_def split: option.splits prod.splits)

lemma cur_peek_next_less:
  assumes "cur_peek cur = (t, cur1)" "cur_next cur1 = (t', cur2)" "t \<noteq> Eof"
  shows "t' = t \<and> cur_size cur2 < cur_size cur"
  using cur_peek_size [OF assms(1)] cur_next_less [OF assms(2)] assms(2,3) by auto

section \<open>Expression parsers return\<close>

definition pok :: "'a pres \<Rightarrow> ('a \<Rightarrow> bool) \<Rightarrow> bool" where
  "pok r P \<longleftrightarrow> (case r of None \<Rightarrow> False | Some (Inl e) \<Rightarrow> True | Some (Inr x) \<Rightarrow> P x)"

lemma pok_simps [simp]:
  "\<not> pok None P" "pok (Some (Inl e)) P" "pok (Some (Inr x)) P \<longleftrightarrow> P x"
  by (simp_all add: pok_def)

lemma pok_bind:
  "pok r P \<Longrightarrow> (\<And>x. P x \<Longrightarrow> pok (f x) Q) \<Longrightarrow> pok (pbind r f) Q"
  unfolding pok_def pbind_def by (cases r) (simp_all split: sum.splits)

lemma pok_mono: "pok r P \<Longrightarrow> (\<And>x. P x \<Longrightarrow> Q x) \<Longrightarrow> pok r Q"
  by (auto simp: pok_def split: option.splits sum.splits)

lemma pok_expect_token: "t \<noteq> Eof \<Longrightarrow> pok (expect_token t cur) (\<lambda>cur'. cur_size cur' < cur_size cur)"
  by (auto simp: expect_token_def Let_def split: prod.split intro: cur_next_less)

lemma pok_expect_semicolon: "pok (expect_semicolon cur) (\<lambda>cur'. cur_size cur' \<le> cur_size cur)"
  by (auto simp: expect_semicolon_def split: prod.split Token.split intro: cur_next_le)

lemma pok_expect_name:
  "pok (expect_name cur) (\<lambda>(nb, cur'). cur_size cur' < cur_size cur
    \<and> (\<exists>name. from_slice name = Inr nb))"
  by (auto simp: expect_name_def split: prod.split Token.split sum.split intro: cur_next_less)

text \<open>An operand parser that returns on every cursor smaller than a bound, and at once on \<open>Eof\<close>.\<close>

definition operand_ok :: "nat \<Rightarrow> operand_parser \<Rightarrow> bool" where
  "operand_ok b operand \<longleftrightarrow>
    (\<forall>tok cur. tok = Eof \<or> cur_size cur < b \<longrightarrow>
      pok (operand tok cur) (\<lambda>(v, cur'). cur_size cur' \<le> cur_size cur))"

lemma operand_next:
  assumes "operand_ok b operand" "cur_next cur = (tok, cur1)" "cur_size cur \<le> b"
  shows "pok (operand tok cur1) (\<lambda>(v, cur'). cur_size cur' \<le> cur_size cur
    \<and> (tok \<noteq> Eof \<longrightarrow> cur_size cur' < cur_size cur))"
proof -
  have "tok = Eof \<or> cur_size cur1 < b"
    using cur_next_less [OF assms(2)] assms(3) by fastforce
  then have "pok (operand tok cur1) (\<lambda>(v, cur'). cur_size cur' \<le> cur_size cur1)"
    using assms(1) by (auto simp: operand_ok_def)
  then show ?thesis
    by (rule pok_mono) (use cur_next_le [OF assms(2)] cur_next_less [OF assms(2)] in fastforce)
qed

lemma pok_eval_ops:
  assumes "operand_ok b operand"
  shows "cur_size cur \<le> b \<Longrightarrow> cur_size cur < n \<Longrightarrow>
    pok (eval_ops n operand acc cur) (\<lambda>(v, cur'). cur_size cur' \<le> cur_size cur)"
proof (induction n arbitrary: acc cur)
  case (Suc n)
  obtain t cur1 where pk: "cur_peek cur = (t, cur1)"
    by fastforce
  have size1: "cur_size cur1 \<le> cur_size cur"
    using cur_peek_size [OF pk] by simp
  show ?case
  proof (cases "arith_op t")
    case None
    then show ?thesis
      using pk size1 by simp
  next
    case (Some op)
    then have t: "t \<noteq> Eof"
      by (auto simp: arith_op_def)
    obtain t' cur2 where nx: "cur_next cur1 = (t', cur2)"
      by fastforce
    obtain rt cur3 where nx2: "cur_next cur2 = (rt, cur3)"
      by fastforce
    have size2: "cur_size cur2 < cur_size cur"
      using cur_peek_next_less [OF pk nx t] by simp
    have "pok (operand rt cur3) (\<lambda>(v, cur'). cur_size cur' \<le> cur_size cur2)"
      by (rule pok_mono [OF operand_next [OF assms nx2]]) (use size2 Suc.prems in auto)
    then have "pok (pbind (operand rt cur3) (\<lambda>(rhs, cur4). case apply_op op acc rhs of
        Inl e \<Rightarrow> Some (Inl e) | Inr acc' \<Rightarrow> eval_ops n operand acc' cur4))
      (\<lambda>(v, cur'). cur_size cur' \<le> cur_size cur)"
    proof (rule pok_bind, clarify)
      fix rhs cur4 assume "cur_size cur4 \<le> cur_size cur2"
      then have "pok (eval_ops n operand acc' cur4) (\<lambda>(v, cur'). cur_size cur' \<le> cur_size cur)" for acc'
        using size2 Suc.prems by (intro pok_mono [OF Suc.IH]) auto
      then show "pok (case apply_op op acc rhs of
          Inl e \<Rightarrow> Some (Inl e) | Inr acc' \<Rightarrow> eval_ops n operand acc' cur4)
        (\<lambda>(v, cur'). cur_size cur' \<le> cur_size cur)"
        by (cases "apply_op op acc rhs") simp_all
    qed
    then show ?thesis
      using Some by (simp add: pk nx nx2)
  qed
qed simp

lemma pok_expr_with:
  assumes "operand_ok b operand"
    and "cur_size cur < n" and "case first of None \<Rightarrow> cur_size cur \<le> b | Some t \<Rightarrow> cur_size cur < b"
  shows "pok (expr_with n operand first cur) (\<lambda>(v, cur'). cur_size cur' \<le> cur_size cur)"
proof -
  obtain head cur1 where h: "(case first of Some t \<Rightarrow> (t, cur) | None \<Rightarrow> cur_next cur) = (head, cur1)"
    by fastforce
  have "pok (operand head cur1) (\<lambda>(v, cur'). cur_size cur' \<le> cur_size cur)"
  proof (cases first)
    case None
    with h assms(3) show ?thesis
      by (intro pok_mono [OF operand_next [OF assms(1)]]) auto
  next
    case (Some t)
    with h assms show ?thesis
      by (simp add: operand_ok_def)
  qed
  then show ?thesis
    unfolding expr_with_def h Let_def prod.case
  proof (rule pok_bind, clarify)
    fix v cur2 assume "cur_size cur2 \<le> cur_size cur"
    then show "pok (eval_ops n operand v cur2) (\<lambda>(v, cur'). cur_size cur' \<le> cur_size cur)"
      using assms(2,3) by (intro pok_mono [OF pok_eval_ops [OF assms(1)]]) (auto split: option.splits)
  qed
qed

lemma operand_ok_eval_operand: "operand_ok b (eval_operand (b + 1) env syms)"
proof (induction b)
  case 0
  then show ?case
    by (simp add: operand_ok_def resolve_term_def term_value_def)
next
  case (Suc b)
  show ?case
    unfolding operand_ok_def
  proof (intro allI impI)
    fix tok cur assume bound: "tok = Eof \<or> cur_size cur < Suc b"
    let ?op = "eval_operand (b + 1) env syms"
    show "pok (eval_operand (Suc b + 1) env syms tok cur) (\<lambda>(v, cur'). cur_size cur' \<le> cur_size cur)"
    proof (cases "tok = LParen")
      case True
      have "pok (expr_with (Suc b) ?op None cur) (\<lambda>(v, cur'). cur_size cur' \<le> cur_size cur)"
        using bound True by (intro pok_expr_with [OF Suc]) auto
      then have "pok (pbind (expr_with (Suc b) ?op None cur) (\<lambda>(val, cur1).
          pbind (expect_token RParen cur1) (\<lambda>cur2. Some (Inr (val, cur2)))))
        (\<lambda>(v, cur'). cur_size cur' \<le> cur_size cur)"
        by (rule pok_bind) (auto intro!: pok_bind [OF pok_expect_token])
      then show ?thesis
        using True by simp
    next
      case False
      have "pok (resolve_term ?op env syms tok cur) (\<lambda>(v, cur'). cur_size cur' \<le> cur_size cur)"
      proof (cases "term_value syms tok = Inr None")
        case peek: True
        then have "tok \<noteq> Eof"
          by (auto simp: term_value_def)
        obtain tok' cur1 where nx: "cur_next cur = (tok', cur1)"
          by fastforce
        have "pok (?op tok' cur1) (\<lambda>(v, cur'). cur_size cur' \<le> cur_size cur)"
          by (rule pok_mono [OF operand_next [OF Suc nx]]) (use bound \<open>tok \<noteq> Eof\<close> in auto)
        then show ?thesis
          unfolding resolve_term_def peek sum.case option.case nx Let_def prod.case
          by (rule pok_bind) auto
      qed (auto simp: resolve_term_def split: sum.split option.split)
      then show ?thesis
        using False by simp
    qed
  qed
qed

lemma operand_ok_mono: "operand_ok b operand \<Longrightarrow> a \<le> b \<Longrightarrow> operand_ok a operand"
  by (auto simp: operand_ok_def)

text \<open>Fuel one above the size of the cursor is enough for an expression or a term.\<close>

lemma pok_eval_expr:
  assumes "cur_size cur + 2 \<le> n"
  shows "pok (eval_expr n env syms first cur) (\<lambda>(v, cur'). cur_size cur' \<le> cur_size cur)"
proof -
  have "operand_ok (n - 1) (eval_operand n env syms)"
    using operand_ok_eval_operand [of "n - 1" env syms] assms by simp
  then show ?thesis
    unfolding eval_expr_def
    by (rule pok_expr_with) (use assms in \<open>auto split: option.split\<close>)
qed

lemma pok_parse_atomic_term:
  assumes "cur_size cur + 2 \<le> n"
  shows "pok (parse_atomic_term n env syms cur) (\<lambda>(v, cur'). cur_size cur' \<le> cur_size cur)"
proof -
  obtain tok cur1 where nx: "cur_next cur = (tok, cur1)"
    by fastforce
  have "operand_ok (n - 1) (eval_operand n env syms)"
    using operand_ok_eval_operand [of "n - 1" env syms] assms by simp
  then have "pok (eval_operand n env syms tok cur1) (\<lambda>(v, cur'). cur_size cur' \<le> cur_size cur)"
    by (intro pok_mono [OF operand_next [OF _ nx]]) (use assms in auto)
  then show ?thesis
    by (simp add: parse_atomic_term_def nx)
qed


section \<open>Statement parsers\<close>

text \<open>\<open>sok E r P\<close>: the parser returned, and on an error the compiler satisfies \<open>E\<close>, otherwise
  value and compiler satisfy \<open>P\<close>.\<close>

definition sok :: "(Compiler \<Rightarrow> bool) \<Rightarrow> 'a sres \<Rightarrow> ('a \<Rightarrow> Compiler \<Rightarrow> bool) \<Rightarrow> bool" where
  "sok E r P \<longleftrightarrow>
    (case r of None \<Rightarrow> False | Some (Inl e, c) \<Rightarrow> E c | Some (Inr x, c) \<Rightarrow> P x c)"

lemma sok_simps [simp]:
  "\<not> sok E None P" "sok E (Some (Inl e, c)) P \<longleftrightarrow> E c" "sok E (Some (Inr x, c)) P \<longleftrightarrow> P x c"
  by (simp_all add: sok_def)

lemma sres_cases:
  obtains (out_of_fuel) "r = None" | (error) e c where "r = Some (Inl e, c)"
    | (result) x c where "r = Some (Inr x, c)"
  by (metis not_None_eq old.sum.exhaust surj_pair)

lemma sbind_simps [simp]:
  "sbind None f = None" "sbind (Some (Inl e, c)) f = Some (Inl e, c)" "sbind (Some (Inr x, c)) f = f x c"
  by (simp_all add: sbind_def)

lemma sok_bind:
  "sok E r P \<Longrightarrow> (\<And>x c. P x c \<Longrightarrow> sok E (f x c) Q) \<Longrightarrow> sok E (sbind r f) Q"
  by (cases r rule: sres_cases) simp_all

lemma sok_mono: "sok E r P \<Longrightarrow> (\<And>x c. P x c \<Longrightarrow> Q x c) \<Longrightarrow> sok E r Q"
  by (cases r rule: sres_cases) simp_all

text \<open>A parser that does not touch the compiler.\<close>

lemma sok_pure: "pok r P \<Longrightarrow> E c \<Longrightarrow> sok E (pure c r) (\<lambda>x c'. P x \<and> c' = c)"
  by (auto simp: sok_def pok_def pure_def split: option.splits sum.splits)

lemma sok_pure_bind:
  assumes "pok r P" "E c" "\<And>x. P x \<Longrightarrow> sok E (f x c) Q"
  shows "sok E (sbind (pure c r) f) Q"
  by (rule sok_bind [where P = "\<lambda>x c'. P x \<and> c' = c"])
    (use assms sok_pure [of r P E c] in auto)

section \<open>Well-formed compilers\<close>

text \<open>\<open>regs_code wof A ws\<close>: the words are a register program whose addresses are all in \<open>A\<close>.\<close>

definition regs_code :: "(prim \<Rightarrow> u32) \<Rightarrow> u32 set \<Rightarrow> u32 list \<Rightarrow> bool" where
  "regs_code wof A ws \<longleftrightarrow> (\<exists>acts. ws = code_words wof (acts_code acts) \<and> act_addr ` set acts \<subseteq> A)"

definition emitted :: "Compiler \<Rightarrow> u32 list" where
  "emitted c = take (stream_len c) (stream c)"

definition comp_inv :: "(prim \<Rightarrow> u32) \<Rightarrow> u32 set \<Rightarrow> Compiler \<Rightarrow> bool" where
  "comp_inv wof A c \<longleftrightarrow>
    symbols_inv (symbols c)
    \<and> length (fn_names c) = MAX_FNS \<and> length (fn_bodies c) = MAX_FNS \<and> length (fn_body_lens c) = MAX_FNS
    \<and> length (stream c) = MAX_STREAM_WORDS \<and> stream_len c \<le> MAX_STREAM_WORDS
    \<and> (\<forall>i<MAX_FNS. length (fn_bodies c ! i) = FN_BODY_WORDS \<and> fn_body_lens c ! i \<le> FN_BODY_WORDS
        \<and> (fn_allocated c i \<longrightarrow> regs_code wof A (fn_body c i)))"

lemma regs_code_Nil [simp]: "regs_code wof A []"
  by (auto simp: regs_code_def intro: exI [of _ "[]"])

lemma regs_code_append: "regs_code wof A ws \<Longrightarrow> regs_code wof A vs \<Longrightarrow> regs_code wof A (ws @ vs)"
  unfolding regs_code_def
proof (elim exE conjE)
  fix acts acts' assume "ws = code_words wof (acts_code acts)" "act_addr ` set acts \<subseteq> A"
    "vs = code_words wof (acts_code acts')" "act_addr ` set acts' \<subseteq> A"
  then show "\<exists>acts. ws @ vs = code_words wof (acts_code acts) \<and> act_addr ` set acts \<subseteq> A"
    by (intro exI [of _ "acts @ acts'"]) auto
qed

lemma regs_code_replicate: "regs_code wof A ws \<Longrightarrow> regs_code wof A (concat (replicate k ws))"
  by (induction k) (auto intro: regs_code_append)

lemma regs_code_poke: "a \<in> A \<Longrightarrow> regs_code wof A [wof lit_prim, a, wof lit_prim, v, wof write_reg_prim]"
  unfolding regs_code_def by (intro exI [of _ "[APoke a v]"]) simp

lemma regs_code_peek: "a \<in> A \<Longrightarrow> regs_code wof A [wof lit_prim, a, wof load_reg_prim]"
  unfolding regs_code_def by (intro exI [of _ "[APeek a]"]) simp

lemma comp_inv_stream_len: "comp_inv wof A c \<Longrightarrow> comp_inv wof A (c\<lparr>stream_len := 0\<rparr>)"
  by (simp add: comp_inv_def fn_allocated_def fn_body_def)

lemma length_emitted: "comp_inv wof A c \<Longrightarrow> length (emitted c) = stream_len c"
  by (simp add: comp_inv_def emitted_def)

text \<open>Each emission appends to what was emitted and keeps the rest.\<close>

lemma sok_stream_push:
  assumes "comp_inv wof A c"
  shows "sok (comp_inv wof A) (stream_push c w) (\<lambda>_ c'. comp_inv wof A c' \<and> emitted c' = emitted c @ [w])"
  using assms
  by (auto simp: stream_push_def comp_inv_def emitted_def fn_allocated_def fn_body_def
      take_Suc_conv_app_nth)

lemma sok_stream_push_lit:
  assumes "comp_inv wof A c" "wof = env_word env"
  shows "sok (comp_inv wof A) (stream_push_lit env c v)
    (\<lambda>_ c'. comp_inv wof A c' \<and> emitted c' = emitted c @ [wof lit_prim, v])"
  unfolding stream_push_lit_def assms(2) [symmetric]
  by (rule sok_bind [OF sok_stream_push [OF assms(1)]], rule sok_mono [OF sok_stream_push]) auto

lemma sok_push_words:
  "comp_inv wof A c \<Longrightarrow>
    sok (comp_inv wof A) (push_words c ws) (\<lambda>_ c'. comp_inv wof A c' \<and> emitted c' = emitted c @ ws)"
proof (induction ws arbitrary: c)
  case (Cons w ws)
  show ?case
    unfolding push_words.simps
    by (rule sok_bind [OF sok_stream_push [OF Cons.prems]], rule sok_mono [OF Cons.IH]) auto
qed simp

lemma nth_emitted:
  "comp_inv wof A c \<Longrightarrow> i < stream_len c \<Longrightarrow> stream c ! i = emitted c ! i"
  by (simp add: emitted_def)

lemma sok_replay:
  "comp_inv wof A c \<Longrightarrow> \<forall>i\<in>set is. i < stream_len c \<Longrightarrow>
    sok (comp_inv wof A) (replay c is)
      (\<lambda>_ c'. comp_inv wof A c' \<and> emitted c' = emitted c @ map ((!) (emitted c)) is)"
proof (induction "is" arbitrary: c)
  case (Cons i "is")
  have i: "stream c ! i = emitted c ! i"
    using Cons.prems by (intro nth_emitted) auto
  show ?case
    unfolding replay.simps i
  proof (rule sok_bind [OF sok_stream_push [OF Cons.prems(1)]])
    fix c' assume c': "comp_inv wof A c' \<and> emitted c' = emitted c @ [emitted c ! i]"
    then have len: "stream_len c' = Suc (stream_len c)"
      using Cons.prems(1) length_emitted [of wof A c] length_emitted [of wof A c'] by simp
    have "sok (comp_inv wof A) (replay c' is)
      (\<lambda>_ c''. comp_inv wof A c'' \<and> emitted c'' = emitted c' @ map ((!) (emitted c')) is)"
      using c' len Cons.prems(2) by (intro Cons.IH) auto
    moreover have "map ((!) (emitted c')) is = map ((!) (emitted c)) is"
      using c' Cons.prems length_emitted [OF Cons.prems(1)] by (auto simp: nth_append)
    ultimately show "sok (comp_inv wof A) (replay c' is)
      (\<lambda>_ c''. comp_inv wof A c'' \<and> emitted c'' = emitted c @ map ((!) (emitted c)) (i # is))"
      using c' by (auto elim!: sok_mono)
  qed
qed simp


lemma map_nth_upt: "e \<le> length xs \<Longrightarrow> map ((!) xs) [s..<e] = drop s (take e xs)"
  by (auto intro!: nth_equalityI)

text \<open>A loop body is repeated word for word.\<close>

lemma sok_unroll:
  "comp_inv wof A c \<Longrightarrow> e \<le> stream_len c \<Longrightarrow>
    sok (comp_inv wof A) (unroll s e k c)
      (\<lambda>_ c'. comp_inv wof A c' \<and> emitted c' = emitted c @ concat (replicate k (drop s (take e (emitted c)))))"
proof (induction k arbitrary: c)
  case (Suc k)
  let ?b = "drop s (take e (emitted c))"
  have len: "length (emitted c) = stream_len c"
    using length_emitted [OF Suc.prems(1)] .
  have "sok (comp_inv wof A) (sbind (replay c [s..<e]) (\<lambda>_ c1. unroll s e k c1))
      (\<lambda>_ c'. comp_inv wof A c' \<and> emitted c' = emitted c @ concat (replicate (Suc k) ?b))"
  proof (rule sok_bind [OF sok_replay [OF Suc.prems(1)]])
    show "\<forall>i\<in>set [s..<e]. i < stream_len c"
      using Suc.prems(2) by auto
    fix c1 assume "comp_inv wof A c1 \<and> emitted c1 = emitted c @ map ((!) (emitted c)) [s..<e]"
    then have c1: "comp_inv wof A c1" "emitted c1 = emitted c @ ?b"
      using Suc.prems(2) len by (simp_all add: map_nth_upt)
    then have "stream_len c \<le> stream_len c1"
      using len length_emitted [OF c1(1)] by simp
    then have "sok (comp_inv wof A) (unroll s e k c1)
        (\<lambda>_ c'. comp_inv wof A c' \<and> emitted c' = emitted c1 @ concat (replicate k (drop s (take e (emitted c1)))))"
      using c1(1) Suc.prems(2) by (intro Suc.IH) auto
    moreover have "drop s (take e (emitted c1)) = ?b"
      using c1(2) Suc.prems(2) len by simp
    ultimately show "sok (comp_inv wof A) (unroll s e k c1)
        (\<lambda>_ c'. comp_inv wof A c' \<and> emitted c' = emitted c @ concat (replicate (Suc k) ?b))"
      using c1(2) by (auto elim!: sok_mono)
  qed
  then show ?case
    using Suc.prems(1) by simp
qed simp

text \<open>\<open>adds wof A c c'\<close>: the compiler is well formed and register code was appended.\<close>

definition adds :: "(prim \<Rightarrow> u32) \<Rightarrow> u32 set \<Rightarrow> Compiler \<Rightarrow> Compiler \<Rightarrow> bool" where
  "adds wof A c c' \<longleftrightarrow> comp_inv wof A c' \<and> (\<exists>ws. emitted c' = emitted c @ ws \<and> regs_code wof A ws)"

lemma adds_refl: "comp_inv wof A c \<Longrightarrow> adds wof A c c"
  by (auto simp: adds_def intro: exI [of _ "[]"])

lemma adds_trans: "adds wof A c c' \<Longrightarrow> adds wof A c' c'' \<Longrightarrow> adds wof A c c''"
  unfolding adds_def using regs_code_append by fastforce

definition grants :: "Env \<Rightarrow> u32 set \<Rightarrow> bool" where
  "grants env A \<longleftrightarrow> (\<forall>a. check_cap env a = Inr () \<longrightarrow> a \<in> A)"

lemma pok_check: "pok (Some (check_cap env a)) (\<lambda>_. check_cap env a = Inr ())"
  by (cases "check_cap env a") simp_all

text \<open>The state shared by the following lemmas.\<close>

definition stmt_pre :: "Env \<Rightarrow> u32 set \<Rightarrow> Compiler \<Rightarrow> bool" where
  "stmt_pre env A c \<longleftrightarrow> comp_inv (env_word env) A c \<and> grants env A"

lemma stmt_preD: "stmt_pre env A c \<Longrightarrow> comp_inv (env_word env) A c" "stmt_pre env A c \<Longrightarrow> grants env A"
  by (simp_all add: stmt_pre_def)

lemma stmt_pre_adds: "stmt_pre env A c \<Longrightarrow> adds (env_word env) A c c' \<Longrightarrow> stmt_pre env A c'"
  by (simp add: stmt_pre_def adds_def)

lemma sok_emit_poke:
  assumes pre: "stmt_pre env A c" and "check_cap env addr = Inr ()"
  shows "sok (comp_inv (env_word env) A)
      (sbind (stream_push_lit env c addr) (\<lambda>_ c.
       sbind (stream_push_lit env c val) (\<lambda>_ c.
       sbind (stream_push c (env_word env write_reg_prim)) (\<lambda>_ c.
       Some (Inr cur, c)))))
      (\<lambda>cur' c'. cur' = cur \<and> adds (env_word env) A c c')"
proof (rule sok_bind [OF sok_stream_push_lit [OF stmt_preD(1) [OF pre] refl]])
  let ?w = "env_word env"
  have "addr \<in> A"
    using assms by (simp add: stmt_pre_def grants_def)
  fix c1 assume c1: "comp_inv ?w A c1 \<and> emitted c1 = emitted c @ [?w lit_prim, addr]"
  show "sok (comp_inv ?w A)
    (sbind (stream_push_lit env c1 val) (\<lambda>_ c.
     sbind (stream_push c (?w write_reg_prim)) (\<lambda>_ c.
     Some (Inr cur, c)))) (\<lambda>cur' c'. cur' = cur \<and> adds ?w A c c')"
  proof (rule sok_bind [OF sok_stream_push_lit [OF conjunct1 [OF c1] refl]])
    fix c2 assume c2: "comp_inv ?w A c2 \<and> emitted c2 = emitted c1 @ [?w lit_prim, val]"
    show "sok (comp_inv ?w A) (sbind (stream_push c2 (?w write_reg_prim)) (\<lambda>_ c. Some (Inr cur, c)))
        (\<lambda>cur' c'. cur' = cur \<and> adds ?w A c c')"
      by (rule sok_bind [OF sok_stream_push [OF conjunct1 [OF c2]]])
        (use c1 c2 regs_code_poke [OF \<open>addr \<in> A\<close>, of ?w val] in \<open>simp add: adds_def\<close>)
  qed
qed

lemma sok_emit_peek:
  assumes pre: "stmt_pre env A c" and "check_cap env addr = Inr ()"
  shows "sok (comp_inv (env_word env) A)
      (sbind (stream_push_lit env c addr) (\<lambda>_ c.
       sbind (stream_push c (env_word env load_reg_prim)) (\<lambda>_ c.
       Some (Inr cur, c))))
      (\<lambda>cur' c'. cur' = cur \<and> adds (env_word env) A c c')"
proof (rule sok_bind [OF sok_stream_push_lit [OF stmt_preD(1) [OF pre] refl]])
  let ?w = "env_word env"
  have "addr \<in> A"
    using assms by (simp add: stmt_pre_def grants_def)
  fix c1 assume c1: "comp_inv ?w A c1 \<and> emitted c1 = emitted c @ [?w lit_prim, addr]"
  show "sok (comp_inv ?w A) (sbind (stream_push c1 (?w load_reg_prim)) (\<lambda>_ c. Some (Inr cur, c)))
      (\<lambda>cur' c'. cur' = cur \<and> adds ?w A c c')"
    by (rule sok_bind [OF sok_stream_push [OF conjunct1 [OF c1]]])
      (use c1 regs_code_peek [OF \<open>addr \<in> A\<close>, of ?w] in \<open>simp add: adds_def\<close>)
qed

lemma sok_compile_poke:
  assumes pre: "stmt_pre env A c" and fuel: "cur_size cur + 2 \<le> n"
  shows "sok (comp_inv (env_word env) A) (compile_poke n env cur c)
    (\<lambda>cur' c'. cur_size cur' \<le> cur_size cur \<and> adds (env_word env) A c c')"
  unfolding compile_poke_def
proof (rule sok_pure_bind [OF pok_parse_atomic_term [OF fuel]], rule stmt_preD [OF pre], clarify)
  fix addr cur1 assume s1: "cur_size cur1 \<le> cur_size cur"
  then have f1: "cur_size cur1 + 2 \<le> n"
    using fuel by simp
  show "sok (comp_inv (env_word env) A)
     (sbind (pure c (eval_expr n env (symbols c) None cur1)) (\<lambda>(val, cur2) c.
      sbind (pure c (expect_semicolon cur2)) (\<lambda>cur3 c.
      sbind (pure c (Some (check_cap env addr))) (\<lambda>_ c.
      sbind (stream_push_lit env c addr) (\<lambda>_ c.
      sbind (stream_push_lit env c val) (\<lambda>_ c.
      sbind (stream_push c (env_word env write_reg_prim)) (\<lambda>_ c. Some (Inr cur3, c))))))))
     (\<lambda>cur' c'. cur_size cur' \<le> cur_size cur \<and> adds (env_word env) A c c')"
    using s1 by (intro sok_pure_bind [OF pok_eval_expr [OF f1]] stmt_preD [OF pre])
      (auto intro!: sok_pure_bind [OF pok_expect_semicolon] sok_pure_bind [OF pok_check]
        sok_mono [OF sok_emit_poke [OF pre]] stmt_preD [OF pre])
qed

lemma sok_compile_peek:
  assumes pre: "stmt_pre env A c" and fuel: "cur_size cur + 2 \<le> n"
  shows "sok (comp_inv (env_word env) A) (compile_peek n env cur c)
    (\<lambda>cur' c'. cur_size cur' \<le> cur_size cur \<and> adds (env_word env) A c c')"
  unfolding compile_peek_def
  by (intro sok_pure_bind [OF pok_parse_atomic_term [OF fuel]] stmt_preD [OF pre])
    (auto intro!: sok_pure_bind [OF pok_expect_semicolon] sok_pure_bind [OF pok_check]
      sok_mono [OF sok_emit_peek [OF pre]] stmt_preD [OF pre])

lemma find_fn_Some: "find_fn c name = Some i \<Longrightarrow> i < MAX_FNS \<and> fn_allocated c i \<and> eq_bytes (fn_names c ! i) name"
  by (simp add: find_fn_def find_index_Some)

lemma sok_splice_call:
  assumes "comp_inv wof A c"
  shows "sok (comp_inv wof A) (splice_call c name) (\<lambda>_ c'. adds wof A c c')"
proof (cases "find_fn c name")
  case (Some i)
  then have "regs_code wof A (fn_body c i)"
    using assms find_fn_Some [OF Some] by (auto simp: comp_inv_def)
  then show ?thesis
    using sok_push_words [OF assms, of "fn_body c i"] Some
    by (auto simp: splice_call_def adds_def elim!: sok_mono)
qed (simp add: splice_call_def assms)

lemma sok_body_other:
  assumes pre: "stmt_pre env A c" and fuel: "cur_size cur + 2 \<le> n"
  shows "sok (comp_inv (env_word env) A) (body_other n env ident cur c)
    (\<lambda>cur' c'. cur_size cur' \<le> cur_size cur \<and> adds (env_word env) A c c')"
proof -
  obtain t cur1 where pk: "cur_peek cur = (t, cur1)"
    by fastforce
  have s1: "cur_size cur1 \<le> cur_size cur"
    using cur_peek_size [OF pk] by simp
  have s2: "cur_size (snd (cur_next cur1)) \<le> cur_size cur"
    using cur_next_le [of cur1 "fst (cur_next cur1)" "snd (cur_next cur1)"] s1 by simp
  have f1: "cur_size cur1 + 2 \<le> n"
    using s1 fuel by simp
  note inv = stmt_preD(1) [OF pre]
  show ?thesis
  proof (cases "t = LParen")
    case True
    have "sok (comp_inv (env_word env) A)
       (sbind (pure c (expect_token RParen (snd (cur_next cur1)))) (\<lambda>cur2 c.
        sbind (pure c (expect_semicolon cur2)) (\<lambda>cur3 c.
        sbind (splice_call c ident) (\<lambda>_ c. Some (Inr cur3, c)))))
       (\<lambda>cur' c'. cur_size cur' \<le> cur_size cur \<and> adds (env_word env) A c c')"
      using s2 by (intro sok_pure_bind [OF pok_expect_token] sok_pure_bind [OF pok_expect_semicolon] inv
          sok_bind [OF sok_splice_call [OF inv]]) auto
    then show ?thesis
      using True by (simp add: body_other_def pk)
  next
    case False
    have "sok (comp_inv (env_word env) A)
       (sbind (pure c (eval_expr n env (symbols c) (Some (Identifier ident)) cur1)) (\<lambda>(_, cur2) c.
        pure c (expect_semicolon cur2)))
       (\<lambda>cur' c'. cur_size cur' \<le> cur_size cur \<and> adds (env_word env) A c c')"
      using s1 adds_refl [OF inv] by (intro sok_pure_bind [OF pok_eval_expr [OF f1]] inv)
        (auto intro!: sok_mono [OF sok_pure [OF pok_expect_semicolon]] inv)
    then show ?thesis
      using False by (simp add: body_other_def pk)
  qed
qed


lemma adds_unroll:
  assumes "adds wof A c c1" "comp_inv wof A c"
  shows "sok (comp_inv wof A) (unroll (stream_len c) (stream_len c1) k c1) (\<lambda>_ c'. adds wof A c c')"
proof -
  obtain ws where ws: "emitted c1 = emitted c @ ws" "regs_code wof A ws" "comp_inv wof A c1"
    using assms(1) by (auto simp: adds_def)
  have "drop (stream_len c) (take (stream_len c1) (emitted c1)) = ws"
    using ws length_emitted [OF assms(2)] length_emitted [OF ws(3)] by simp
  then show ?thesis
    using sok_unroll [OF ws(3) order_refl, of "stream_len c" k] ws regs_code_append regs_code_replicate
    by (auto simp: adds_def elim!: sok_mono)
qed

lemma stmt_of_not_Eof [simp]: "stmt_of Eof = SBad"
  by (simp add: stmt_of_def)

text \<open>One statement given that blocks are fine with one unit of fuel less, and conversely.\<close>

lemma sok_stmt_step:
  assumes block: "\<And>cur c. stmt_pre env A c \<Longrightarrow> 2 * cur_size cur + 4 \<le> n \<Longrightarrow>
      sok (comp_inv (env_word env) A) (body_block n env cur c)
        (\<lambda>cur' c'. cur_size cur' \<le> cur_size cur \<and> adds (env_word env) A c c')"
    and pre: "stmt_pre env A c" and fuel: "2 * cur_size cur + 3 \<le> Suc n"
  shows "sok (comp_inv (env_word env) A) (parse_body_stmt (Suc n) env cur c)
    (\<lambda>cur' c'. cur_size cur' < cur_size cur \<and> adds (env_word env) A c c')"
proof -
  let ?I = "comp_inv (env_word env) A"
  let ?Q = "\<lambda>cur' c'. cur_size cur' < cur_size cur \<and> adds (env_word env) A c c'"
  obtain t cur1 where nx: "cur_next cur = (t, cur1)"
    by fastforce
  note inv = stmt_preD(1) [OF pre]
  show ?thesis
  proof (cases "stmt_of t = SBad")
    case True
    then show ?thesis
      using inv by (simp add: nx)
  next
    case False
    then have s1: "cur_size cur1 < cur_size cur"
      using cur_next_less [OF nx] by fastforce
    then have f1: "cur_size cur1 + 2 \<le> n"
      using fuel by simp
    have loop: "sok ?I
      (sbind (pure c (parse_atomic_term n env (symbols c) cur1)) (\<lambda>(count, cur2) c.
       if \<not> loop_count_ok count then Some (Inl LoopTooLarge, c)
       else
         sbind (pure c (expect_token LBrace cur2)) (\<lambda>cur3 c.
         sbind (body_block n env cur3 c) (\<lambda>cur4 c'.
         sbind (unroll (stream_len c) (stream_len c') (unat count - 1) c') (\<lambda>_ c''.
         Some (Inr cur4, c'')))))) ?Q"
    proof (rule sok_pure_bind [OF pok_parse_atomic_term [OF f1]], rule inv, clarify)
      fix count :: u32 and cur2 assume s2: "cur_size cur2 \<le> cur_size cur1"
      have "sok ?I (sbind (body_block n env cur3 c) (\<lambda>cur4 c'.
          sbind (unroll (stream_len c) (stream_len c') (unat count - 1) c') (\<lambda>_ c''.
          Some (Inr cur4, c'')))) ?Q" if "cur_size cur3 < cur_size cur2" for cur3
      proof (rule sok_bind [OF block [OF pre]])
        show "2 * cur_size cur3 + 4 \<le> n"
          using that s1 s2 fuel by simp
        fix cur4 c' assume "cur_size cur4 \<le> cur_size cur3 \<and> adds (env_word env) A c c'"
        then show "sok ?I (sbind (unroll (stream_len c) (stream_len c') (unat count - 1) c') (\<lambda>_ c''.
            Some (Inr cur4, c''))) ?Q"
          using that s1 s2 by (intro sok_bind [OF adds_unroll [OF _ inv]]) auto
      qed
      then show "sok ?I
        (if \<not> loop_count_ok count then Some (Inl LoopTooLarge, c)
         else
           sbind (pure c (expect_token LBrace cur2)) (\<lambda>cur3 c.
           sbind (body_block n env cur3 c) (\<lambda>cur4 c'.
           sbind (unroll (stream_len c) (stream_len c') (unat count - 1) c') (\<lambda>_ c''.
           Some (Inr cur4, c''))))) ?Q"
        using inv by (auto intro!: sok_pure_bind [OF pok_expect_token])
    qed
    show ?thesis
      using False loop s1 sok_mono [OF sok_compile_poke [OF pre f1], of ?Q]
        sok_mono [OF sok_compile_peek [OF pre f1], of ?Q] sok_mono [OF sok_body_other [OF pre f1], of ?Q]
      by (auto simp: nx split: stmt_kind.split)
  qed
qed

lemma sok_block_step:
  assumes stmt: "\<And>cur c. stmt_pre env A c \<Longrightarrow> 2 * cur_size cur + 3 \<le> n \<Longrightarrow>
      sok (comp_inv (env_word env) A) (parse_body_stmt n env cur c)
        (\<lambda>cur' c'. cur_size cur' < cur_size cur \<and> adds (env_word env) A c c')"
    and block: "\<And>cur c. stmt_pre env A c \<Longrightarrow> 2 * cur_size cur + 4 \<le> n \<Longrightarrow>
      sok (comp_inv (env_word env) A) (body_block n env cur c)
        (\<lambda>cur' c'. cur_size cur' \<le> cur_size cur \<and> adds (env_word env) A c c')"
    and pre: "stmt_pre env A c" and fuel: "2 * cur_size cur + 4 \<le> Suc n"
  shows "sok (comp_inv (env_word env) A) (body_block (Suc n) env cur c)
    (\<lambda>cur' c'. cur_size cur' \<le> cur_size cur \<and> adds (env_word env) A c c')"
proof -
  let ?I = "comp_inv (env_word env) A"
  let ?Q = "\<lambda>cur' c'. cur_size cur' \<le> cur_size cur \<and> adds (env_word env) A c c'"
  obtain t cur1 where pk: "cur_peek cur = (t, cur1)"
    by fastforce
  have s1: "cur_size cur1 \<le> cur_size cur"
    using cur_peek_size [OF pk] by simp
  have s2: "cur_size (snd (cur_next cur1)) \<le> cur_size cur"
    using cur_next_le [of cur1 "fst (cur_next cur1)" "snd (cur_next cur1)"] s1 by simp
  have "sok ?I (sbind (parse_body_stmt n env cur1 c) (\<lambda>cur2 c1. body_block n env cur2 c1)) ?Q"
  proof (rule sok_bind [OF stmt [OF pre]])
    show "2 * cur_size cur1 + 3 \<le> n"
      using s1 fuel by simp
    fix cur2 c1 assume *: "cur_size cur2 < cur_size cur1 \<and> adds (env_word env) A c c1"
    then have "sok ?I (body_block n env cur2 c1)
        (\<lambda>cur' c'. cur_size cur' \<le> cur_size cur2 \<and> adds (env_word env) A c1 c')"
      using pre s1 fuel stmt_pre_adds by (intro block) auto
    then show "sok ?I (body_block n env cur2 c1) ?Q"
      by (rule sok_mono) (use * s1 adds_trans in fastforce)
  qed
  then show ?thesis
    using stmt_preD(1) [OF pre] s2 adds_refl [of "env_word env" A c] by (simp add: pk)
qed

lemma sok_body:
  "(stmt_pre env A c \<longrightarrow> 2 * cur_size cur + 3 \<le> n \<longrightarrow>
      sok (comp_inv (env_word env) A) (parse_body_stmt n env cur c)
        (\<lambda>cur' c'. cur_size cur' < cur_size cur \<and> adds (env_word env) A c c'))
    \<and> (stmt_pre env A c \<longrightarrow> 2 * cur_size cur + 4 \<le> n \<longrightarrow>
      sok (comp_inv (env_word env) A) (body_block n env cur c)
        (\<lambda>cur' c'. cur_size cur' \<le> cur_size cur \<and> adds (env_word env) A c c'))"
proof (induction n arbitrary: cur c)
  case (Suc n)
  show ?case
    using Suc sok_stmt_step [of env A n c cur] sok_block_step [of env A n c cur] by blast
qed simp

lemma sok_loop_block:
  "stmt_pre env A c \<Longrightarrow> cur_size cur + 3 \<le> n \<Longrightarrow>
    sok (comp_inv (env_word env) A) (loop_block n env cur c)
      (\<lambda>cur' c'. adds (env_word env) A c c')"
proof (induction n arbitrary: cur c)
  case (Suc n)
  let ?I = "comp_inv (env_word env) A"
  let ?Q = "\<lambda>cur' c'. adds (env_word env) A c c'"
  obtain t cur1 where pk: "cur_peek cur = (t, cur1)"
    by fastforce
  obtain t' cur2 where nx: "cur_next cur1 = (t', cur2)"
    by fastforce
  note inv = stmt_preD(1) [OF Suc.prems(1)]
  show ?case
  proof (cases "t = Eof \<or> t = RBrace")
    case True
    then show ?thesis
      using inv adds_refl [OF inv] by (auto simp: pk)
  next
    case False
    then have s2: "cur_size cur2 < cur_size cur"
      using cur_peek_next_less [OF pk nx] by simp
    then have f2: "cur_size cur2 + 2 \<le> n"
      using Suc.prems(2) by simp
    have rec: "sok ?I (loop_block n env cur3 c1) ?Q"
      if "cur_size cur3 \<le> cur_size cur2 \<and> adds (env_word env) A c c1" for cur3 c1
      by (rule sok_mono [OF Suc.IH]) (use that s2 Suc.prems stmt_pre_adds adds_trans in fastforce)+
    have "sok ?I (loop_block n env cur2 c) ?Q"
      using rec adds_refl [OF inv] by simp
    then show ?thesis
      using False sok_bind [OF sok_compile_poke [OF Suc.prems(1) f2] rec]
        sok_bind [OF sok_compile_peek [OF Suc.prems(1) f2] rec]
      by (auto simp: pk nx split: stmt_kind.split)
  qed
qed simp


section \<open>Programs and outcomes\<close>

text \<open>A program the parser hands out: a literal, or a register program over \<open>A\<close>; then a halt.\<close>

definition prog_ok :: "(prim \<Rightarrow> u32) \<Rightarrow> u32 set \<Rightarrow> StreamProgram \<Rightarrow> bool" where
  "prog_ok wof A p \<longleftrightarrow>
    length (sp_words p) = MAX_STREAM_WORDS \<and> sp_len p \<le> MAX_STREAM_WORDS
    \<and> (if sp_yields_value p
       then \<exists>v. take (sp_len p) (sp_words p) = [wof lit_prim, v, wof halt_prim]
       else \<exists>ws. take (sp_len p) (sp_words p) = ws @ [wof halt_prim] \<and> regs_code wof A ws)"

definition outcome_ok :: "Env \<Rightarrow> u32 set \<Rightarrow> Outcome \<Rightarrow> bool" where
  "outcome_ok env A out \<longleftrightarrow>
    (case out of
       EnforcedPoke a v \<Rightarrow> check_cap env a = Inr ()
     | EnforcedPeek a \<Rightarrow> check_cap env a = Inr ()
     | SetBit a b \<Rightarrow> check_cap env a = Inr ()
     | ClrBit a b \<Rightarrow> check_cap env a = Inr ()
     | Pwm p d \<Rightarrow> check_timer_cap env = Inr ()
     | PwmDuty d \<Rightarrow> check_timer_cap env = Inr ()
     | SpiTx b \<Rightarrow> check_spi_cap env = Inr ()
     | Run p \<Rightarrow> prog_ok (env_word env) A p
     | _ \<Rightarrow> True)"

lemma take_program_words:
  assumes "comp_inv wof A c"
  shows "length (sp_words (take_program c y)) = MAX_STREAM_WORDS"
    "take (sp_len (take_program c y)) (sp_words (take_program c y)) = emitted c"
    "sp_len (take_program c y) \<le> MAX_STREAM_WORDS" "sp_yields_value (take_program c y) = y"
proof -
  have "length (emitted c) = stream_len c" "stream_len c \<le> MAX_STREAM_WORDS"
    using length_emitted [OF assms] assms by (simp_all add: comp_inv_def)
  then show "length (sp_words (take_program c y)) = MAX_STREAM_WORDS"
    "take (sp_len (take_program c y)) (sp_words (take_program c y)) = emitted c"
    "sp_len (take_program c y) \<le> MAX_STREAM_WORDS" "sp_yields_value (take_program c y) = y"
    by (simp_all add: take_program_def copy_prefix_def emitted_def)
qed

lemma sok_halt_program:
  assumes "comp_inv (env_word env) A c"
    and "\<And>c'. comp_inv (env_word env) A c' \<Longrightarrow> emitted c' = emitted c @ [env_word env halt_prim] \<Longrightarrow>
      prog_ok (env_word env) A (take_program c' y)"
  shows "sok (comp_inv (env_word env) A)
    (sbind (stream_halt env c) (\<lambda>_ c2. Some (Inr (take_program c2 y), c2)))
    (\<lambda>p c'. comp_inv (env_word env) A c' \<and> prog_ok (env_word env) A p)"
  unfolding stream_halt_def
  by (rule sok_bind [OF sok_stream_push [OF assms(1)]]) (use assms(2) in auto)

lemma stream_reset_inv:
  "comp_inv wof A c \<Longrightarrow> comp_inv wof A (stream_reset c) \<and> emitted (stream_reset c) = []"
  by (simp add: stream_reset_def comp_inv_stream_len emitted_def)

lemma sok_build_value_program:
  assumes "comp_inv (env_word env) A c"
  shows "sok (comp_inv (env_word env) A) (build_value_program env c v)
    (\<lambda>p c'. comp_inv (env_word env) A c' \<and> prog_ok (env_word env) A p)"
  unfolding build_value_program_def
proof (rule sok_bind [OF sok_stream_push_lit [OF _ refl]])
  show "comp_inv (env_word env) A (stream_reset c)"
    using stream_reset_inv [OF assms] by simp
  fix c1 assume "comp_inv (env_word env) A c1 \<and> emitted c1 = emitted (stream_reset c) @ [env_word env lit_prim, v]"
  then show "sok (comp_inv (env_word env) A)
      (sbind (stream_halt env c1) (\<lambda>_ c2. Some (Inr (take_program c2 True), c2)))
      (\<lambda>p c'. comp_inv (env_word env) A c' \<and> prog_ok (env_word env) A p)"
    using stream_reset_inv [OF assms]
    by (intro sok_halt_program) (auto simp: prog_ok_def take_program_words)
qed

lemma regs_program:
  assumes "regs_code wof A ws" "comp_inv wof A c" "emitted c = ws @ [wof halt_prim]"
  shows "prog_ok wof A (take_program c False)"
  using assms take_program_words [OF assms(2), of False] unfolding prog_ok_def by auto

lemma sok_build_call_program:
  assumes "comp_inv (env_word env) A c"
  shows "sok (comp_inv (env_word env) A) (build_call_program env c name)
    (\<lambda>p c'. comp_inv (env_word env) A c' \<and> prog_ok (env_word env) A p)"
proof (cases "find_fn c name")
  case (Some i)
  then have code: "regs_code (env_word env) A (fn_body c i)"
    using assms find_fn_Some [OF Some] by (auto simp: comp_inv_def)
  have "sok (comp_inv (env_word env) A)
    (sbind (push_words (stream_reset c) (fn_body c i)) (\<lambda>_ c1.
     sbind (stream_halt env c1) (\<lambda>_ c2. Some (Inr (take_program c2 False), c2))))
    (\<lambda>p c'. comp_inv (env_word env) A c' \<and> prog_ok (env_word env) A p)"
  proof (rule sok_bind [OF sok_push_words])
    show "comp_inv (env_word env) A (stream_reset c)"
      using stream_reset_inv [OF assms] by simp
    fix c1 assume "comp_inv (env_word env) A c1 \<and> emitted c1 = emitted (stream_reset c) @ fn_body c i"
    then show "sok (comp_inv (env_word env) A)
        (sbind (stream_halt env c1) (\<lambda>_ c2. Some (Inr (take_program c2 False), c2)))
        (\<lambda>p c'. comp_inv (env_word env) A c' \<and> prog_ok (env_word env) A p)"
      using stream_reset_inv [OF assms] code
      by (intro sok_halt_program) (auto intro: regs_program)
  qed
  then show ?thesis
    using Some by (simp add: build_call_program_def)
qed (simp add: build_call_program_def assms)

lemma store_fn_inv:
  assumes inv: "comp_inv wof A c" and code: "regs_code wof A words" and len: "length words \<le> FN_BODY_WORDS"
  shows "comp_inv wof A (snd (store_fn c name words))"
proof (cases "alloc_fn_slot c name")
  case (Inr i)
  then have i: "i < MAX_FNS"
    by (auto simp: alloc_fn_slot_def find_index_Some split: if_splits option.splits)
  let ?c = "snd (store_fn c name words)"
  have lens: "length (fn_names c) = MAX_FNS" "length (fn_bodies c) = MAX_FNS" "length (fn_body_lens c) = MAX_FNS"
    "length (fn_bodies c ! i) = FN_BODY_WORDS"
    using inv i by (auto simp: comp_inv_def)
  have body: "fn_body ?c j = (if j = i then words else fn_body c j)" if "j < MAX_FNS" for j
    using Inr that lens len
    by (auto simp: store_fn_def fn_body_def copy_prefix_def nth_append intro!: nth_equalityI)
  have alloc: "fn_allocated ?c j \<Longrightarrow> j \<noteq> i \<Longrightarrow> fn_allocated c j" for j
    using Inr by (simp add: store_fn_def fn_allocated_def)
  show ?thesis
    unfolding comp_inv_def
  proof (intro conjI allI impI)
    fix j assume j: "j < MAX_FNS"
    show "length (fn_bodies ?c ! j) = FN_BODY_WORDS" "fn_body_lens ?c ! j \<le> FN_BODY_WORDS"
      using inv j Inr lens len by (cases "j = i"; auto simp: store_fn_def comp_inv_def)+
    show "regs_code wof A (fn_body ?c j)" if "fn_allocated ?c j"
      using inv j that body alloc code by (auto simp: comp_inv_def)
  qed (use inv Inr in \<open>simp_all add: store_fn_def comp_inv_def\<close>)
qed (simp add: store_fn_def inv)


section \<open>Lines\<close>

lemma sok_parse_let:
  assumes inv: "comp_inv (env_word env) A c" and fuel: "cur_size cur + 2 \<le> n"
  shows "sok (comp_inv (env_word env) A) (parse_let n env cur c)
    (\<lambda>out c'. comp_inv (env_word env) A c' \<and> outcome_ok env A out)"
  unfolding parse_let_def
proof (rule sok_pure_bind [OF pok_expect_name], rule inv, clarify)
  fix nb cur1 name
  assume s1: "cur_size cur1 < cur_size cur" and nb: "from_slice name = Inr nb"
  have bind: "sok (comp_inv (env_word env) A)
     (case insert_symbol (symbols c) nb val of
        Inl e \<Rightarrow> Some (Inl e, c)
      | Inr syms \<Rightarrow> Some (Inr (Bound nb val), c\<lparr>symbols := syms\<rparr>))
     (\<lambda>out c'. comp_inv (env_word env) A c' \<and> outcome_ok env A out)" for val
  proof (cases "insert_key (symbols c) (as_slice nb) val")
    case (Some syms)
    moreover have "symbols_inv syms"
      using insert_key_inv [OF _ _ Some] from_slice_Inr [OF nb] inv by (simp add: comp_inv_def)
    ultimately show ?thesis
      using inv by (simp add: insert_symbol_key comp_inv_def outcome_ok_def fn_allocated_def fn_body_def)
  qed (simp add: insert_symbol_key inv)
  show "sok (comp_inv (env_word env) A)
     (sbind (pure c (expect_token (Operator CHR ''='') cur1)) (\<lambda>cur2 c.
      sbind (pure c (eval_expr n env (symbols c) None cur2)) (\<lambda>(value, cur3) c.
      sbind (pure c (expect_semicolon cur3)) (\<lambda>_ c.
      (case insert_symbol (symbols c) nb value of
         Inl e \<Rightarrow> Some (Inl e, c)
       | Inr syms \<Rightarrow> Some (Inr (Bound nb value), c\<lparr>symbols := syms\<rparr>))))))
     (\<lambda>out c'. comp_inv (env_word env) A c' \<and> outcome_ok env A out)"
    by (rule sok_pure_bind [OF pok_expect_token])
      (use s1 fuel inv bind in \<open>auto intro!: sok_pure_bind [OF pok_eval_expr]
        sok_pure_bind [OF pok_expect_semicolon]\<close>)
qed

lemma sok_parse_fn:
  assumes pre: "stmt_pre env A c" and fuel: "2 * cur_size cur + 4 \<le> n"
  shows "sok (comp_inv (env_word env) A) (parse_fn n env cur c)
    (\<lambda>out c'. comp_inv (env_word env) A c' \<and> outcome_ok env A out)"
  unfolding parse_fn_def
proof (rule sok_pure_bind [OF pok_expect_name], rule stmt_preD [OF pre], clarify)
  let ?I = "comp_inv (env_word env) A" and ?c0 = "c\<lparr>stream_len := 0\<rparr>"
  let ?Q = "\<lambda>out c'. comp_inv (env_word env) A c' \<and> outcome_ok env A out"
  fix nb cur1 name
  assume s1: "cur_size cur1 < cur_size cur" and nb: "from_slice name = Inr nb"
  have pre0: "stmt_pre env A ?c0"
    using pre comp_inv_stream_len by (auto simp: stmt_pre_def)
  have fin: "sok ?I
     (if stream_len c' > FN_BODY_WORDS then Some (Inl StreamFull, c')
      else sbind (Some (store_fn c' nb (take (stream_len c') (stream c')))) (\<lambda>_ c. Some (Inr (FnDefined nb), c))) ?Q"
    if "adds (env_word env) A ?c0 c'" for c'
  proof -
    have c': "?I c'" "regs_code (env_word env) A (take (stream_len c') (stream c'))"
      using that by (auto simp: adds_def emitted_def)
    obtain r c'' where r: "store_fn c' nb (take (stream_len c') (stream c')) = (r, c'')"
      by fastforce
    have "?I c''" if "stream_len c' \<le> FN_BODY_WORDS"
      using store_fn_inv [OF c', of nb] that r by simp
    then show ?thesis
      using c'(1) r by (cases r) (auto simp: outcome_ok_def)
  qed
  have body: "sok ?I (sbind (body_block n env cur4 ?c0) (\<lambda>_ c.
      if stream_len c > FN_BODY_WORDS then Some (Inl StreamFull, c)
      else sbind (Some (store_fn c nb (take (stream_len c) (stream c)))) (\<lambda>_ c. Some (Inr (FnDefined nb), c)))) ?Q"
    if "cur_size cur4 \<le> cur_size cur" for cur4
    by (rule sok_bind [OF mp [OF mp [OF conjunct2 [OF sok_body] pre0]]]) (use that fuel fin in auto)
  show "sok ?I
     (sbind (pure c (expect_token LParen cur1)) (\<lambda>cur2 c.
      sbind (pure c (expect_token RParen cur2)) (\<lambda>cur3 c.
      sbind (pure c (expect_token LBrace cur3)) (\<lambda>cur4 c.
      sbind (body_block n env cur4 (c\<lparr>stream_len := 0\<rparr>)) (\<lambda>_ c.
      if stream_len c > FN_BODY_WORDS then Some (Inl StreamFull, c)
      else sbind (Some (store_fn c nb (take (stream_len c) (stream c)))) (\<lambda>_ c. Some (Inr (FnDefined nb), c))))))) ?Q"
    using s1 stmt_preD(1) [OF pre] body
    by (auto intro!: sok_pure_bind [OF pok_expect_token])
qed

lemma sok_parse_loop:
  assumes pre: "stmt_pre env A c" and fuel: "cur_size cur + 3 \<le> n"
  shows "sok (comp_inv (env_word env) A) (parse_loop n env cur c)
    (\<lambda>out c'. comp_inv (env_word env) A c' \<and> outcome_ok env A out)"
proof -
  let ?I = "comp_inv (env_word env) A" and ?c0 = "stream_reset c"
  let ?Q = "\<lambda>out c'. comp_inv (env_word env) A c' \<and> outcome_ok env A out"
  have inv0: "?I ?c0" "emitted ?c0 = []" and pre0: "stmt_pre env A ?c0"
    using pre stream_reset_inv by (auto simp: stmt_pre_def)
  have fin: "sok ?I (sbind (unroll 0 (stream_len c1) k c1) (\<lambda>_ c.
      sbind (stream_halt env c) (\<lambda>_ c. Some (Inr (Run (take_program c False)), c)))) ?Q"
    if "adds (env_word env) A ?c0 c1" for c1 k
  proof (rule sok_bind [OF adds_unroll [OF that inv0(1)], simplified stream_reset_def, simplified])
    fix c2 assume "adds (env_word env) A (c\<lparr>stream_len := 0\<rparr>) c2"
    then have c2: "?I c2" "regs_code (env_word env) A (emitted c2)"
      by (auto simp: adds_def emitted_def)
    show "sok ?I (sbind (stream_halt env c2) (\<lambda>_ c. Some (Inr (Run (take_program c False)), c))) ?Q"
      unfolding stream_halt_def
      by (rule sok_bind [OF sok_stream_push [OF c2(1)]])
        (use c2 regs_program in \<open>auto simp: outcome_ok_def\<close>)
  qed
  have loop: "sok ?I (sbind (loop_block n env cur2 ?c0) (\<lambda>_ c.
      sbind (unroll 0 (stream_len c) k c) (\<lambda>_ c.
      sbind (stream_halt env c) (\<lambda>_ c. Some (Inr (Run (take_program c False)), c))))) ?Q"
    if "cur_size cur2 \<le> cur_size cur" for cur2 k
    by (rule sok_bind [OF sok_loop_block [OF pre0]]) (use that fuel fin in auto)
  have "cur_size cur + 2 \<le> n"
    using fuel by simp
  then show ?thesis
    unfolding parse_loop_def
    by (rule sok_pure_bind [OF pok_parse_atomic_term])
      (use stmt_preD(1) [OF pre] loop in \<open>auto intro!: sok_pure_bind [OF pok_expect_token]\<close>)
qed


lemma sok_if: "sok E r P \<Longrightarrow> sok E r' P \<Longrightarrow> sok E (if b then r else r') P"
  by simp

lemma sok_command1:
  assumes inv: "comp_inv (env_word env) A c" and fuel: "cur_size cur + 2 \<le> n"
    and "\<And>a. check a = Inr () \<Longrightarrow> outcome_ok env A (out a)"
  shows "sok (comp_inv (env_word env) A) (command1 n env cur c check out)
    (\<lambda>out c'. comp_inv (env_word env) A c' \<and> outcome_ok env A out)"
proof -
  have chk: "pok (Some (check a)) (\<lambda>_. check a = Inr ())" for a
    by (cases "check a") simp_all
  show ?thesis
    unfolding command1_def
    by (rule sok_pure_bind [OF pok_parse_atomic_term [OF fuel]])
      (use inv assms(3) in \<open>auto intro!: sok_pure_bind [OF pok_expect_semicolon] sok_pure_bind [OF chk]\<close>)
qed

lemma sok_command2:
  assumes inv: "comp_inv (env_word env) A c" and fuel: "cur_size cur + 2 \<le> n"
    and "\<And>a b. check a = Inr () \<Longrightarrow> outcome_ok env A (out a b)"
  shows "sok (comp_inv (env_word env) A) (command2 n env cur c check out)
    (\<lambda>out c'. comp_inv (env_word env) A c' \<and> outcome_ok env A out)"
proof -
  have chk: "pok (Some (check a)) (\<lambda>_. check a = Inr ())" for a
    by (cases "check a") simp_all
  show ?thesis
    unfolding command2_def
    by (rule sok_pure_bind [OF pok_parse_atomic_term [OF fuel]])
      (use inv assms(3) fuel in \<open>auto intro!: sok_pure_bind [OF pok_parse_atomic_term]
        sok_pure_bind [OF pok_expect_semicolon] sok_pure_bind [OF chk]\<close>)
qed

lemma sok_command_name:
  assumes inv: "comp_inv (env_word env) A c" and "\<And>nb. outcome_ok env A (out nb)"
  shows "sok (comp_inv (env_word env) A) (command_name cur c out)
    (\<lambda>out c'. comp_inv (env_word env) A c' \<and> outcome_ok env A out)"
  unfolding command_name_def
  by (rule sok_pure_bind [OF pok_expect_name])
    (use assms in \<open>auto intro!: sok_pure_bind [OF pok_expect_semicolon]\<close>)

lemma sok_command_poke:
  assumes inv: "comp_inv (env_word env) A c" and fuel: "cur_size cur + 2 \<le> n"
  shows "sok (comp_inv (env_word env) A) (command_poke n env cur c)
    (\<lambda>out c'. comp_inv (env_word env) A c' \<and> outcome_ok env A out)"
  unfolding command_poke_def
  by (rule sok_pure_bind [OF pok_parse_atomic_term [OF fuel]])
    (use inv fuel in \<open>auto intro!: sok_pure_bind [OF pok_eval_expr] sok_pure_bind [OF pok_expect_semicolon]
      sok_pure_bind [OF pok_check] simp: outcome_ok_def\<close>)

lemma sok_command_value:
  assumes inv: "comp_inv (env_word env) A c" and fuel: "cur_size cur + 2 \<le> n"
  shows "sok (comp_inv (env_word env) A) (command_value n env first cur c)
    (\<lambda>out c'. comp_inv (env_word env) A c' \<and> outcome_ok env A out)"
  unfolding command_value_def
  by (rule sok_pure_bind [OF pok_eval_expr [OF fuel]])
    (use inv in \<open>auto intro!: sok_pure_bind [OF pok_expect_semicolon] sok_bind [OF sok_build_value_program]
      simp: outcome_ok_def\<close>)

lemma sok_command_other:
  assumes inv: "comp_inv (env_word env) A c" and fuel: "cur_size cur + 2 \<le> n"
  shows "sok (comp_inv (env_word env) A) (command_other n env ident cur c)
    (\<lambda>out c'. comp_inv (env_word env) A c' \<and> outcome_ok env A out)"
proof -
  obtain t cur1 where pk: "cur_peek cur = (t, cur1)"
    by fastforce
  have "cur_size cur1 + 2 \<le> n"
    using cur_peek_size [OF pk] fuel by simp
  then have val: "sok (comp_inv (env_word env) A) (command_value n env (Identifier ident) cur1 c)
      (\<lambda>out c'. comp_inv (env_word env) A c' \<and> outcome_ok env A out)"
    by (rule sok_command_value [OF inv])
  have "sok (comp_inv (env_word env) A)
     (sbind (pure c (expect_token RParen (snd (cur_next cur1)))) (\<lambda>cur2 c.
      sbind (pure c (expect_semicolon cur2)) (\<lambda>_ c.
      sbind (build_call_program env c ident) (\<lambda>program c.
      Some (Inr (Run program), c)))))
     (\<lambda>out c'. comp_inv (env_word env) A c' \<and> outcome_ok env A out)"
    using inv
    by (auto intro!: sok_pure_bind [OF pok_expect_token] sok_pure_bind [OF pok_expect_semicolon]
        sok_bind [OF sok_build_call_program] simp: outcome_ok_def)
  then show ?thesis
    using val by (auto simp: command_other_def pk split: Token.split)
qed

lemma sok_parse_command:
  assumes pre: "stmt_pre env A c" and fuel: "cur_size cur + 3 \<le> n"
  shows "sok (comp_inv (env_word env) A) (parse_command n env ident cur c)
    (\<lambda>out c'. comp_inv (env_word env) A c' \<and> outcome_ok env A out)"
proof -
  have f: "cur_size cur + 2 \<le> n"
    using fuel by simp
  note inv = stmt_preD(1) [OF pre]
  note rules = sok_command1 [OF inv f] sok_command2 [OF inv f] sok_command_name [OF inv]
    sok_command_poke [OF inv f] sok_command_other [OF inv f] sok_parse_loop [OF pre fuel]
  show ?thesis
    unfolding parse_command_def Let_def command_plain_def
    by (intro sok_if rules) (simp_all add: inv outcome_ok_def)
qed

lemma cur_new_size: "cur_size (cur_new line) = length line"
  by (simp add: cur_size_def cur_new_def lexer_new_def lx_rest_def)

lemma sok_parse:
  assumes pre: "stmt_pre env A c"
  shows "sok (comp_inv (env_word env) A) (parse env line c)
    (\<lambda>out c'. comp_inv (env_word env) A c' \<and> outcome_ok env A out)"
proof -
  obtain t cur where nx: "cur_next (cur_new line) = (t, cur)"
    by fastforce
  have "cur_size cur \<le> length line"
    using cur_next_le [OF nx] by (simp add: cur_new_size)
  then have f: "cur_size cur + 2 \<le> parse_fuel line" "cur_size cur + 3 \<le> parse_fuel line"
    "2 * cur_size cur + 4 \<le> parse_fuel line"
    by (simp_all add: parse_fuel_def)
  note inv = stmt_preD(1) [OF pre]
  show ?thesis
    using inv sok_parse_let [OF inv f(1)] sok_parse_fn [OF pre f(3)] sok_parse_command [OF pre f(2)]
      sok_command_value [OF inv f(1)]
    by (cases t) (simp_all add: parse_def parse_line_def nx)
qed


section \<open>Sessions\<close>

text \<open>What happens to the compiler in a session: a line is typed and parsed, under the environment of its time, or the command \<open>load\<close>
  installs words that it found in the store. Other commands do not change the compiler.\<close>

datatype event = Enter Env string | Install string "u32 list"

fun session :: "event list \<Rightarrow> Compiler \<Rightarrow> ((ParseError + Outcome) option list \<times> Compiler) option" where
  "session [] c = Some ([], c)"
| "session (Enter env line # es) c =
    (case parse env line c of
       None \<Rightarrow> None
     | Some (r, c1) \<Rightarrow>
         (case session es c1 of None \<Rightarrow> None | Some (rs, c2) \<Rightarrow> Some (Some r # rs, c2)))"
| "session (Install name words # es) c =
    (case session es (snd (import_fn c name words)) of None \<Rightarrow> None | Some (rs, c2) \<Rightarrow> Some (None # rs, c2))"

text \<open>The addresses that the registry grants while one of the lines is parsed.\<close>

definition granted :: "event list \<Rightarrow> u32 set" where
  "granted es = {a. \<exists>env line. Enter env line \<in> set es \<and> check_access (env_arch env) (env_reg env) a = Inr ()}"

text \<open>All lines see the primitives at the same addresses, and installed words are code for register accesses within \<open>B\<close>.\<close>

definition event_ok :: "(prim \<Rightarrow> u32) \<Rightarrow> u32 set \<Rightarrow> event \<Rightarrow> bool" where
  "event_ok wof B e \<longleftrightarrow> (case e of Enter env line \<Rightarrow> env_word env = wof | Install name words \<Rightarrow> regs_code wof B words)"

definition result_ok :: "u32 set \<Rightarrow> event \<Rightarrow> (ParseError + Outcome) option \<Rightarrow> bool" where
  "result_ok A e r \<longleftrightarrow>
    (case (e, r) of
       (Enter env line, Some (Inr out)) \<Rightarrow> outcome_ok env A out
     | (Enter env line, Some (Inl err)) \<Rightarrow> True
     | (Install name words, None) \<Rightarrow> True
     | _ \<Rightarrow> False)"

lemma check_cap_iff: "check_cap env a = Inr () \<longleftrightarrow> check_access (env_arch env) (env_reg env) a = Inr ()"
  by (auto simp: check_cap_def split: sum.split)

lemma regs_code_mono: "regs_code wof A ws \<Longrightarrow> A \<subseteq> B \<Longrightarrow> regs_code wof B ws"
  unfolding regs_code_def by blast

lemma comp_inv_mono: "comp_inv wof A c \<Longrightarrow> A \<subseteq> B \<Longrightarrow> comp_inv wof B c"
  using regs_code_mono [of wof A _ B] by (simp add: comp_inv_def)

lemma comp_inv_new: "comp_inv wof A compiler_new"
  by (auto simp: comp_inv_def compiler_new_def symbols_inv_empty fn_allocated_def MAX_FNS_def)

lemma import_fn_inv:
  assumes "comp_inv wof A c" "regs_code wof A words"
  shows "comp_inv wof A (snd (import_fn c name words))"
  using assms store_fn_inv [OF assms] by (auto simp: import_fn_def split: sum.split)

text \<open>One event, on a compiler whose functions access \<open>A\<close> only.\<close>

lemma session_step:
  assumes "comp_inv wof A c" "event_ok wof B e" "B \<subseteq> A" "granted [e] \<subseteq> A"
  obtains r c1 where "\<And>es. session (e # es) c = (case session es c1 of None \<Rightarrow> None | Some (rs, c2) \<Rightarrow> Some (r # rs, c2))"
    "comp_inv wof A c1" "result_ok A e r"
proof (cases e)
  case (Enter env line)
  have "stmt_pre env A c"
    using assms Enter by (auto simp: stmt_pre_def grants_def check_cap_iff granted_def event_ok_def)
  then have "sok (comp_inv wof A) (parse env line c) (\<lambda>out c'. comp_inv wof A c' \<and> outcome_ok env A out)"
    using sok_parse [of env A c line] assms(2) Enter by (simp add: event_ok_def)
  then obtain r c1 where "parse env line c = Some (r, c1)" "comp_inv wof A c1" "result_ok A e (Some r)"
    using Enter by (cases "parse env line c" rule: sres_cases) (auto simp: result_ok_def)
  then show ?thesis
    using that [of "Some r" c1] Enter by simp
next
  case (Install name words)
  then have "comp_inv wof A (snd (import_fn c name words))"
    using import_fn_inv assms(1) regs_code_mono [of wof B words A] assms(2,3) by (simp add: event_ok_def)
  then show ?thesis
    using that [of None "snd (import_fn c name words)"] Install by (simp add: result_ok_def)
qed

lemma session_safe:
  assumes "comp_inv wof (granted ks \<union> B) c" "\<forall>e\<in>set es. event_ok wof B e"
  shows "\<exists>rs c'. session es c = Some (rs, c') \<and> length rs = length es \<and> comp_inv wof (granted (ks @ es) \<union> B) c'
    \<and> (\<forall>i<length es. result_ok (granted (ks @ take (Suc i) es) \<union> B) (es ! i) (rs ! i))"
  using assms
proof (induction es arbitrary: c ks)
  case (Cons e es)
  let ?A = "granted (ks @ [e]) \<union> B"
  have "comp_inv wof ?A c" "granted [e] \<subseteq> ?A"
    using Cons.prems comp_inv_mono [of wof "granted ks \<union> B" c ?A] by (auto simp: granted_def)
  then obtain r c1 where r: "\<And>es. session (e # es) c = (case session es c1 of None \<Rightarrow> None | Some (rs, c2) \<Rightarrow> Some (r # rs, c2))"
      "comp_inv wof ?A c1" "result_ok ?A e r"
    using session_step [of wof ?A c B e] Cons.prems(2) by auto
  obtain rs c' where rest: "session es c1 = Some (rs, c')" "length rs = length es"
    "comp_inv wof (granted ((ks @ [e]) @ es) \<union> B) c'"
    "\<forall>i<length es. result_ok (granted ((ks @ [e]) @ take (Suc i) es) \<union> B) (es ! i) (rs ! i)"
    using Cons.IH [OF r(2)] Cons.prems(2) by auto
  have "\<forall>i<Suc (length es). result_ok (granted (ks @ take (Suc i) (e # es)) \<union> B) ((e # es) ! i) ((r # rs) ! i)"
    using r(3) rest(4) by (auto simp: less_Suc_eq_0_disj)
  then show ?case
    using r(1) rest(1-3) by simp
qed auto

section \<open>Running what was compiled\<close>

lemma regs_code_effect:
  assumes "good_words wof" "regs_code wof A ws" "length ws \<le> 128"
  shows "\<exists>vm. run_threaded_stream wof (ws @ wof halt_prim # post) 0 (vm_init m) = Some vm
    \<and> (\<forall>b. (\<forall>a\<in>A. b \<notin> {a, a + 1, a + 2, a + 3}) \<longrightarrow> vm_mem vm b = m b)"
proof -
  obtain acts where acts: "ws = code_words wof (acts_code acts)" "act_addr ` set acts \<subseteq> A"
    using assms(2) by (auto simp: regs_code_def)
  obtain vm where vm: "run_threaded_stream wof (ws @ wof halt_prim # post) 0 (vm_init m) = Some vm"
    "vm_mem vm = snd (fold do_act acts ([], m))"
    using acts_run [OF assms(1), of acts post m] assms(3) acts(1) by (auto simp: vm_is_def)
  have "snd (fold do_act as (xs, m')) b = m' b"
    if "act_addr ` set as \<subseteq> A" "\<forall>a\<in>A. b \<notin> {a, a + 1, a + 2, a + 3}" for b as xs m'
    using that
  proof (induction as arbitrary: xs m')
    case (Cons c cs)
    then show ?case
      by (cases c) (auto simp: poke_u32_def)
  qed simp
  then show ?thesis
    using vm acts(2) by auto
qed

lemma prog_ok_runs:
  assumes "good_words wof" "prog_ok wof A p"
  shows "\<exists>vm. run_threaded_stream wof (sp_words p) 0 (vm_init m) = Some vm
    \<and> (\<forall>b. (\<forall>a\<in>A. b \<notin> {a, a + 1, a + 2, a + 3}) \<longrightarrow> vm_mem vm b = m b)"
proof -
  have split: "sp_words p = take (sp_len p) (sp_words p) @ drop (sp_len p) (sp_words p)"
    by simp
  have len: "length (take (sp_len p) (sp_words p)) \<le> 128"
    using assms(2) by (simp add: prog_ok_def MAX_STREAM_WORDS_def)
  show ?thesis
  proof (cases "sp_yields_value p")
    case True
    then obtain v where v: "take (sp_len p) (sp_words p) = [wof lit_prim, v, wof halt_prim]"
      using assms(2) by (auto simp: prog_ok_def)
    have "sp_words p = code_words wof [Lit v] @ wof halt_prim # drop (sp_len p) (sp_words p)"
      by (subst split, subst v) simp
    then show ?thesis
      using run_code [OF assms(1), of "[Lit v]" "[]" "drop (sp_len p) (sp_words p)" "vm_init m"]
      by (auto simp: plain_def vm_push_def vm_init_def Let_def)
  next
    case False
    then obtain ws where ws: "take (sp_len p) (sp_words p) = ws @ [wof halt_prim]" "regs_code wof A ws"
      using assms(2) by (auto simp: prog_ok_def)
    have "sp_words p = ws @ wof halt_prim # drop (sp_len p) (sp_words p)" "length ws \<le> 128"
      using split ws(1) len by simp_all
    then show ?thesis
      using regs_code_effect [OF assms(1) ws(2)] by metis
  qed
qed

section \<open>Functions are stored and called word for word\<close>

lemma fn_body_take:
  "comp_inv wof A c \<Longrightarrow> i < MAX_FNS \<Longrightarrow> fn_body c i = take (fn_body_lens c ! i) (fn_bodies c ! i)"
  by (auto simp: fn_body_def comp_inv_def intro!: nth_equalityI)

lemma push_words_succeeds:
  "comp_inv wof A c \<Longrightarrow> stream_len c + length ws \<le> MAX_STREAM_WORDS \<Longrightarrow>
    \<exists>c'. push_words c ws = Some (Inr (), c') \<and> comp_inv wof A c' \<and> emitted c' = emitted c @ ws"
proof (induction ws arbitrary: c)
  case (Cons w ws)
  obtain c1 where c1: "stream_push c w = Some (Inr (), c1)"
    using Cons.prems by (simp add: stream_push_def)
  then have inv1: "comp_inv wof A c1" "emitted c1 = emitted c @ [w]"
    using sok_stream_push [OF Cons.prems(1), of w] by auto
  have "stream_len c1 = Suc (stream_len c)"
    using length_emitted [OF inv1(1)] length_emitted [OF Cons.prems(1)] inv1(2) by simp
  then show ?case
    using Cons.IH [OF inv1(1)] Cons.prems(2) c1 inv1 by auto
qed auto

lemma find_fn_store:
  assumes inv: "comp_inv wof A c" and store: "store_fn c nb words = (Inr (), c')" and len: "nb_len nb > 0"
  shows "\<exists>i<MAX_FNS. find_fn c' (as_slice nb) = Some i \<and> fn_body_lens c' ! i = length words
    \<and> (length words \<le> FN_BODY_WORDS \<longrightarrow> take (length words) (fn_bodies c' ! i) = words)"
proof -
  obtain i where i: "alloc_fn_slot c nb = Inr i"
    and c': "c' = c\<lparr>fn_names := (fn_names c)[i := nb], fn_body_lens := (fn_body_lens c)[i := length words],
      fn_bodies := (fn_bodies c)[i := copy_prefix words (fn_bodies c ! i)]\<rparr>"
    using store by (auto simp: store_fn_def split: sum.splits)
  have less: "i < MAX_FNS" and fresh: "find_fn c (as_slice nb) = None"
    using i by (auto simp: alloc_fn_slot_def find_index_Some split: if_splits option.splits)
  have lens: "length (fn_names c) = MAX_FNS" "length (fn_bodies c) = MAX_FNS" "length (fn_body_lens c) = MAX_FNS"
    using inv by (auto simp: comp_inv_def)
  have "find_fn c' (as_slice nb) = Some i"
    unfolding find_fn_def find_index_Some
    using less fresh lens len
    by (auto simp: c' fn_allocated_def eq_bytes_def find_fn_def find_index_None nth_list_update)
  then show ?thesis
    using less lens by (auto simp: c')
qed

definition call_program :: "Env \<Rightarrow> u32 list \<Rightarrow> StreamProgram" where
  "call_program env body =
    \<lparr>sp_words = copy_prefix (body @ [env_word env halt_prim]) (replicate MAX_STREAM_WORDS 0),
     sp_len = length body + 1, sp_yields_value = False\<rparr>"

lemma build_call_program_body:
  assumes "comp_inv (env_word env) A c" "find_fn c name = Some i"
  shows "\<exists>c'. build_call_program env c name = Some (Inr (call_program env (fn_body c i)), c')"
proof -
  let ?ws = "fn_body c i @ [env_word env halt_prim]"
  have inv0: "comp_inv (env_word env) A (stream_reset c)" "emitted (stream_reset c) = []"
    using stream_reset_inv [OF assms(1)] by auto
  have "length (fn_body c i) \<le> FN_BODY_WORDS"
    using assms find_fn_Some by (auto simp: comp_inv_def fn_body_def)
  then have len: "stream_len (stream_reset c) + length (fn_body c i) \<le> MAX_STREAM_WORDS"
    "length (fn_body c i) < MAX_STREAM_WORDS"
    by (simp_all add: stream_reset_def MAX_STREAM_WORDS_def FN_BODY_WORDS_def)
  obtain c1 where c1: "push_words (stream_reset c) (fn_body c i) = Some (Inr (), c1)"
    "comp_inv (env_word env) A c1" "emitted c1 = fn_body c i"
    using push_words_succeeds [OF inv0(1) len(1)] inv0(2) by auto
  have "stream_len c1 < MAX_STREAM_WORDS"
    using length_emitted [OF c1(2)] c1(3) len(2) by simp
  then obtain c2 where c2: "stream_halt env c1 = Some (Inr (), c2)"
    by (simp add: stream_halt_def stream_push_def)
  then have "emitted c2 = ?ws" "comp_inv (env_word env) A c2"
    using sok_stream_push [OF c1(2), of "env_word env halt_prim"] c1(3) by (auto simp: stream_halt_def)
  then have "take_program c2 False = call_program env (fn_body c i)"
    using length_emitted [of "env_word env" A c2]
    by (simp add: take_program_def call_program_def emitted_def)
  then show ?thesis
    using c1(1) c2 assms(2) by (simp add: build_call_program_def)
qed

section \<open>Properties\<close>

text \<open>C1. Every line returns, and the compiler hands out only accesses that were granted. Take any
  sequence of input lines, each parsed under the architecture, registry and memory of its
  time, with any number of functions installed in between from the store, whose words are access code within a set \<open>B\<close>. The parser returns on every line
  (its recursion never exceeds the bound that is linear in the length of the line); the commands \<open>poke\<close>, \<open>peek\<close>, \<open>reg_set_bit\<close> and \<open>reg_clr_bit\<close> are handed to the
  command loop only if the registry granted their address for that very line, a PWM or SPI
  command only with the capability of that peripheral; a program handed out for
  execution is a single literal or a sequence of register reads and writes that all address
  words of \<open>B\<close> or words granted for this line or an earlier one (the one that defined the function); and the same holds of
  every function body that is stored at the end, which is what \<open>spawn\<close> runs. Not covered are \<open>peek\<close> terms within an expression, which the parser reads without
  asking the registry, and the fixed registers that \<open>bench\<close> and \<open>flash_test\<close> use.\<close>

theorem session_accesses_granted:
  assumes "\<forall>e\<in>set es. event_ok wof B e"
  shows "\<exists>rs c. session es compiler_new = Some (rs, c) \<and> length rs = length es
    \<and> (\<forall>i<length es. result_ok (granted (take (Suc i) es) \<union> B) (es ! i) (rs ! i))
    \<and> (\<forall>j<MAX_FNS. fn_allocated c j \<longrightarrow> regs_code wof (granted es \<union> B) (fn_body c j))"
  using session_safe [of wof "[]" B compiler_new es] comp_inv_new assms by (auto simp: comp_inv_def)

text \<open>An environment for the examples: no capability is claimed.\<close>

definition example_env :: Env where
  "example_env = \<lparr>env_arch = Arm, env_reg = REGISTRY_BITS, env_mem = (\<lambda>a. 0), env_word = example_words\<rparr>"

lemma example_env_word: "env_word example_env = example_words"
  by (simp add: example_env_def)

text \<open>The words of \<open>poke 0x20000000 7;\<close>, as they may lie in the store.\<close>

definition example_words_stored :: "u32 list" where
  "example_words_stored = code_words example_words (acts_code [APoke 0x20000000 7])"

lemma example_words_ok: "event_ok example_words {0x20000000} (Install name example_words_stored)"
  by (auto simp: event_ok_def regs_code_def example_words_stored_def intro!: exI [of _ "[APoke 0x20000000 7]"])

theorem session_accesses_granted_witness:
  "\<exists>rs c. session [Enter example_env ''poke 0x20000000 7;'', Install ''f'' example_words_stored, Enter example_env ''(1 + 2''] compiler_new
        = Some (rs, c)
    \<and> result_ok (granted [Enter example_env ''poke 0x20000000 7;''] \<union> {0x20000000}) (Enter example_env ''poke 0x20000000 7;'') (rs ! 0)"
proof -
  let ?es = "[Enter example_env ''poke 0x20000000 7;'', Install ''f'' example_words_stored, Enter example_env ''(1 + 2'']"
  have "\<forall>e\<in>set ?es. event_ok example_words {0x20000000} e"
    using example_words_ok by (simp add: event_ok_def example_env_def)
  from session_accesses_granted [OF this] show ?thesis
    by (auto simp del: session.simps dest: spec [of _ 0])
qed

text \<open>C2. What runs is confined. Take a session of lines, and of functions installed from the store whose words are access code within a set \<open>B\<close>. Whatever program it hands out for execution, the threaded
  engine run on its word array stops at the halt, never calls a word that is not a primitive
  and never reads past the array, and it leaves every byte of memory unchanged that does not
  belong to a word of \<open>B\<close> or to one the registry has granted during the session. Words of the store that are not access code are
  excluded by the hypothesis, since \<open>load\<close> does not check them.\<close>

theorem compiled_programs_confined:
  assumes "good_words wof" "\<forall>e\<in>set es. event_ok wof B e"
    and "session es compiler_new = Some (rs, c)" "i < length es" "rs ! i = Some (Inr (Run p))"
  shows "\<exists>vm. run_threaded_stream wof (sp_words p) 0 (vm_init m) = Some vm
    \<and> (\<forall>b. (\<forall>a\<in>granted (take (Suc i) es) \<union> B. b \<notin> {a, a + 1, a + 2, a + 3}) \<longrightarrow> vm_mem vm b = m b)"
proof (rule prog_ok_runs [OF assms(1)])
  have ok: "result_ok (granted (take (Suc i) es) \<union> B) (es ! i) (rs ! i)" "event_ok wof B (es ! i)"
    using session_safe [OF comp_inv_new assms(2), of "[]"] assms(2-4) by auto
  then obtain env line where "es ! i = Enter env line"
    using assms(5) by (cases "es ! i") (simp_all add: result_ok_def)
  then show "prog_ok wof (granted (take (Suc i) es) \<union> B) p"
    using ok assms(5) by (simp add: result_ok_def outcome_ok_def event_ok_def)
qed

fun run_of :: "(ParseError + Outcome) option \<Rightarrow> StreamProgram option" where
  "run_of (Some (Inr (Run p))) = Some p"
| "run_of _ = None"

lemma run_of_Some: "run_of r = Some p \<longleftrightarrow> r = Some (Inr (Run p))"
  by (cases r rule: run_of.cases) auto

definition example_session :: "event list" where
  "example_session =
    [Install ''g'' example_words_stored, Enter example_env ''fn f() { loop 2 { poke 0x20000000 7; } g(); }'', Enter example_env ''f();'']"

theorem compiled_programs_confined_witness:
  "\<exists>rs c p vm. session example_session compiler_new = Some (rs, c) \<and> rs ! 2 = Some (Inr (Run p))
    \<and> run_threaded_stream example_words (sp_words p) 0 (vm_init (\<lambda>a. 0)) = Some vm"
proof -
  have "map_option (\<lambda>(rs, c). run_of (rs ! 2) \<noteq> None) (session example_session compiler_new) = Some True"
    by code_simp
  then obtain rs c p where run: "session example_session compiler_new = Some (rs, c)" "rs ! 2 = Some (Inr (Run p))"
    by (auto simp: run_of_Some)
  have "\<forall>e\<in>set example_session. event_ok example_words {0x20000000} e" "2 < length example_session"
    using example_words_ok by (simp_all add: example_session_def example_env_def event_ok_def)
  from compiled_programs_confined [OF good_example_words this(1) run(1) this(2) run(2)] run
  show ?thesis
    by blast
qed

text \<open>C14. Persisting a function loses nothing. If a function is exported from one compiler and
  imported under the same name into another (the two halves of \<open>store\<close> and \<open>load\<close>), then it
  can be exported again with the same words, and calling it in either compiler yields the
  same program: the body followed by a halt.\<close>

theorem fn_export_import_roundtrip:
  assumes "comp_inv (env_word env) A c" "comp_inv (env_word env) A d" "name \<noteq> []"
    and "export_fn c name out = Some (len, buf)" "import_fn d name (take len buf) = (Inr (), d')"
  shows "export_fn d' name out = Some (len, buf)
    \<and> (\<exists>p c1 d1. build_call_program env c name = Some (Inr p, c1)
        \<and> build_call_program env d' name = Some (Inr p, d1)
        \<and> take (sp_len p) (sp_words p) = take len buf @ [env_word env halt_prim])"
proof -
  obtain i where i: "find_fn c name = Some i" "i < MAX_FNS" "len = fn_body_lens c ! i" "len \<le> length out"
    "buf = copy_prefix (take len (fn_bodies c ! i)) out"
    using assms(4) find_fn_Some by (auto simp: export_fn_def Let_def split: option.splits if_splits)
  have len: "length (fn_body c i) = len" "len \<le> FN_BODY_WORDS" "length (fn_bodies c ! i) = FN_BODY_WORDS"
    using assms(1) i(2,3) by (auto simp: comp_inv_def fn_body_def)
  have body: "take len buf = fn_body c i"
    using i len fn_body_take [OF assms(1) i(2)] by (simp add: copy_prefix_def)
  then have code: "regs_code (env_word env) A (take len buf)"
    using assms(1) find_fn_Some [OF i(1)] by (auto simp: comp_inv_def)
  obtain nb where nb: "from_slice name = Inr nb" "store_fn d nb (take len buf) = (Inr (), d')"
    using assms(5) by (auto simp: import_fn_def split: if_splits sum.splits)
  have name: "as_slice nb = name" "nb_len nb > 0"
    using nb(1) from_slice_Inr assms(3) by (auto simp: from_slice_def split: if_splits)
  obtain j where j: "j < MAX_FNS" "find_fn d' name = Some j" "fn_body_lens d' ! j = len"
    "take len (fn_bodies d' ! j) = fn_body c i"
    using find_fn_store [OF assms(2) nb(2) name(2)] name(1) body len by auto
  have inv': "comp_inv (env_word env) A d'"
    using store_fn_inv [OF assms(2) code] len body nb(2) by (metis snd_conv)
  then have "fn_body d' j = fn_body c i"
    using fn_body_take [OF inv' j(1)] j by simp
  moreover have "export_fn d' name out = Some (len, buf)"
    using j i fn_body_take [OF assms(1) i(2)] by (simp add: export_fn_def Let_def)
  moreover have "take (sp_len (call_program env (fn_body c i))) (sp_words (call_program env (fn_body c i)))
      = fn_body c i @ [env_word env halt_prim]"
    by (simp add: call_program_def copy_prefix_def)
  ultimately show ?thesis
    using build_call_program_body [OF assms(1) i(1)] build_call_program_body [OF inv' j(2)] body
    by auto
qed

definition reloads :: "Compiler \<Rightarrow> string \<Rightarrow> u32 list \<Rightarrow> nat \<Rightarrow> Compiler \<Rightarrow> bool" where
  "reloads c name out k d \<longleftrightarrow>
    (case export_fn c name out of
       Some (len, buf) \<Rightarrow> len = k \<and> \<not> isl (fst (import_fn d name (take k buf)))
     | None \<Rightarrow> False)"

lemma reloadsD:
  assumes "reloads c name out k d"
  shows "\<exists>buf d'. export_fn c name out = Some (k, buf) \<and> import_fn d name (take k buf) = (Inr (), d')"
proof -
  obtain buf where buf: "export_fn c name out = Some (k, buf)" "\<not> isl (fst (import_fn d name (take k buf)))"
    using assms by (auto simp: reloads_def split: option.splits)
  then show ?thesis
    by (cases "import_fn d name (take k buf)"; cases "fst (import_fn d name (take k buf))") auto
qed

definition example_definition :: "event list" where
  "example_definition = [Enter example_env ''fn f() { poke 0x20000000 7; }'']"

lemma example_definition_env: "\<forall>e\<in>set example_definition. event_ok example_words {} e"
  by (simp add: example_definition_def event_ok_def example_env_word)

theorem fn_export_import_roundtrip_witness:
  "\<exists>c d' buf. export_fn c ''f'' (replicate 64 0) = Some (5, buf)
    \<and> import_fn compiler_new ''f'' (take 5 buf) = (Inr (), d')
    \<and> export_fn d' ''f'' (replicate 64 0) = Some (5, buf)"
proof -
  let ?ls = example_definition and ?out = "replicate 64 0"
  have "map_option (\<lambda>(rs, c). reloads c ''f'' ?out 5 compiler_new) (session ?ls compiler_new) = Some True"
    by code_simp
  then obtain rs c where c1: "session ?ls compiler_new = Some (rs, c)" "reloads c ''f'' ?out 5 compiler_new"
    by (auto simp del: replicate.simps)
  obtain buf d' where c: "session ?ls compiler_new = Some (rs, c)" "export_fn c ''f'' ?out = Some (5, buf)"
    and d': "import_fn compiler_new ''f'' (take 5 buf) = (Inr (), d')"
    using c1(1) reloadsD [OF c1(2)] by blast
  have "comp_inv (env_word example_env) (granted ?ls \<union> {}) c"
    using session_safe [OF comp_inv_new example_definition_env, of "[]"] c(1) example_env_word by auto
  from fn_export_import_roundtrip [OF this comp_inv_new _ c(2) d'] c(2) d' show ?thesis
    by blast
qed

end
