(* ===== verification/Emitter.thy ===== *)
theory Emitter
  imports HROS_Prelude Byte_Memory "HOL-Library.Signed_Division"
begin

text \<open>
  The machine code emitters of \<^verbatim>\<open>src/compiler/emitter.rs\<close>: the instruction encodings for Thumb-2
  and RV32I and the two emitters that append them to the executable buffer. An emitter is the
  list of the halfwords (or words) written so far with the capacity of the buffer.

  Reference semantics. The field layouts of the ARMv7-M and RV32IM manuals are written down as
  decoders, and straight-line machine code is executed on a register file and the byte memory;
  the encodings are compared with these.
\<close>

section \<open>Emission buffer\<close>

datatype EmitError = Overflow | BadRegister

record 'h Emitter =
  em_code :: "'h list"
  em_cap :: nat

text \<open>\<open>push16\<close> and \<open>push32\<close>\<close>

definition push_code :: "'h Emitter \<Rightarrow> 'h \<Rightarrow> (EmitError + unit) \<times> 'h Emitter" where
  "push_code em h =
    (if length (em_code em) \<ge> em_cap em then (Inl Overflow, em)
     else (Inr (), em\<lparr>em_code := em_code em @ [h]\<rparr>))"

text \<open>A sequence of pushes, each followed by \<open>?\<close>.\<close>

fun push_all :: "'h Emitter \<Rightarrow> 'h list \<Rightarrow> (EmitError + unit) \<times> 'h Emitter" where
  "push_all em [] = (Inr (), em)"
| "push_all em (h # hs) =
    (case push_code em h of
       (Inl e, em') \<Rightarrow> (Inl e, em')
     | (Inr _, em') \<Rightarrow> push_all em' hs)"

text \<open>An emission function: a check of the registers, then its instructions are pushed.\<close>

definition emit :: "'h Emitter \<Rightarrow> EmitError + 'h list \<Rightarrow> (EmitError + unit) \<times> 'h Emitter" where
  "emit em frag = (case frag of Inl e \<Rightarrow> (Inl e, em) | Inr hs \<Rightarrow> push_all em hs)"

lemma push_all_fits:
  "length (em_code em) + length hs \<le> em_cap em \<Longrightarrow>
    push_all em hs = (Inr (), em\<lparr>em_code := em_code em @ hs\<rparr>)"
  by (induction em hs rule: push_all.induct) (auto simp: push_code_def)

text \<open>\<open>EXEC_BUFFER_SIZE\<close>, and the capacity of the buffer in units of one emitter.\<close>

definition EXEC_BUFFER_SIZE :: "arch \<Rightarrow> nat" where
  "EXEC_BUFFER_SIZE a = (case a of Riscv32 \<Rightarrow> 768 | _ \<Rightarrow> 4096)"

definition thumb_into_exec_buffer :: "u16 Emitter" where
  "thumb_into_exec_buffer = \<lparr>em_code = [], em_cap = EXEC_BUFFER_SIZE Arm div 2\<rparr>"

definition riscv_into_exec_buffer :: "u32 Emitter" where
  "riscv_into_exec_buffer = \<lparr>em_code = [], em_cap = EXEC_BUFFER_SIZE Riscv32 div 4\<rparr>"

definition thumb_bytes_written :: "u16 Emitter \<Rightarrow> nat" where
  "thumb_bytes_written em = length (em_code em) * 2"

definition riscv_bytes_written :: "u32 Emitter \<Rightarrow> nat" where
  "riscv_bytes_written em = length (em_code em) * 4"

section \<open>Thumb-2 encodings\<close>

text \<open>The four fields of a 16-bit immediate, and the halfwords they are placed in.\<close>

definition movw_fields :: "u16 \<Rightarrow> u8 \<Rightarrow> u32 \<Rightarrow> u16 \<times> u16" where
  "movw_fields opcode rd imm =
    (let imm4 = ucast (drop_bit 12 imm AND 0xF) :: u16;
         i = ucast (drop_bit 11 imm AND 0x1) :: u16;
         imm3 = ucast (drop_bit 8 imm AND 0x7) :: u16;
         imm8 = ucast (imm AND 0xFF) :: u16
     in (opcode OR push_bit 10 i OR imm4,
         push_bit 12 imm3 OR push_bit 8 (ucast rd AND 0xF) OR imm8))"

definition encode_movw :: "u8 \<Rightarrow> u32 \<Rightarrow> u16 \<times> u16" where
  "encode_movw rd imm = movw_fields 0xF240 rd imm"

definition encode_movt :: "u8 \<Rightarrow> u32 \<Rightarrow> u16 \<times> u16" where
  "encode_movt rd imm = movw_fields 0xF2C0 rd (drop_bit 16 imm)"

definition ls_imm :: "u16 \<Rightarrow> u8 \<Rightarrow> u8 \<Rightarrow> u32 \<Rightarrow> u16 option" where
  "ls_imm opcode rt rn byte_offset =
    (if rt > 7 \<or> rn > 7 \<or> byte_offset > 124 \<or> byte_offset mod 4 \<noteq> 0 then None
     else Some (opcode OR push_bit 6 (ucast (byte_offset div 4)) OR push_bit 3 (ucast rn) OR ucast rt))"

definition encode_str_imm :: "u8 \<Rightarrow> u8 \<Rightarrow> u32 \<Rightarrow> u16 option" where
  "encode_str_imm = ls_imm 0x6000"

definition encode_ldr_imm :: "u8 \<Rightarrow> u8 \<Rightarrow> u32 \<Rightarrow> u16 option" where
  "encode_ldr_imm = ls_imm 0x6800"

definition encode_sdiv :: "u8 \<Rightarrow> u8 \<Rightarrow> u8 \<Rightarrow> u16 \<times> u16" where
  "encode_sdiv rd rn rm = (0xFB90 OR ucast rn, 0xF010 OR push_bit 8 (ucast rd) OR ucast rm)"

definition thumb_mov_imm :: "u8 \<Rightarrow> u32 \<Rightarrow> EmitError + u16 list" where
  "thumb_mov_imm reg imm =
    (if reg > 15 then Inl BadRegister
     else if imm \<le> 0xFF \<and> reg < 8
     then Inr [0x2000 OR push_bit 8 (ucast reg) OR (ucast imm AND 0xFF)]
     else
       (let (w1, w2) = encode_movw reg imm; (t1, t2) = encode_movt reg imm
        in Inr ([w1, w2] @ (if drop_bit 16 imm \<noteq> 0 then [t1, t2] else []))))"

definition thumb_store_u32 :: "u8 \<Rightarrow> u8 \<Rightarrow> EmitError + u16 list" where
  "thumb_store_u32 src_reg addr_reg =
    (case encode_str_imm src_reg addr_reg 0 of Some hw \<Rightarrow> Inr [hw] | None \<Rightarrow> Inl BadRegister)"

definition thumb_load_u32 :: "u8 \<Rightarrow> u8 \<Rightarrow> EmitError + u16 list" where
  "thumb_load_u32 dst_reg addr_reg =
    (case encode_ldr_imm dst_reg addr_reg 0 of Some hw \<Rightarrow> Inr [hw] | None \<Rightarrow> Inl BadRegister)"

definition thumb_add :: "u8 \<Rightarrow> u8 \<Rightarrow> u8 \<Rightarrow> EmitError + u16 list" where
  "thumb_add dst a b =
    (if dst > 7 \<or> a > 7 \<or> b > 7 then Inl BadRegister
     else Inr [0x1800 OR push_bit 6 (ucast b) OR push_bit 3 (ucast a) OR ucast dst])"

definition thumb_sub :: "u8 \<Rightarrow> u8 \<Rightarrow> u8 \<Rightarrow> EmitError + u16 list" where
  "thumb_sub dst a b =
    (if dst > 7 \<or> a > 7 \<or> b > 7 then Inl BadRegister
     else Inr [0x1A00 OR push_bit 6 (ucast b) OR push_bit 3 (ucast a) OR ucast dst])"

definition thumb_mul :: "u8 \<Rightarrow> u8 \<Rightarrow> u8 \<Rightarrow> EmitError + u16 list" where
  "thumb_mul dst a b =
    (if dst > 7 \<or> a > 7 \<or> b > 7 then Inl BadRegister
     else Inr ((if a \<noteq> dst then [push_bit 3 (ucast a) OR ucast dst] else [])
            @ [0x4340 OR push_bit 3 (ucast b) OR ucast dst]))"

definition thumb_div :: "u8 \<Rightarrow> u8 \<Rightarrow> u8 \<Rightarrow> EmitError + u16 list" where
  "thumb_div dst a b =
    (if dst > 15 \<or> a > 15 \<or> b > 15 then Inl BadRegister
     else (let (hw1, hw2) = encode_sdiv dst a b in Inr [hw1, hw2]))"

definition thumb_ret :: "EmitError + u16 list" where
  "thumb_ret = Inr [0x4770]"

definition thumb_mov_ret :: "u32 \<Rightarrow> u16 Emitter \<Rightarrow> (EmitError + unit) \<times> u16 Emitter" where
  "thumb_mov_ret imm em =
    (case emit em (thumb_mov_imm 0 imm) of
       (Inl e, em') \<Rightarrow> (Inl e, em')
     | (Inr _, em') \<Rightarrow> emit em' thumb_ret)"

definition thumb_cap_guard_scalar :: "EmitError + u16 list" where
  "thumb_cap_guard_scalar = Inr [0xF3AF, 0xF8D0, 0xEC10]"

definition thumb_cap_guard_vector :: "u8 \<Rightarrow> u32 \<Rightarrow> EmitError + u16 list" where
  "thumb_cap_guard_vector addr_reg len =
    (if addr_reg > 7 \<or> len > 16 then Inl BadRegister
     else Inr [0xDE00 OR push_bit 4 (ucast (addr_reg AND 0x0F)) OR ucast ((len - 1) AND 0x0F)])"

definition thumb_cap_guard_custom :: "u8 \<Rightarrow> u8 \<Rightarrow> EmitError + u16 list" where
  "thumb_cap_guard_custom addr_reg cap_reg =
    (if addr_reg > 7 \<or> cap_reg > 7 then Inl BadRegister
     else Inr [0xDE00 OR push_bit 4 (ucast (cap_reg AND 0x0F)) OR ucast (addr_reg AND 0x0F)])"

section \<open>RV32I encodings\<close>

definition reg5 :: "u8 \<Rightarrow> u32" where
  "reg5 r = ucast r AND 0x1F"

definition encode_lui :: "u8 \<Rightarrow> u32 \<Rightarrow> u32" where
  "encode_lui rd imm20 = 0x37 OR push_bit 7 (reg5 rd) OR push_bit 20 (imm20 AND 0xFFFFF)"

definition encode_addi :: "u8 \<Rightarrow> u8 \<Rightarrow> u32 \<Rightarrow> u32" where
  "encode_addi rd rs1 imm12_field =
    0x13 OR push_bit 7 (reg5 rd) OR push_bit 15 (reg5 rs1) OR push_bit 20 (imm12_field AND 0xFFF)"

definition off_rejected :: "u32 \<Rightarrow> bool" where
  "off_rejected offset \<longleftrightarrow> 0x800 \<le> offset \<and> offset < 0xFFFFF000"

definition sw_word :: "u8 \<Rightarrow> u8 \<Rightarrow> u32 \<Rightarrow> u32" where
  "sw_word rs2 rs1 offset =
    (let off = offset AND 0xFFF
     in 0x23 OR push_bit 12 2 OR push_bit 25 (drop_bit 5 off) OR push_bit 20 (reg5 rs2)
          OR push_bit 15 (reg5 rs1) OR push_bit 7 (off AND 0x1F))"

definition encode_sw :: "u8 \<Rightarrow> u8 \<Rightarrow> u32 \<Rightarrow> u32 option" where
  "encode_sw rs2 rs1 offset = (if off_rejected offset then None else Some (sw_word rs2 rs1 offset))"

definition lw_word :: "u8 \<Rightarrow> u8 \<Rightarrow> u32 \<Rightarrow> u32" where
  "lw_word rd rs1 offset =
    0x03 OR push_bit 12 2 OR push_bit 7 (reg5 rd) OR push_bit 15 (reg5 rs1)
      OR push_bit 20 (offset AND 0xFFF)"

definition encode_lw :: "u8 \<Rightarrow> u8 \<Rightarrow> u32 \<Rightarrow> u32 option" where
  "encode_lw rd rs1 offset = (if off_rejected offset then None else Some (lw_word rd rs1 offset))"

definition encode_rtype_addsub :: "u8 \<Rightarrow> u8 \<Rightarrow> u8 \<Rightarrow> bool \<Rightarrow> u32" where
  "encode_rtype_addsub rd rs1 rs2 sub =
    0x33 OR push_bit 25 (if sub then 0x20 else 0x00) OR push_bit 20 (reg5 rs2) OR push_bit 15 (reg5 rs1)
      OR push_bit 7 (reg5 rd)"

definition RV32_RET :: u32 where "RV32_RET = 0x00008067"

definition encode_rtype :: "u8 \<Rightarrow> u8 \<Rightarrow> u8 \<Rightarrow> u32 \<Rightarrow> u32 \<Rightarrow> u32" where
  "encode_rtype rd rs1 rs2 funct7 funct3 =
    0x33 OR push_bit 25 funct7 OR push_bit 20 (reg5 rs2) OR push_bit 15 (reg5 rs1) OR push_bit 12 funct3
      OR push_bit 7 (reg5 rd)"

definition riscv_mov_imm :: "u8 \<Rightarrow> u32 \<Rightarrow> EmitError + u32 list" where
  "riscv_mov_imm reg imm =
    (if imm \<le> 0x7FF \<or> imm \<ge> 0xFFFFF800 then Inr [encode_addi reg 0 imm]
     else
       (let hi20 = drop_bit 12 (imm + 0x800);
            lo12 = imm - push_bit 12 hi20
        in Inr (encode_lui reg hi20 # (if lo12 \<noteq> 0 then [encode_addi reg reg lo12] else []))))"

definition riscv_store_u32 :: "u8 \<Rightarrow> u8 \<Rightarrow> EmitError + u32 list" where
  "riscv_store_u32 src_reg addr_reg =
    (case encode_sw src_reg addr_reg 0 of Some w \<Rightarrow> Inr [w] | None \<Rightarrow> Inl BadRegister)"

definition riscv_load_u32 :: "u8 \<Rightarrow> u8 \<Rightarrow> EmitError + u32 list" where
  "riscv_load_u32 dst_reg addr_reg =
    (case encode_lw dst_reg addr_reg 0 of Some w \<Rightarrow> Inr [w] | None \<Rightarrow> Inl BadRegister)"

definition riscv_add :: "u8 \<Rightarrow> u8 \<Rightarrow> u8 \<Rightarrow> EmitError + u32 list" where
  "riscv_add dst a b = Inr [encode_rtype_addsub dst a b False]"

definition riscv_sub :: "u8 \<Rightarrow> u8 \<Rightarrow> u8 \<Rightarrow> EmitError + u32 list" where
  "riscv_sub dst a b = Inr [encode_rtype_addsub dst a b True]"

definition riscv_mul :: "u8 \<Rightarrow> u8 \<Rightarrow> u8 \<Rightarrow> EmitError + u32 list" where
  "riscv_mul dst a b = Inr [encode_rtype dst a b 0x01 0x00]"

definition riscv_div :: "u8 \<Rightarrow> u8 \<Rightarrow> u8 \<Rightarrow> EmitError + u32 list" where
  "riscv_div dst a b = Inr [encode_rtype dst a b 0x01 0x04]"

definition riscv_ret :: "EmitError + u32 list" where
  "riscv_ret = Inr [RV32_RET]"

definition riscv_mov_ret :: "u32 \<Rightarrow> u32 Emitter \<Rightarrow> (EmitError + unit) \<times> u32 Emitter" where
  "riscv_mov_ret imm em =
    (case emit em (riscv_mov_imm 10 imm) of
       (Inl e, em') \<Rightarrow> (Inl e, em')
     | (Inr _, em') \<Rightarrow> emit em' riscv_ret)"

definition riscv_cap_guard_scalar :: "EmitError + u32 list" where
  "riscv_cap_guard_scalar = Inr [0x00C55133, 0x03F55033, 0x00058063]"

definition riscv_cap_guard_vector :: "u32 \<Rightarrow> EmitError + u32 list" where
  "riscv_cap_guard_vector len = (if len > 256 then Inl Overflow else Inr [0xF3AF8000 OR (len AND 0xFF)])"

definition riscv_cap_guard_custom :: "u8 \<Rightarrow> u8 \<Rightarrow> EmitError + u32 list" where
  "riscv_cap_guard_custom addr_reg cap_reg =
    Inr [push_bit 25 1 OR push_bit 20 (reg5 cap_reg) OR push_bit 15 (reg5 addr_reg) OR push_bit 12 0 OR 0x0B]"

section \<open>Reference decoders\<close>

text \<open>Bits \<open>lo + n - 1\<close> down to \<open>lo\<close> of a word, and the same as a register number.\<close>

definition fld :: "'a::len word \<Rightarrow> nat \<Rightarrow> nat \<Rightarrow> 'a word" where
  "fld w lo n = take_bit n (drop_bit lo w)"

definition rfld :: "'a::len word \<Rightarrow> nat \<Rightarrow> nat \<Rightarrow> u8" where
  "rfld w lo n = ucast (fld w lo n)"

text \<open>Thumb: the instructions the emitter uses, with their registers and immediates.\<close>

datatype thumb =
    MOVS_imm u8 u32
  | MOVW u8 u32
  | MOVT u8 u32
  | STR_imm u8 u8 u32
  | LDR_imm u8 u8 u32
  | ADDS u8 u8 u8
  | SUBS u8 u8 u8
  | MOVS_reg u8 u8
  | MULS u8 u8
  | SDIV u8 u8 u8
  | BX_LR
  | UDF u8

definition thumb16 :: "u16 \<Rightarrow> thumb option" where
  "thumb16 h =
    (if h = 0x4770 then Some BX_LR
     else if fld h 11 5 = 4 then Some (MOVS_imm (rfld h 8 3) (ucast (fld h 0 8)))
     else if fld h 11 5 = 12 then Some (STR_imm (rfld h 0 3) (rfld h 3 3) (push_bit 2 (ucast (fld h 6 5))))
     else if fld h 11 5 = 13 then Some (LDR_imm (rfld h 0 3) (rfld h 3 3) (push_bit 2 (ucast (fld h 6 5))))
     else if fld h 9 7 = 12 then Some (ADDS (rfld h 0 3) (rfld h 3 3) (rfld h 6 3))
     else if fld h 9 7 = 13 then Some (SUBS (rfld h 0 3) (rfld h 3 3) (rfld h 6 3))
     else if fld h 6 10 = 0 then Some (MOVS_reg (rfld h 0 3) (rfld h 3 3))
     else if fld h 6 10 = 269 then Some (MULS (rfld h 0 3) (rfld h 3 3))
     else if fld h 8 8 = 222 then Some (UDF (rfld h 0 8))
     else None)"

definition imm16 :: "u16 \<Rightarrow> u16 \<Rightarrow> u32" where
  "imm16 h1 h2 =
    push_bit 12 (ucast (fld h1 0 4)) OR push_bit 11 (of_bool (bit h1 10))
      OR push_bit 8 (ucast (fld h2 12 3)) OR ucast (fld h2 0 8)"

definition thumb32 :: "u16 \<Rightarrow> u16 \<Rightarrow> thumb option" where
  "thumb32 h1 h2 =
    (if fld h1 11 5 = 30 \<and> fld h1 4 6 = 36 \<and> \<not> bit h2 15
     then Some (MOVW (rfld h2 8 4) (imm16 h1 h2))
     else if fld h1 11 5 = 30 \<and> fld h1 4 6 = 44 \<and> \<not> bit h2 15
     then Some (MOVT (rfld h2 8 4) (imm16 h1 h2))
     else if fld h1 4 12 = 0xFB9 \<and> fld h2 12 4 = 15 \<and> fld h2 4 4 = 15
     then Some (SDIV (rfld h2 8 4) (rfld h1 0 4) (rfld h2 0 4))
     else None)"

text \<open>A halfword with one of these leading fields is the first of two.\<close>

definition is_thumb32 :: "u16 \<Rightarrow> bool" where
  "is_thumb32 h \<longleftrightarrow> fld h 11 5 = 29 \<or> fld h 11 5 = 30 \<or> fld h 11 5 = 31"

text \<open>RV32IM.\<close>

datatype rv =
    LUI u8 u32
  | ADDI u8 u8 u32
  | SW u8 u8 u32
  | LW u8 u8 u32
  | ADD u8 u8 u8
  | SUB u8 u8 u8
  | MUL u8 u8 u8
  | DIV u8 u8 u8
  | JALR u8 u8 u32

text \<open>A 12-bit field, sign-extended.\<close>

definition sext12 :: "u32 \<Rightarrow> u32" where
  "sext12 w = signed_take_bit 11 w"

definition rv_decode :: "u32 \<Rightarrow> rv option" where
  "rv_decode w =
    (let opc = fld w 0 7; rd = rfld w 7 5; f3 = fld w 12 3; rs1 = rfld w 15 5; rs2 = rfld w 20 5;
         f7 = fld w 25 7; immI = sext12 (fld w 20 12); immS = sext12 (push_bit 5 f7 OR fld w 7 5)
     in if opc = 0x37 then Some (LUI rd (push_bit 12 (fld w 12 20)))
        else if opc = 0x13 \<and> f3 = 0 then Some (ADDI rd rs1 immI)
        else if opc = 0x23 \<and> f3 = 2 then Some (SW rs2 rs1 immS)
        else if opc = 0x03 \<and> f3 = 2 then Some (LW rd rs1 immI)
        else if opc = 0x33 \<and> f3 = 0 \<and> f7 = 0 then Some (ADD rd rs1 rs2)
        else if opc = 0x33 \<and> f3 = 0 \<and> f7 = 0x20 then Some (SUB rd rs1 rs2)
        else if opc = 0x33 \<and> f3 = 0 \<and> f7 = 1 then Some (MUL rd rs1 rs2)
        else if opc = 0x33 \<and> f3 = 4 \<and> f7 = 1 then Some (DIV rd rs1 rs2)
        else if opc = 0x67 \<and> f3 = 0 then Some (JALR rd rs1 immI)
        else None)"

section \<open>Execution of straight-line code\<close>

type_synonym cpu = "(u8 \<Rightarrow> u32) \<times> mem"

text \<open>Signed division, truncating; by zero it gives 0 on ARM and all ones on RISC-V.\<close>

definition signed_div :: "u32 \<Rightarrow> u32 \<Rightarrow> u32" where
  "signed_div a b = word_of_int (sint a sdiv sint b)"

fun thumb_step :: "thumb \<Rightarrow> cpu \<Rightarrow> cpu" where
  "thumb_step (MOVS_imm d i) (r, m) = (r(d := i), m)"
| "thumb_step (MOVW d i) (r, m) = (r(d := i), m)"
| "thumb_step (MOVT d i) (r, m) = (r(d := push_bit 16 i OR take_bit 16 (r d)), m)"
| "thumb_step (STR_imm t n off) (r, m) = (r, poke_u32 m (r n + off) (r t))"
| "thumb_step (LDR_imm t n off) (r, m) = (r(t := peek_u32 m (r n + off)), m)"
| "thumb_step (ADDS d n k) (r, m) = (r(d := r n + r k), m)"
| "thumb_step (SUBS d n k) (r, m) = (r(d := r n - r k), m)"
| "thumb_step (MOVS_reg d n) (r, m) = (r(d := r n), m)"
| "thumb_step (MULS d n) (r, m) = (r(d := r n * r d), m)"
| "thumb_step (SDIV d n k) (r, m) = (r(d := (if r k = 0 then 0 else signed_div (r n) (r k))), m)"
| "thumb_step BX_LR s = s"
| "thumb_step (UDF i) s = s"

text \<open>Execution up to the return; \<open>None\<close> if the code ends first, traps or is undefined.\<close>

fun thumb_exec :: "u16 list \<Rightarrow> cpu \<Rightarrow> cpu option" where
  "thumb_exec [] s = None"
| "thumb_exec [h] s = (if thumb16 h = Some BX_LR then Some s else None)"
| "thumb_exec (h # h' # hs) s =
    (if is_thumb32 h then
       (case thumb32 h h' of None \<Rightarrow> None | Some i \<Rightarrow> thumb_exec hs (thumb_step i s))
     else
       (case thumb16 h of
          None \<Rightarrow> None
        | Some BX_LR \<Rightarrow> Some s
        | Some (UDF i) \<Rightarrow> None
        | Some i \<Rightarrow> thumb_exec (h' # hs) (thumb_step i s)))"

definition rv_get :: "(u8 \<Rightarrow> u32) \<Rightarrow> u8 \<Rightarrow> u32" where
  "rv_get r i = (if i = 0 then 0 else r i)"

fun rv_step :: "rv \<Rightarrow> cpu \<Rightarrow> cpu" where
  "rv_step (LUI d i) (r, m) = (r(d := i), m)"
| "rv_step (ADDI d a i) (r, m) = (r(d := rv_get r a + i), m)"
| "rv_step (SW s a i) (r, m) = (r, poke_u32 m (rv_get r a + i) (rv_get r s))"
| "rv_step (LW d a i) (r, m) = (r(d := peek_u32 m (rv_get r a + i)), m)"
| "rv_step (ADD d a b) (r, m) = (r(d := rv_get r a + rv_get r b), m)"
| "rv_step (SUB d a b) (r, m) = (r(d := rv_get r a - rv_get r b), m)"
| "rv_step (MUL d a b) (r, m) = (r(d := rv_get r a * rv_get r b), m)"
| "rv_step (DIV d a b) (r, m) =
    (r(d := (if rv_get r b = 0 then - 1 else signed_div (rv_get r a) (rv_get r b))), m)"
| "rv_step (JALR d a i) s = s"

fun rv_exec :: "u32 list \<Rightarrow> cpu \<Rightarrow> cpu option" where
  "rv_exec [] s = None"
| "rv_exec (w # ws) s =
    (case rv_decode w of
       None \<Rightarrow> None
     | Some (JALR d a i) \<Rightarrow> if d = 0 \<and> a = 1 \<and> i = 0 then Some s else None
     | Some i \<Rightarrow> rv_exec ws (rv_step i s))"

section \<open>The encodings against the decoders\<close>

text \<open>Fields are compared bit by bit.\<close>

lemmas field_defs = word_bits_eq_iff fld_def rfld_def reg5_def
lemmas bit_cases = numeral_eq_Suc All_less_Suc

lemma addi_fields:
  "fld (encode_addi rd rs1 imm) 0 7 = 0x13" "fld (encode_addi rd rs1 imm) 12 3 = 0"
  "rfld (encode_addi rd rs1 imm) 7 5 = take_bit 5 rd" "rfld (encode_addi rd rs1 imm) 15 5 = take_bit 5 rs1"
  "fld (encode_addi rd rs1 imm) 20 12 = take_bit 12 imm"
  unfolding field_defs encode_addi_def by (simp add: bit_simps; simp add: bit_cases)+

lemma sext12_take: "sext12 (take_bit 12 imm) = sext12 imm"
  unfolding sext12_def by (rule bit_word_eqI) (auto simp: bit_simps)

lemma decode_addi: "rv_decode (encode_addi rd rs1 imm) = Some (ADDI (take_bit 5 rd) (take_bit 5 rs1) (sext12 imm))"
  unfolding rv_decode_def Let_def addi_fields sext12_take by simp

lemma sw_fields:
  "fld (sw_word rs2 rs1 off) 0 7 = 0x23" "fld (sw_word rs2 rs1 off) 12 3 = 2"
  "rfld (sw_word rs2 rs1 off) 20 5 = take_bit 5 rs2" "rfld (sw_word rs2 rs1 off) 15 5 = take_bit 5 rs1"
  "fld (sw_word rs2 rs1 off) 25 7 = drop_bit 5 (take_bit 12 off)"
  "fld (sw_word rs2 rs1 off) 7 5 = take_bit 5 off"
  unfolding field_defs sw_word_def Let_def by (simp add: bit_simps; simp add: bit_cases)+

lemma split12: "push_bit 5 (drop_bit 5 (take_bit 12 off)) OR take_bit 5 off = take_bit 12 (off::u32)"
  by (rule bit_word_eqI) (auto simp: bit_simps)

lemma lw_fields:
  "fld (lw_word rd rs1 off) 0 7 = 0x03" "fld (lw_word rd rs1 off) 12 3 = 2"
  "rfld (lw_word rd rs1 off) 7 5 = take_bit 5 rd" "rfld (lw_word rd rs1 off) 15 5 = take_bit 5 rs1"
  "fld (lw_word rd rs1 off) 20 12 = take_bit 12 off"
  unfolding field_defs lw_word_def by (simp add: bit_simps; simp add: bit_cases)+

lemma rtype_fields:
  assumes 1: "take_bit 7 f7 = f7" "take_bit 3 f3 = f3"
  shows "fld (encode_rtype rd rs1 rs2 f7 f3) 0 7 = 0x33"
    "fld (encode_rtype rd rs1 rs2 f7 f3) 12 3 = f3"
    "fld (encode_rtype rd rs1 rs2 f7 f3) 25 7 = f7"
    "rfld (encode_rtype rd rs1 rs2 f7 f3) 7 5 = take_bit 5 rd"
    "rfld (encode_rtype rd rs1 rs2 f7 f3) 15 5 = take_bit 5 rs1"
    "rfld (encode_rtype rd rs1 rs2 f7 f3) 20 5 = take_bit 5 rs2"
proof -
  have 2: "encode_rtype rd rs1 rs2 f7 f3 = 0x33 OR push_bit 25 (take_bit 7 f7) OR push_bit 20 (reg5 rs2)
     OR push_bit 15 (reg5 rs1) OR push_bit 12 (take_bit 3 f3) OR push_bit 7 (reg5 rd)"
    unfolding 1 encode_rtype_def ..
  show 
 "fld (encode_rtype rd rs1 rs2 f7 f3) 0 7 = 0x33"
    "rfld (encode_rtype rd rs1 rs2 f7 f3) 7 5 = take_bit 5 rd"
    "rfld (encode_rtype rd rs1 rs2 f7 f3) 15 5 = take_bit 5 rs1"
    "rfld (encode_rtype rd rs1 rs2 f7 f3) 20 5 = take_bit 5 rs2"
    unfolding 2 field_defs by (simp add: bit_simps; simp add: bit_cases)+
  have "fld (encode_rtype rd rs1 rs2 f7 f3) 12 3 = take_bit 3 f3"
    "fld (encode_rtype rd rs1 rs2 f7 f3) 25 7 = take_bit 7 f7"
    unfolding 2 field_defs by (simp add: bit_simps; simp add: bit_cases)+
  then show "fld (encode_rtype rd rs1 rs2 f7 f3) 12 3 = f3"
    "fld (encode_rtype rd rs1 rs2 f7 f3) 25 7 = f7" unfolding 1 .
qed

lemma addsub_rtype: "encode_rtype_addsub rd rs1 rs2 sub = encode_rtype rd rs1 rs2 (if sub then 0x20 else 0) 0"
  by (simp add: encode_rtype_addsub_def encode_rtype_def)

lemma lui_fields:
  "fld (encode_lui rd imm) 0 7 = 0x37"
  "rfld (encode_lui rd imm) 7 5 = take_bit 5 rd"
  "fld (encode_lui rd imm) 12 20 = push_bit 8 (take_bit 12 imm)"
  unfolding field_defs encode_lui_def by (simp add: bit_simps; simp add: bit_cases)+

lemma movw_halves:
  "fld (fst (encode_movw rd imm)) 11 5 = 30" "fld (fst (encode_movw rd imm)) 4 6 = 36"
  "bit (snd (encode_movw rd imm)) 15 = False" "rfld (snd (encode_movw rd imm)) 8 4 = take_bit 4 rd"
  "fld (fst (encode_movw rd imm)) 0 4 = ucast (fld imm 12 4)"
  "bit (fst (encode_movw rd imm)) 10 = bit imm 11"
  "fld (snd (encode_movw rd imm)) 12 3 = ucast (fld imm 8 3)"
  "fld (snd (encode_movw rd imm)) 0 8 = ucast (fld imm 0 8)"
  unfolding field_defs encode_movw_def movw_fields_def Let_def fst_conv snd_conv
  by (simp add: bit_simps; simp add: bit_cases)+

lemma movt_halves:
  "fld (fst (encode_movt rd imm)) 11 5 = 30" "fld (fst (encode_movt rd imm)) 4 6 = 44"
  "bit (snd (encode_movt rd imm)) 15 = False" "rfld (snd (encode_movt rd imm)) 8 4 = take_bit 4 rd"
  "fld (fst (encode_movt rd imm)) 0 4 = ucast (fld (drop_bit 16 imm) 12 4)"
  "bit (fst (encode_movt rd imm)) 10 = bit (drop_bit 16 imm) 11"
  "fld (snd (encode_movt rd imm)) 12 3 = ucast (fld (drop_bit 16 imm) 8 3)"
  "fld (snd (encode_movt rd imm)) 0 8 = ucast (fld (drop_bit 16 imm) 0 8)"
  unfolding field_defs encode_movt_def movw_fields_def Let_def fst_conv snd_conv
  by (simp add: bit_simps; simp add: bit_cases)+

lemma imm16_fields:
  fixes v :: u32
  shows "push_bit 12 (ucast (ucast (fld v 12 4) :: u16)) OR push_bit 11 (of_bool (bit v 11))
    OR push_bit 8 (ucast (ucast (fld v 8 3) :: u16)) OR ucast (ucast (fld v 0 8) :: u16) = take_bit 16 v"
  unfolding field_defs by (simp add: bit_simps; simp add: bit_cases)

lemma decode_movw:
  "thumb32 (fst (encode_movw rd imm)) (snd (encode_movw rd imm)) = Some (MOVW (take_bit 4 rd) (take_bit 16 imm))"
  "thumb32 (fst (encode_movt rd imm)) (snd (encode_movt rd imm)) = Some (MOVT (take_bit 4 rd) (take_bit 16 (drop_bit 16 imm)))"
  unfolding thumb32_def imm16_def movw_halves movt_halves imm16_fields by simp_all

lemma take_bit_reg3: "r \<le> (7::u8) \<Longrightarrow> take_bit 3 r = r"
  by (simp add: word_unat_eq_iff unsigned_take_bit_eq take_bit_nat_eq_self_iff word_le_nat_alt)

lemma take_bit_reg4: "r \<le> (15::u8) \<Longrightarrow> take_bit 4 r = r"
  by (simp add: word_unat_eq_iff unsigned_take_bit_eq take_bit_nat_eq_self_iff word_le_nat_alt)

text \<open>The common form of the 16-bit encodings: three register fields of three bits.\<close>

definition reg3 :: "u8 \<Rightarrow> u16" where
  "reg3 r = ucast (take_bit 3 r)"

lemma reg3_ucast: "r \<le> 7 \<Longrightarrow> ucast r = reg3 r"
  by (simp add: reg3_def take_bit_reg3)

definition form3 :: "u16 \<Rightarrow> u8 \<Rightarrow> u8 \<Rightarrow> u8 \<Rightarrow> u16" where
  "form3 opc b a d = opc OR push_bit 6 (reg3 b) OR push_bit 3 (reg3 a) OR reg3 d"

lemma form3_regs:
  assumes "take_bit 9 opc = 0"
  shows "rfld (form3 opc b a d) 0 3 = take_bit 3 d" "rfld (form3 opc b a d) 3 3 = take_bit 3 a"
    "rfld (form3 opc b a d) 6 3 = take_bit 3 b" "fld (form3 opc b a d) 9 7 = fld opc 9 7"
    "fld (form3 opc b a d) 11 5 = fld opc 11 5"
proof -
  have opc: "\<not> bit opc n" if "n < 9" for n
    using assms that by (metis bit_0_eq bit_take_bit_iff bot_apply bot_bool_def)
  show "rfld (form3 opc b a d) 0 3 = take_bit 3 d" "rfld (form3 opc b a d) 3 3 = take_bit 3 a"
    "rfld (form3 opc b a d) 6 3 = take_bit 3 b" "fld (form3 opc b a d) 9 7 = fld opc 9 7"
    "fld (form3 opc b a d) 11 5 = fld opc 11 5"
    unfolding field_defs form3_def reg3_def by (auto simp: bit_simps opc)
qed

lemma not_bx: "fld h 11 5 \<noteq> 8 \<Longrightarrow> h \<noteq> 0x4770" for h :: u16
  by (auto simp: fld_def)

lemma decode_form3:
  assumes "d \<le> 7" "a \<le> 7" "b \<le> 7"
  shows "thumb16 (0x1800 OR push_bit 6 (ucast b) OR push_bit 3 (ucast a) OR ucast d) = Some (ADDS d a b)"
    "thumb16 (0x1A00 OR push_bit 6 (ucast b) OR push_bit 3 (ucast a) OR ucast d) = Some (SUBS d a b)"
    "\<not> is_thumb32 (0x1800 OR push_bit 6 (ucast b) OR push_bit 3 (ucast a) OR ucast d)"
    "\<not> is_thumb32 (0x1A00 OR push_bit 6 (ucast b) OR push_bit 3 (ucast a) OR ucast d)"
proof -
  have w: "0x1800 OR push_bit 6 (ucast b) OR push_bit 3 (ucast a) OR ucast d = form3 0x1800 b a d"
    "0x1A00 OR push_bit 6 (ucast b) OR push_bit 3 (ucast a) OR ucast d = form3 0x1A00 b a d"
    using assms by (simp_all add: form3_def reg3_ucast)
  have f: "fld (form3 0x1800 b a d) 11 5 = 3" "fld (form3 0x1A00 b a d) 11 5 = 3"
    "fld (form3 0x1800 b a d) 9 7 = 12" "fld (form3 0x1A00 b a d) 9 7 = 13"
    by (subst form3_regs; simp add: fld_def)+
  have ne: "form3 0x1800 b a d \<noteq> 0x4770" "form3 0x1A00 b a d \<noteq> 0x4770"
    using f by (auto intro!: not_bx)
  show "thumb16 (0x1800 OR push_bit 6 (ucast b) OR push_bit 3 (ucast a) OR ucast d) = Some (ADDS d a b)"
    "thumb16 (0x1A00 OR push_bit 6 (ucast b) OR push_bit 3 (ucast a) OR ucast d) = Some (SUBS d a b)"
    unfolding w thumb16_def f using ne assms by (simp_all add: form3_regs take_bit_reg3)
  show "\<not> is_thumb32 (0x1800 OR push_bit 6 (ucast b) OR push_bit 3 (ucast a) OR ucast d)"
    "\<not> is_thumb32 (0x1A00 OR push_bit 6 (ucast b) OR push_bit 3 (ucast a) OR ucast d)"
    unfolding w is_thumb32_def f by simp_all
qed

lemma muls_fields:
  "fld (0x4340 OR push_bit 3 (reg3 b) OR reg3 d) 11 5 = 8"
  "fld (0x4340 OR push_bit 3 (reg3 b) OR reg3 d) 9 7 = 0x21"
  "fld (0x4340 OR push_bit 3 (reg3 b) OR reg3 d) 6 10 = 269"
  "rfld (0x4340 OR push_bit 3 (reg3 b) OR reg3 d) 0 3 = take_bit 3 d"
  "rfld (0x4340 OR push_bit 3 (reg3 b) OR reg3 d) 3 3 = take_bit 3 b"
  unfolding field_defs reg3_def by (simp add: bit_simps; simp add: bit_cases)+

lemma movs_reg_fields:
  "fld (push_bit 3 (reg3 b) OR reg3 d) 11 5 = 0"
  "fld (push_bit 3 (reg3 b) OR reg3 d) 9 7 = 0"
  "fld (push_bit 3 (reg3 b) OR reg3 d) 6 10 = 0"
  "rfld (push_bit 3 (reg3 b) OR reg3 d) 0 3 = take_bit 3 d"
  "rfld (push_bit 3 (reg3 b) OR reg3 d) 3 3 = take_bit 3 b"
  unfolding field_defs reg3_def by (simp add: bit_simps; simp add: bit_cases)+

lemma decode_muls:
  assumes "d \<le> 7" "b \<le> 7"
  shows "thumb16 (0x4340 OR push_bit 3 (ucast b) OR ucast d) = Some (MULS d b)"
    "thumb16 (push_bit 3 (ucast b) OR ucast d) = Some (MOVS_reg d b)"
    "\<not> is_thumb32 (0x4340 OR push_bit 3 (ucast b) OR ucast d)"
    "\<not> is_thumb32 (push_bit 3 (ucast b) OR ucast d)"
proof -
  note w = reg3_ucast [OF assms(1)] reg3_ucast [OF assms(2)]
  have "fld (0x4770::u16) 6 10 = 0x11D"
    by (simp add: fld_def)
  then have "0x4340 OR push_bit 3 (reg3 b) OR reg3 d \<noteq> 0x4770"
    using muls_fields(3) [of b d] by auto
  moreover have "push_bit 3 (reg3 b) OR reg3 d \<noteq> 0x4770"
    using movs_reg_fields(1) by (auto intro!: not_bx)
  ultimately show "thumb16 (0x4340 OR push_bit 3 (ucast b) OR ucast d) = Some (MULS d b)"
    "thumb16 (push_bit 3 (ucast b) OR ucast d) = Some (MOVS_reg d b)"
    unfolding w thumb16_def muls_fields movs_reg_fields using assms by (simp_all add: take_bit_reg3)
  show "\<not> is_thumb32 (0x4340 OR push_bit 3 (ucast b) OR ucast d)"
    "\<not> is_thumb32 (push_bit 3 (ucast b) OR ucast d)"
    unfolding w is_thumb32_def muls_fields movs_reg_fields by simp_all
qed

lemma ls_fields:
  "fld (0x6000 OR push_bit 6 (take_bit 5 k) OR push_bit 3 (reg3 n) OR reg3 t) 11 5 = 12"
  "fld (0x6000 OR push_bit 6 (take_bit 5 k) OR push_bit 3 (reg3 n) OR reg3 t) 6 5 = take_bit 5 k"
  "rfld (0x6000 OR push_bit 6 (take_bit 5 k) OR push_bit 3 (reg3 n) OR reg3 t) 3 3 = take_bit 3 n"
  "rfld (0x6000 OR push_bit 6 (take_bit 5 k) OR push_bit 3 (reg3 n) OR reg3 t) 0 3 = take_bit 3 t"
  "fld (0x6800 OR push_bit 6 (take_bit 5 k) OR push_bit 3 (reg3 n) OR reg3 t) 11 5 = 13"
  "fld (0x6800 OR push_bit 6 (take_bit 5 k) OR push_bit 3 (reg3 n) OR reg3 t) 6 5 = take_bit 5 k"
  "rfld (0x6800 OR push_bit 6 (take_bit 5 k) OR push_bit 3 (reg3 n) OR reg3 t) 3 3 = take_bit 3 n"
  "rfld (0x6800 OR push_bit 6 (take_bit 5 k) OR push_bit 3 (reg3 n) OR reg3 t) 0 3 = take_bit 3 t"
  unfolding field_defs reg3_def by (simp add: bit_simps; simp add: bit_cases)+

lemma ls_offset:
  fixes off :: u32
  assumes "off \<le> 124" "off mod 4 = 0"
  shows "take_bit 5 (ucast (off div 4) :: u16) = ucast (off div 4)"
    "push_bit 2 (ucast (ucast (off div 4) :: u16)) = off"
proof -
  have "unat (off mod 4) = unat (0 :: u32)"
    by (simp only: assms(2))
  then have u: "unat off \<le> 124" "unat off mod 4 = 0"
    using assms(1) by (simp_all only: word_le_nat_alt unat_mod) simp_all
  have "unat (ucast (off div 4) :: u16) = unat off div 4"
    using u by (simp add: unat_div unsigned_ucast_eq take_bit_nat_eq_self_iff)
  then show "take_bit 5 (ucast (off div 4) :: u16) = ucast (off div 4)"
    using u(1) by (simp add: word_unat_eq_iff unsigned_take_bit_eq take_bit_nat_eq_self_iff)
  have "unat (ucast (ucast (off div 4) :: u16) :: u32) = unat off div 4"
    using u by (simp add: unat_div unsigned_ucast_eq unsigned_take_bit_eq take_bit_nat_eq_self_iff)
  then show "push_bit 2 (ucast (ucast (off div 4) :: u16)) = off"
    using u mod_mult_div_eq [of "unat off" 4]
    by (simp add: word_unat_eq_iff push_bit_eq_mult unat_word_ariths mult.commute)
qed

lemma decode_ls:
  assumes "t \<le> 7" "n \<le> 7" "off \<le> 124" "off mod 4 = 0"
  shows "\<exists>h. encode_str_imm t n off = Some h \<and> thumb16 h = Some (STR_imm t n off) \<and> \<not> is_thumb32 h"
    "\<exists>h. encode_ldr_imm t n off = Some h \<and> thumb16 h = Some (LDR_imm t n off) \<and> \<not> is_thumb32 h"
proof -
  note ls = ls_fields [of "ucast (off div 4)" n t, unfolded ls_offset(1) [OF assms(3,4)]]
  note w = reg3_ucast [OF assms(1)] reg3_ucast [OF assms(2)]
  let ?s = "0x6000 OR push_bit 6 (ucast (off div 4)) OR push_bit 3 (reg3 n) OR reg3 t"
  let ?l = "0x6800 OR push_bit 6 (ucast (off div 4)) OR push_bit 3 (reg3 n) OR reg3 t"
  have "?s \<noteq> 0x4770" "?l \<noteq> 0x4770"
    using ls(1,5) by (auto intro!: not_bx)
  then have "thumb16 ?s = Some (STR_imm t n off)" "thumb16 ?l = Some (LDR_imm t n off)"
    unfolding thumb16_def ls ls_offset(2) [OF assms(3,4)] using assms by (simp_all add: take_bit_reg3)
  moreover have "\<not> is_thumb32 ?s" "\<not> is_thumb32 ?l"
    unfolding is_thumb32_def ls by simp_all
  moreover have "encode_str_imm t n off = Some ?s" "encode_ldr_imm t n off = Some ?l"
    unfolding encode_str_imm_def encode_ldr_imm_def ls_imm_def w using assms by (simp_all add: not_less)
  ultimately show "\<exists>h. encode_str_imm t n off = Some h \<and> thumb16 h = Some (STR_imm t n off) \<and> \<not> is_thumb32 h"
    "\<exists>h. encode_ldr_imm t n off = Some h \<and> thumb16 h = Some (LDR_imm t n off) \<and> \<not> is_thumb32 h"
    by blast+
qed

lemma movs_imm_fields:
  "fld (0x2000 OR push_bit 8 (reg3 d) OR (ucast imm AND 0xFF)) 11 5 = 4"
  "rfld (0x2000 OR push_bit 8 (reg3 d) OR (ucast imm AND 0xFF)) 8 3 = take_bit 3 d"
  "ucast (fld (0x2000 OR push_bit 8 (reg3 d) OR (ucast imm AND 0xFF)) 0 8) = take_bit 8 (imm :: u32)"
  unfolding field_defs reg3_def by (simp add: bit_simps; simp add: bit_cases)+

lemma decode_movs_imm:
  assumes "d \<le> 7" "imm \<le> 0xFF"
  shows "thumb16 (0x2000 OR push_bit 8 (ucast d) OR (ucast imm AND 0xFF)) = Some (MOVS_imm d imm)"
    "\<not> is_thumb32 (0x2000 OR push_bit 8 (ucast d) OR (ucast imm AND 0xFF))"
proof -
  let ?h = "0x2000 OR push_bit 8 (reg3 d) OR (ucast imm AND 0xFF)"
  have "take_bit 8 imm = imm"
    using assms(2) by (simp add: word_unat_eq_iff unsigned_take_bit_eq take_bit_nat_eq_self_iff word_le_nat_alt)
  moreover have "?h \<noteq> 0x4770"
    using movs_imm_fields(1) by (auto intro!: not_bx)
  ultimately show "thumb16 (0x2000 OR push_bit 8 (ucast d) OR (ucast imm AND 0xFF)) = Some (MOVS_imm d imm)"
    unfolding reg3_ucast [OF assms(1)] thumb16_def movs_imm_fields using assms by (simp add: take_bit_reg3)
  show "\<not> is_thumb32 (0x2000 OR push_bit 8 (ucast d) OR (ucast imm AND 0xFF))"
    unfolding reg3_ucast [OF assms(1)] is_thumb32_def movs_imm_fields by simp
qed

lemma movw_is_thumb32 [simp]: "is_thumb32 (fst (encode_movw rd imm))" "is_thumb32 (fst (encode_movt rd imm))"
  unfolding is_thumb32_def movw_halves movt_halves by simp_all

lemma sdiv_fields:
  assumes "rd \<le> 15" "rn \<le> 15" "rm \<le> 15"
  shows "fld (fst (encode_sdiv rd rn rm)) 11 5 = 31" "fld (snd (encode_sdiv rd rn rm)) 4 4 = 1"
proof -
  have w: "(ucast r :: u16) = ucast (take_bit 4 r)" if "r \<le> 15" for r :: u8
    using that by (simp add: take_bit_reg4)
  show "fld (fst (encode_sdiv rd rn rm)) 11 5 = 31"
    unfolding field_defs encode_sdiv_def fst_conv w [OF assms(2)]
    by (simp add: bit_simps; simp add: bit_cases)
  show "fld (snd (encode_sdiv rd rn rm)) 4 4 = 1"
    unfolding field_defs encode_sdiv_def snd_conv w [OF assms(1)] w [OF assms(3)]
    by (simp add: bit_simps; simp add: bit_cases)
qed

section \<open>Execution of the emitted fragments\<close>

lemma thumb_exec_16:
  assumes "thumb16 h = Some i" "\<not> is_thumb32 h" "i \<noteq> BX_LR" "\<And>k. i \<noteq> UDF k"
  shows "thumb_exec (h # rest) s = thumb_exec rest (thumb_step i s)"
  using assms by (cases rest; cases i) auto

lemma thumb_exec_32:
  "thumb32 h1 h2 = Some i \<Longrightarrow> is_thumb32 h1 \<Longrightarrow> thumb_exec (h1 # h2 # rest) s = thumb_exec rest (thumb_step i s)"
  by simp

lemma thumb_exec_ret: "thumb_exec (0x4770 # rest) s = Some s"
  by (cases rest) (simp_all add: thumb16_def is_thumb32_def fld_def)

text \<open>\<open>runs exec c f\<close>: the code \<open>c\<close>, whatever follows it, changes the state by \<open>f\<close>.\<close>

definition runs :: "('h list \<Rightarrow> cpu \<Rightarrow> cpu option) \<Rightarrow> 'h list \<Rightarrow> (cpu \<Rightarrow> cpu) \<Rightarrow> bool" where
  "runs exec c f \<longleftrightarrow> (\<forall>rest s. exec (c @ rest) s = exec rest (f s))"

lemma runsD: "runs exec c f \<Longrightarrow> exec (c @ rest) s = exec rest (f s)"
  unfolding runs_def by blast

definition set_reg :: "u8 \<Rightarrow> u32 \<Rightarrow> cpu \<Rightarrow> cpu" where
  "set_reg d v s = ((fst s)(d := v), snd s)"

lemma thumb_mov_imm_runs:
  assumes "reg \<le> 15"
  shows "\<exists>c. thumb_mov_imm reg imm = Inr c \<and> length c \<le> 4 \<and> runs thumb_exec c (set_reg reg imm)"
proof (cases "imm \<le> 0xFF \<and> reg < 8")
  case True
  then have "reg \<le> 7"
    by (simp add: word_le_nat_alt word_less_nat_alt)
  then show ?thesis
    using True assms decode_movs_imm [of reg imm]
    by (auto simp: thumb_mov_imm_def runs_def set_reg_def thumb_exec_16)
next
  case False
  let ?w = "encode_movw reg imm" and ?t = "encode_movt reg imm"
  have movw: "thumb_exec (fst ?w # snd ?w # rest) s = thumb_exec rest (set_reg reg (take_bit 16 imm) s)" for rest s
    using thumb_exec_32 [OF decode_movw(1) movw_is_thumb32(1)] assms
    by (cases s) (simp add: set_reg_def take_bit_reg4)
  have movt: "thumb_exec (fst ?t # snd ?t # rest) s
      = thumb_exec rest (set_reg reg (push_bit 16 (take_bit 16 (drop_bit 16 imm)) OR take_bit 16 (fst s reg)) s)" for rest s
    using thumb_exec_32 [OF decode_movw(2) movw_is_thumb32(2)] assms
    by (cases s) (simp add: set_reg_def take_bit_reg4)
  have whole: "push_bit 16 (take_bit 16 (drop_bit 16 imm)) OR take_bit 16 (take_bit 16 imm) = imm"
    by (rule bit_word_eqI) (auto simp: bit_simps)
  have low: "take_bit 16 imm = imm" if "drop_bit 16 imm = 0"
    using that whole by simp
  show ?thesis
    using False assms movw movt whole low
    by (auto simp: thumb_mov_imm_def runs_def split_def Let_def set_reg_def not_less)
qed

lemma thumb_store_runs:
  assumes "src \<le> 7" "a \<le> 7"
  shows "\<exists>c. thumb_store_u32 src a = Inr c \<and> length c = 1
    \<and> runs thumb_exec c (\<lambda>s. (fst s, poke_u32 (snd s) (fst s a) (fst s src)))"
proof -
  obtain h where "encode_str_imm src a 0 = Some h" "thumb16 h = Some (STR_imm src a 0)" "\<not> is_thumb32 h"
    using decode_ls(1) [OF assms, of 0] by auto
  then show ?thesis
    by (auto simp: thumb_store_u32_def runs_def thumb_exec_16)
qed

lemma thumb_load_runs:
  assumes "d \<le> 7" "a \<le> 7"
  shows "\<exists>c. thumb_load_u32 d a = Inr c \<and> length c = 1
    \<and> runs thumb_exec c (\<lambda>s. set_reg d (peek_u32 (snd s) (fst s a)) s)"
proof -
  obtain h where "encode_ldr_imm d a 0 = Some h" "thumb16 h = Some (LDR_imm d a 0)" "\<not> is_thumb32 h"
    using decode_ls(2) [OF assms, of 0] by auto
  then show ?thesis
    by (auto simp: thumb_load_u32_def runs_def thumb_exec_16 set_reg_def)
qed

lemma thumb_addsub_runs:
  assumes "d \<le> 7" "a \<le> 7" "b \<le> 7"
  shows "\<exists>c. thumb_add d a b = Inr c \<and> length c = 1 \<and> runs thumb_exec c (\<lambda>s. set_reg d (fst s a + fst s b) s)"
    "\<exists>c. thumb_sub d a b = Inr c \<and> length c = 1 \<and> runs thumb_exec c (\<lambda>s. set_reg d (fst s a - fst s b) s)"
  using assms decode_form3 [OF assms]
  by (auto simp: thumb_add_def thumb_sub_def runs_def thumb_exec_16 set_reg_def not_less)

lemma thumb_mul_runs:
  assumes "d \<le> 7" "a \<le> 7" "b \<le> 7"
  shows "\<exists>c. thumb_mul d a b = Inr c \<and> length c \<le> 2
    \<and> runs thumb_exec c (\<lambda>s. set_reg d (fst s a * (if b = d then fst s a else fst s b)) s)"
  using assms decode_muls [OF assms(1,3)] decode_muls [OF assms(1,2)]
  by (auto simp: thumb_mul_def runs_def thumb_exec_16 set_reg_def not_less mult.commute)

lemma sdiv_undefined:
  assumes "rd \<le> 15" "rn \<le> 15" "rm \<le> 15"
  shows "thumb32 (fst (encode_sdiv rd rn rm)) (snd (encode_sdiv rd rn rm)) = None"
    "is_thumb32 (fst (encode_sdiv rd rn rm))"
  unfolding thumb32_def is_thumb32_def sdiv_fields [OF assms] by simp_all

lemma rv_exec_step:
  "rv_decode w = Some i \<Longrightarrow> (\<And>d a k. i \<noteq> JALR d a k) \<Longrightarrow> rv_exec (w # ws) s = rv_exec ws (rv_step i s)"
  by (cases i) auto

lemma rv_exec_ret: "rv_exec (RV32_RET # rest) s = Some s"
  by (simp add: RV32_RET_def rv_decode_def Let_def fld_def rfld_def sext12_def)

lemma decode_ls_rv:
  "rv_decode (sw_word rs2 rs1 off) = Some (SW (take_bit 5 rs2) (take_bit 5 rs1) (sext12 off))"
  "rv_decode (lw_word rd rs1 off) = Some (LW (take_bit 5 rd) (take_bit 5 rs1) (sext12 off))"
  unfolding rv_decode_def Let_def sw_fields lw_fields split12 sext12_take by simp_all

lemma decode_rtype:
  "rv_decode (encode_rtype_addsub rd rs1 rs2 False) = Some (ADD (take_bit 5 rd) (take_bit 5 rs1) (take_bit 5 rs2))"
  "rv_decode (encode_rtype_addsub rd rs1 rs2 True) = Some (SUB (take_bit 5 rd) (take_bit 5 rs1) (take_bit 5 rs2))"
  "rv_decode (encode_rtype rd rs1 rs2 1 0) = Some (MUL (take_bit 5 rd) (take_bit 5 rs1) (take_bit 5 rs2))"
  "rv_decode (encode_rtype rd rs1 rs2 1 4) = Some (DIV (take_bit 5 rd) (take_bit 5 rs1) (take_bit 5 rs2))"
  by (simp_all add: rv_decode_def Let_def addsub_rtype rtype_fields)

lemma decode_lui:
  "rv_decode (encode_lui rd imm20) = Some (LUI (take_bit 5 rd) (push_bit 20 imm20))"
proof -
  have "push_bit 12 (push_bit 8 (take_bit 12 imm20)) = push_bit 20 imm20"
    by (rule bit_word_eqI) (auto simp: bit_simps)
  then show ?thesis
    unfolding rv_decode_def Let_def lui_fields by simp
qed

text \<open>Immediates of 12 bits, signed.\<close>

definition imm12 :: "u32 \<Rightarrow> bool" where
  "imm12 imm \<longleftrightarrow> imm \<le> 0x7FF \<or> imm \<ge> 0xFFFFF800"

lemma bits_below_11: "v \<le> 0x7FF \<Longrightarrow> bit v n \<Longrightarrow> n < 11" for v :: u32
proof -
  assume "v \<le> 0x7FF" "bit v n"
  then have "take_bit 11 v = v"
    by (simp add: word_unat_eq_iff unsigned_take_bit_eq take_bit_nat_eq_self_iff word_le_nat_alt)
  then show "n < 11"
    using \<open>bit v n\<close> by (metis bit_take_bit_iff)
qed

lemma sext12_imm12: "imm12 v \<Longrightarrow> sext12 v = v"
proof -
  assume "imm12 v"
  have "NOT v = 0xFFFFFFFF - v"
    by (simp add: not_eq_complement)
  then have "NOT v \<le> 0x7FF" if "v \<ge> 0xFFFFF800"
  proof -
    have "v \<le> 0xFFFFFFFF"
      using unat_less_u32 [of v] by (simp add: word_le_nat_alt)
    then show ?thesis
      using that \<open>NOT v = _\<close> by (simp add: word_le_nat_alt unat_sub)
  qed
  then consider "v \<le> 0x7FF" | "NOT v \<le> 0x7FF"
    using \<open>imm12 v\<close> by (auto simp: imm12_def)
  then show ?thesis
  proof cases
    case 1
    then show ?thesis
      unfolding sext12_def
      by (intro bit_word_eqI) (auto simp: bit_simps min_def dest: bits_below_11 [OF 1])
  next
    case 2
    have "bit v n" if "11 \<le> n" "n < 32" for n
      using bits_below_11 [OF 2, of n] that by (auto simp: bit_simps)
    then show ?thesis
      unfolding sext12_def by (intro bit_word_eqI) (auto simp: bit_simps min_def)
  qed
qed

lemma low_part_imm12: "imm12 (imm - push_bit 12 (drop_bit 12 (imm + 0x800)))"
proof -
  define x where "x = imm + 0x800"
  have "push_bit 12 (drop_bit 12 x) + take_bit 12 x = x"
    by (simp add: bits_ident)
  then have lo: "imm - push_bit 12 (drop_bit 12 x) = take_bit 12 x - 0x800"
    by (simp add: x_def algebra_simps)
  have "take_bit 12 x < 0x1000"
    using take_bit_nat_less_exp [of 12 "unat x"] by (simp add: word_less_nat_alt unsigned_take_bit_eq)
  then show ?thesis
    unfolding x_def [symmetric] lo imm12_def
    by (auto simp: word_le_nat_alt word_less_nat_alt unat_sub_if')
qed

lemma riscv_mov_imm_runs:
  assumes "0 < reg" "reg < 32"
  shows "\<exists>c. riscv_mov_imm reg imm = Inr c \<and> length c \<le> 2
    \<and> runs rv_exec c (set_reg reg
        (if imm12 imm then imm
         else push_bit 20 (drop_bit 12 (imm + 0x800)) + (imm - push_bit 12 (drop_bit 12 (imm + 0x800)))))"
proof -
  have reg: "take_bit 5 reg = reg" "reg \<noteq> 0"
    using assms by (auto simp: word_unat_eq_iff unsigned_take_bit_eq take_bit_nat_eq_self_iff word_less_nat_alt)
  have addi: "rv_exec (encode_addi reg a v # rest) s = rv_exec rest (set_reg reg (rv_get (fst s) (take_bit 5 a) + v) s)"
    if "imm12 v" for a v rest s
    using rv_exec_step [OF decode_addi] that by (cases s) (simp add: reg sext12_imm12 set_reg_def)
  have lui: "rv_exec (encode_lui reg v # rest) s = rv_exec rest (set_reg reg (push_bit 20 v) s)" for v rest s
    using rv_exec_step [OF decode_lui] by (cases s) (simp add: reg set_reg_def)
  show ?thesis
    using addi [of imm 0] addi [OF low_part_imm12, of reg imm] lui
    by (auto simp: riscv_mov_imm_def Let_def imm12_def [symmetric] runs_def set_reg_def rv_get_def reg)
qed

lemma riscv_load_store_runs:
  assumes "0 < d" "d < 32" "0 < a" "a < 32"
  shows "\<exists>c. riscv_load_u32 d a = Inr c \<and> length c = 1
      \<and> runs rv_exec c (\<lambda>s. set_reg d (peek_u32 (snd s) (fst s a)) s)"
    "\<exists>c. riscv_store_u32 d a = Inr c \<and> length c = 1
      \<and> runs rv_exec c (\<lambda>s. (fst s, poke_u32 (snd s) (fst s a) (fst s d)))"
proof -
  have reg: "take_bit 5 r = r" "r \<noteq> 0" if "0 < r" "r < 32" for r :: u8
    using that by (auto simp: word_unat_eq_iff unsigned_take_bit_eq take_bit_nat_eq_self_iff word_less_nat_alt)
  have z: "sext12 0 = 0"
    by (simp add: sext12_def)
  show "\<exists>c. riscv_load_u32 d a = Inr c \<and> length c = 1
      \<and> runs rv_exec c (\<lambda>s. set_reg d (peek_u32 (snd s) (fst s a)) s)"
    using assms by (auto simp: riscv_load_u32_def encode_lw_def off_rejected_def runs_def
        decode_ls_rv reg z rv_get_def set_reg_def)
  show "\<exists>c. riscv_store_u32 d a = Inr c \<and> length c = 1
      \<and> runs rv_exec c (\<lambda>s. (fst s, poke_u32 (snd s) (fst s a) (fst s d)))"
    using assms by (auto simp: riscv_store_u32_def encode_sw_def off_rejected_def runs_def
        decode_ls_rv reg z rv_get_def)
qed

lemma riscv_arith_runs:
  assumes "0 < d" "d < 32" "0 < a" "a < 32" "0 < b" "b < 32"
  shows "\<exists>c. riscv_add d a b = Inr c \<and> length c = 1 \<and> runs rv_exec c (\<lambda>s. set_reg d (fst s a + fst s b) s)"
    "\<exists>c. riscv_sub d a b = Inr c \<and> length c = 1 \<and> runs rv_exec c (\<lambda>s. set_reg d (fst s a - fst s b) s)"
    "\<exists>c. riscv_mul d a b = Inr c \<and> length c = 1 \<and> runs rv_exec c (\<lambda>s. set_reg d (fst s a * fst s b) s)"
    "\<exists>c. riscv_div d a b = Inr c \<and> length c = 1
      \<and> runs rv_exec c (\<lambda>s. set_reg d (if fst s b = 0 then - 1 else signed_div (fst s a) (fst s b)) s)"
proof -
  have reg: "take_bit 5 r = r" "r \<noteq> 0" if "0 < r" "r < 32" for r :: u8
    using that by (auto simp: word_unat_eq_iff unsigned_take_bit_eq take_bit_nat_eq_self_iff word_less_nat_alt)
  show "\<exists>c. riscv_add d a b = Inr c \<and> length c = 1 \<and> runs rv_exec c (\<lambda>s. set_reg d (fst s a + fst s b) s)"
    "\<exists>c. riscv_sub d a b = Inr c \<and> length c = 1 \<and> runs rv_exec c (\<lambda>s. set_reg d (fst s a - fst s b) s)"
    "\<exists>c. riscv_mul d a b = Inr c \<and> length c = 1 \<and> runs rv_exec c (\<lambda>s. set_reg d (fst s a * fst s b) s)"
    "\<exists>c. riscv_div d a b = Inr c \<and> length c = 1
      \<and> runs rv_exec c (\<lambda>s. set_reg d (if fst s b = 0 then - 1 else signed_div (fst s a) (fst s b)) s)"
    using assms by (auto simp: riscv_add_def riscv_sub_def riscv_mul_def riscv_div_def runs_def
        decode_rtype reg rv_get_def set_reg_def)
qed

text \<open>The shift by 20 moves no number of 20 bits other than 0 where the shift by 12 moves it.\<close>

lemma shift_20_12:
  fixes h :: u32
  assumes "push_bit 20 h = push_bit 12 h" "k < 20"
  shows "\<not> bit h k"
  using assms(2)
proof (induction k rule: less_induct)
  case (less k)
  have "bit h k \<longleftrightarrow> bit (push_bit 12 h) (k + 12)"
    using less.prems by (simp add: bit_simps)
  also have "\<dots> \<longleftrightarrow> 8 \<le> k \<and> bit h (k - 8)"
    using less.prems by (simp add: assms(1) [symmetric] bit_simps) arith?
  finally show ?case
    using less by auto
qed

lemma sext12_eq_iff: "sext12 v = v \<longleftrightarrow> imm12 v"
proof
  assume eq: "sext12 v = v"
  have b: "bit v n \<longleftrightarrow> bit v 11" if "11 \<le> n" "n < 32" for n
  proof -
    have "bit v n \<longleftrightarrow> bit (sext12 v) n"
      using eq by simp
    also have "\<dots> \<longleftrightarrow> bit v 11"
      using that by (simp add: sext12_def bit_simps min_def)
    finally show ?thesis .
  qed
  have small: "unat w \<le> 0x7FF" if "\<And>n. 11 \<le> n \<Longrightarrow> n < 32 \<Longrightarrow> \<not> bit w n" for w :: u32
  proof -
    have "bit w n \<longleftrightarrow> n < 11 \<and> bit w n" if "n < 32" for n
      using \<open>\<And>n. 11 \<le> n \<Longrightarrow> n < 32 \<Longrightarrow> \<not> bit w n\<close> [of n] that by (cases "n < 11") auto
    then have "take_bit 11 w = w"
      by (intro bit_word_eqI) (auto simp: bit_simps)
    then show ?thesis
      using take_bit_nat_less_exp [of 11 "unat w"] by (simp add: word_unat_eq_iff unsigned_take_bit_eq)
  qed
  show "imm12 v"
  proof (cases "bit v 11")
    case False
    then have "unat v \<le> 0x7FF"
      using b by (intro small) blast
    then show ?thesis
      by (simp add: imm12_def word_le_nat_alt)
  next
    case True
    have "unat (NOT v) \<le> 0x7FF"
    proof (rule small)
      fix n :: nat
      assume "11 \<le> n" "n < 32"
      then have "bit v n"
        using b [of n] True by blast
      then show "\<not> bit (NOT v) n"
        by (simp add: bit_not_iff)
    qed
    moreover have "v = 0xFFFFFFFF - NOT v" "NOT v \<le> 0xFFFFFFFF"
      using unat_less_u32 [of "NOT v"] by (simp_all add: not_eq_complement word_le_nat_alt)
    ultimately have "unat v \<ge> 0xFFFFFFFF - 0x7FF"
      using unat_sub [of "NOT v" "0xFFFFFFFF"] by simp
    then show ?thesis
      by (simp add: imm12_def word_le_nat_alt)
  qed
qed (rule sext12_imm12)

section \<open>Correctness of the encodings\<close>

text \<open>C28. Thumb-2 encodings. Read back with the field layout of the architecture manual, the
  halfwords of MOVW and MOVT carry the two halves of the immediate, those of STR and LDR the
  registers and the byte offset, and those of \<open>emit_add\<close> and \<open>emit_sub\<close> are ADDS and SUBS on the given registers. The code of \<open>emit_mul\<close> leaves the product of its
  operands in the destination, except when the second operand is the destination and the first is not: then it leaves the square of the first. The halfwords
  of \<open>emit_div\<close> are the first half of a 32-bit instruction and a second half with which it is not SDIV, nor any other instruction of the emitter.\<close>

theorem thumb_encodings_decode:
  assumes "rd \<le> 15" "rt \<le> 7" "rn \<le> 7" "rm \<le> 7" "off \<le> 124" "off mod 4 = 0"
  shows "thumb32 (fst (encode_movw rd imm)) (snd (encode_movw rd imm)) = Some (MOVW rd (take_bit 16 imm))
    \<and> thumb32 (fst (encode_movt rd imm)) (snd (encode_movt rd imm)) = Some (MOVT rd (drop_bit 16 imm))
    \<and> Option.bind (encode_str_imm rt rn off) thumb16 = Some (STR_imm rt rn off)
    \<and> Option.bind (encode_ldr_imm rt rn off) thumb16 = Some (LDR_imm rt rn off)
    \<and> map_sum id (map thumb16) (thumb_add rt rn rm) = Inr [Some (ADDS rt rn rm)]
    \<and> map_sum id (map thumb16) (thumb_sub rt rn rm) = Inr [Some (SUBS rt rn rm)]
    \<and> (\<exists>c. thumb_mul rt rn rm = Inr c \<and> (\<forall>rest r m. thumb_exec (c @ rest) (r, m) =
          thumb_exec rest (r(rt := (if rm = rt \<and> rn \<noteq> rt then r rn * r rn else r rn * r rm)), m)))
    \<and> (\<exists>h1 h2. thumb_div rt rn rm = Inr [h1, h2] \<and> is_thumb32 h1 \<and> thumb32 h1 h2 = None)"
proof -
  have "take_bit 16 (drop_bit 16 imm) = drop_bit 16 imm"
    by (rule bit_word_eqI) (auto simp: bit_simps dest: bit_u32_bound)
  then have "thumb32 (fst (encode_movw rd imm)) (snd (encode_movw rd imm)) = Some (MOVW rd (take_bit 16 imm))"
    "thumb32 (fst (encode_movt rd imm)) (snd (encode_movt rd imm)) = Some (MOVT rd (drop_bit 16 imm))"
    using assms(1) by (simp_all add: decode_movw take_bit_reg4)
  moreover have "Option.bind (encode_str_imm rt rn off) thumb16 = Some (STR_imm rt rn off)"
    "Option.bind (encode_ldr_imm rt rn off) thumb16 = Some (LDR_imm rt rn off)"
    using decode_ls [of rt rn off] assms by auto
  moreover have "map_sum id (map thumb16) (thumb_add rt rn rm) = Inr [Some (ADDS rt rn rm)]"
    "map_sum id (map thumb16) (thumb_sub rt rn rm) = Inr [Some (SUBS rt rn rm)]"
    using assms decode_form3 [of rt rn rm] by (simp_all add: thumb_add_def thumb_sub_def not_less)
  moreover have "\<exists>c. thumb_mul rt rn rm = Inr c \<and> (\<forall>rest r m. thumb_exec (c @ rest) (r, m) =
      thumb_exec rest (r(rt := (if rm = rt \<and> rn \<noteq> rt then r rn * r rn else r rn * r rm)), m))"
    using thumb_mul_runs [OF assms(2-4)] by (force simp: runs_def set_reg_def)
  moreover have "\<exists>h1 h2. thumb_div rt rn rm = Inr [h1, h2] \<and> is_thumb32 h1 \<and> thumb32 h1 h2 = None"
  proof -
    have "rt \<le> 15" "rn \<le> 15" "rm \<le> 15"
      using assms(2-4) by (auto intro: order_trans)
    from sdiv_undefined [OF this] this show ?thesis
      by (cases "encode_sdiv rt rn rm") (auto simp: thumb_div_def not_less)
  qed
  ultimately show ?thesis
    by blast
qed

theorem thumb_encodings_decode_witness:
  "Option.bind (encode_str_imm 1 0 124) thumb16 = Some (STR_imm 1 0 124)
    \<and> thumb32 (fst (encode_movt 0 0x40020018)) (snd (encode_movt 0 0x40020018)) = Some (MOVT 0 0x4002)
    \<and> (\<exists>h1 h2. thumb_div 1 0 0 = Inr [h1, h2] \<and> thumb32 h1 h2 = None)"
  using thumb_encodings_decode [of 0 1 0 0 124 "0x40020018"] by auto

text \<open>C29. RV32 encodings. Read back with the field layout of the ISA manual, ADDI, SW, LW and the
  register-register instructions are the instruction that was asked for, with register numbers
  taken modulo 32 and 12-bit immediates sign-extended. The offset check of SW and LW lets the
  offsets from 0xFFFFF000 to 0xFFFFF7FF pass as well, which are encoded as a different offset: an
  accepted offset is encoded faithfully exactly if it is a signed 12-bit number.\<close>

theorem rv_encodings_decode:
  "rv_decode (encode_addi rd rs1 imm) = Some (ADDI (take_bit 5 rd) (take_bit 5 rs1) (sext12 imm))
    \<and> Option.bind (encode_sw rs2 rs1 off) rv_decode =
      (if off < 0x800 \<or> off \<ge> 0xFFFFF000 then Some (SW (take_bit 5 rs2) (take_bit 5 rs1) (sext12 off)) else None)
    \<and> Option.bind (encode_lw rd rs1 off) rv_decode =
      (if off < 0x800 \<or> off \<ge> 0xFFFFF000 then Some (LW (take_bit 5 rd) (take_bit 5 rs1) (sext12 off)) else None)
    \<and> (sext12 off = off \<longleftrightarrow> off \<le> 0x7FF \<or> off \<ge> 0xFFFFF800)
    \<and> rv_decode (encode_rtype_addsub rd rs1 rs2 sub) =
      Some ((if sub then SUB else ADD) (take_bit 5 rd) (take_bit 5 rs1) (take_bit 5 rs2))
    \<and> rv_decode (encode_rtype rd rs1 rs2 1 0) = Some (MUL (take_bit 5 rd) (take_bit 5 rs1) (take_bit 5 rs2))
    \<and> rv_decode (encode_rtype rd rs1 rs2 1 4) = Some (DIV (take_bit 5 rd) (take_bit 5 rs1) (take_bit 5 rs2))"
proof -
  have "Option.bind (encode_sw rs2 rs1 off) rv_decode =
      (if off < 0x800 \<or> off \<ge> 0xFFFFF000 then Some (SW (take_bit 5 rs2) (take_bit 5 rs1) (sext12 off)) else None)"
    "Option.bind (encode_lw rd rs1 off) rv_decode =
      (if off < 0x800 \<or> off \<ge> 0xFFFFF000 then Some (LW (take_bit 5 rd) (take_bit 5 rs1) (sext12 off)) else None)"
    by (auto simp: encode_sw_def encode_lw_def off_rejected_def decode_ls_rv not_le not_less)
  moreover have "sext12 off = off \<longleftrightarrow> off \<le> 0x7FF \<or> off \<ge> 0xFFFFF800"
    using sext12_eq_iff [of off] by (simp add: imm12_def)
  moreover have "rv_decode (encode_rtype_addsub rd rs1 rs2 sub) =
      Some ((if sub then SUB else ADD) (take_bit 5 rd) (take_bit 5 rs1) (take_bit 5 rs2))"
    by (cases sub) (simp_all add: decode_rtype)
  ultimately show ?thesis
    by (simp only: decode_addi decode_rtype)
qed

text \<open>Loading an immediate on ARM. For every register and every 32-bit immediate, the code of
  \<open>emit_mov_imm\<close> (one MOVS, a MOVW, or a MOVW and a MOVT) takes at most four halfwords, and
  running it leaves exactly the immediate in that register and changes nothing else.\<close>

theorem thumb_mov_imm_loads:
  assumes "reg \<le> 15"
  shows "\<exists>c. thumb_mov_imm reg imm = Inr c \<and> length c \<le> 4
    \<and> (\<forall>rest r m. thumb_exec (c @ rest) (r, m) = thumb_exec rest (r(reg := imm), m))"
  using thumb_mov_imm_runs [OF assms] by (auto simp: runs_def set_reg_def)

theorem thumb_mov_imm_loads_witness:
  "\<exists>c. thumb_mov_imm 0 0x40020000 = Inr c
    \<and> thumb_exec (c @ [0x4770]) (\<lambda>r. 0, \<lambda>a. 0) = Some ((\<lambda>r. 0)(0 := 0x40020000), \<lambda>a. 0)"
proof -
  obtain c where "thumb_mov_imm 0 0x40020000 = Inr c"
    "thumb_exec (c @ [0x4770]) (\<lambda>r. 0, \<lambda>a. 0) = thumb_exec [0x4770] ((\<lambda>r. 0)(0 := 0x40020000), \<lambda>a. 0)"
    using thumb_mov_imm_loads [of 0 "0x40020000"] by auto
  then show ?thesis
    using thumb_exec_ret [of "[]"] by auto
qed

text \<open>C30. Loading an immediate on RISC-V. The code of \<open>emit_mov_imm\<close> loads the immediate exactly if it
  is a signed 12-bit number: \<open>encode_lui\<close> shifts the upper 20 bits to bit 20 instead of bit 12,
  so every other immediate, the address of every peripheral register among them, comes out
  wrong.\<close>

theorem riscv_mov_imm_loads_iff:
  assumes "0 < reg" "reg < 32"
  shows "\<exists>c v. riscv_mov_imm reg imm = Inr c
    \<and> (\<forall>rest r m. rv_exec (c @ rest) (r, m) = rv_exec rest (r(reg := v), m))
    \<and> (v = imm \<longleftrightarrow> imm \<le> 0x7FF \<or> imm \<ge> 0xFFFFF800)"
proof -
  let ?h = "drop_bit 12 (imm + 0x800)"
  define v where "v = (if imm12 imm then imm else push_bit 20 ?h + (imm - push_bit 12 ?h))"
  have "imm12 imm" if "v = imm"
  proof (rule ccontr)
    assume no: "\<not> imm12 imm"
    then have "push_bit 20 ?h = push_bit 12 ?h"
      using that by (simp add: v_def algebra_simps)
    then have "\<not> bit ?h k" for k
      using shift_20_12 [of ?h k] by (cases "k < 20") (auto simp: bit_simps dest: bit_u32_bound)
    then have "?h = 0"
      by (intro bit_word_eqI) simp
    then show False
      using low_part_imm12 [of imm] no by simp
  qed
  then have "v = imm \<longleftrightarrow> imm \<le> 0x7FF \<or> imm \<ge> 0xFFFFF800"
    by (auto simp: v_def imm12_def)
  moreover obtain c where "riscv_mov_imm reg imm = Inr c" "runs rv_exec c (set_reg reg v)"
    using riscv_mov_imm_runs [OF assms, of imm] unfolding v_def by auto
  ultimately show ?thesis
    by (auto simp: runs_def set_reg_def)
qed

theorem riscv_mov_imm_loads_iff_witness:
  "\<exists>c v. riscv_mov_imm 10 0x40020000 = Inr c \<and> v \<noteq> 0x40020000
    \<and> rv_exec (c @ [RV32_RET]) (\<lambda>r. 0, \<lambda>a. 0) = Some ((\<lambda>r. 0)(10 := v), \<lambda>a. 0)"
proof -
  obtain c v where "riscv_mov_imm 10 0x40020000 = Inr c" "v \<noteq> 0x40020000"
    "\<forall>rest r m. rv_exec (c @ rest) (r, m) = rv_exec rest (r(10 := v), m)"
    using riscv_mov_imm_loads_iff [of 10 "0x40020000"] by auto
  then show ?thesis
    using rv_exec_ret [of "[]"] by auto
qed

text \<open>Division on ARM. \<open>encode_sdiv\<close> leaves the bits 7 to 4 of the second halfword at 0001
  where SDIV has 1111: whatever the registers, the code of \<open>emit_div\<close> is not the SDIV
  instruction, and not any of the instructions the emitter uses.\<close>

theorem thumb_div_undefined:
  assumes "rd \<le> 15" "rn \<le> 15" "rm \<le> 15"
  shows "\<exists>h1 h2. thumb_div rd rn rm = Inr [h1, h2] \<and> is_thumb32 h1 \<and> thumb32 h1 h2 = None
    \<and> thumb_exec ([h1, h2] @ rest) s = None"
  using sdiv_undefined [OF assms] assms
  by (cases "encode_sdiv rd rn rm") (auto simp: thumb_div_def not_less)

theorem thumb_div_undefined_witness:
  "\<exists>h1 h2. thumb_div 0 0 1 = Inr [h1, h2] \<and> thumb_exec ([h1, h2] @ [0x4770]) (\<lambda>r. 6, \<lambda>a. 0) = None"
proof -
  have le: "(0 :: u8) \<le> 15" "(1 :: u8) \<le> 15"
    by simp_all
  show ?thesis
    using thumb_div_undefined [OF le(1) le(1) le(2)] by blast
qed

end
