(* ===== verification/Native.thy ===== *)
theory Native
  imports Emitter Threaded_VM
begin

text \<open>
  The native code path, \<^verbatim>\<open>src/compiler/native.rs\<close>: a token stream is scanned, translated into
  machine code with two registers and run from the executable buffer. The emitter of the
  architecture is a record of its code fragments; \<open>arm_target\<close> and \<open>riscv_target\<close> are the two
  that the sources select. Running the buffer is running the reference semantics of the
  instruction set in \<open>Emitter\<close>.

  The locale \<open>code_target\<close> states what the translator relies on from an emitter. Both targets are
  interpreted, RISC-V for immediates of 12 bits only, since larger ones are not loaded correctly.
\<close>

section \<open>Targets\<close>

record 'h target =
  tg_ACC :: u8
  tg_SCRATCH :: u8
  tg_mov :: "u8 \<Rightarrow> u32 \<Rightarrow> EmitError + 'h list"
  tg_store :: "u8 \<Rightarrow> u8 \<Rightarrow> EmitError + 'h list"
  tg_load :: "u8 \<Rightarrow> u8 \<Rightarrow> EmitError + 'h list"
  tg_add :: "u8 \<Rightarrow> u8 \<Rightarrow> u8 \<Rightarrow> EmitError + 'h list"
  tg_sub :: "u8 \<Rightarrow> u8 \<Rightarrow> u8 \<Rightarrow> EmitError + 'h list"
  tg_mul :: "u8 \<Rightarrow> u8 \<Rightarrow> u8 \<Rightarrow> EmitError + 'h list"
  tg_div :: "u8 \<Rightarrow> u8 \<Rightarrow> u8 \<Rightarrow> EmitError + 'h list"
  tg_ret :: "EmitError + 'h list"
  tg_init :: "'h Emitter"
  tg_exec :: "'h list \<Rightarrow> cpu \<Rightarrow> cpu option"

definition arm_target :: "u16 target" where
  "arm_target = \<lparr>tg_ACC = 0, tg_SCRATCH = 1, tg_mov = thumb_mov_imm, tg_store = thumb_store_u32,
    tg_load = thumb_load_u32, tg_add = thumb_add, tg_sub = thumb_sub, tg_mul = thumb_mul, tg_div = thumb_div,
    tg_ret = thumb_ret, tg_init = thumb_into_exec_buffer, tg_exec = thumb_exec\<rparr>"

definition riscv_target :: "u32 target" where
  "riscv_target = \<lparr>tg_ACC = 10, tg_SCRATCH = 11, tg_mov = riscv_mov_imm, tg_store = riscv_store_u32,
    tg_load = riscv_load_u32, tg_add = riscv_add, tg_sub = riscv_sub, tg_mul = riscv_mul, tg_div = riscv_div,
    tg_ret = riscv_ret, tg_init = riscv_into_exec_buffer, tg_exec = rv_exec\<rparr>"

section \<open>Scan\<close>

text \<open>How \<open>compile_and_run\<close> can fail: \<open>Err(())\<close>, an index out of the bounds of the array, or code
  whose execution is not defined.\<close>

datatype native_error = NotCompilable | IndexPanic | ExecFault

text \<open>\<open>is_compilable\<close>, from index \<open>ip\<close>; reading past the array panics.\<close>

function is_compilable_from :: "(prim \<Rightarrow> u32) \<Rightarrow> u32 list \<Rightarrow> nat \<Rightarrow> nat \<Rightarrow> bool \<Rightarrow> native_error + bool" where
  "is_compilable_from wof stream len ip lit_seen =
    (if ip < len then
       (case arr_get stream ip of
          None \<Rightarrow> Inl IndexPanic
        | Some w \<Rightarrow>
            if w = 0 \<or> w = wof halt_prim then Inr True
            else if w = wof lit_prim then is_compilable_from wof stream len (ip + 2) True
            else if w \<in> {wof add_prim, wof sub_prim, wof mul_prim, wof div_prim, wof load_reg_prim, wof write_reg_prim}
            then is_compilable_from wof stream len (ip + 1) True
            else Inr False)
     else Inr lit_seen)"
  by pat_completeness auto
termination
  by (relation "measure (\<lambda>(wof, stream, len, ip, lit_seen). len - ip)") auto

declare is_compilable_from.simps [simp del]

definition is_compilable :: "(prim \<Rightarrow> u32) \<Rightarrow> u32 list \<Rightarrow> nat \<Rightarrow> native_error + bool" where
  "is_compilable wof stream len = is_compilable_from wof stream len 0 False"

section \<open>Translation\<close>

text \<open>The fragment of an operation without a literal; \<open>None\<close> for an unknown word. The flag is
  whether the operation sets \<open>acc_loaded\<close>.\<close>

definition op_frag :: "'h target \<Rightarrow> (prim \<Rightarrow> u32) \<Rightarrow> u32 \<Rightarrow> ((EmitError + 'h list) \<times> bool) option" where
  "op_frag T wof w =
    (let A = tg_ACC T; S = tg_SCRATCH T in
     if w = wof add_prim then Some (tg_add T A A S, True)
     else if w = wof sub_prim then Some (tg_sub T A A S, True)
     else if w = wof mul_prim then Some (tg_mul T A A S, True)
     else if w = wof div_prim then Some (tg_div T A A S, True)
     else if w = wof load_reg_prim then Some (tg_load T A S, True)
     else if w = wof write_reg_prim then Some (tg_store T S A, False)
     else None)"

text \<open>The register that receives a literal, from the word after it.\<close>

definition lit_reg :: "'h target \<Rightarrow> (prim \<Rightarrow> u32) \<Rightarrow> u32 \<Rightarrow> bool \<Rightarrow> u8 \<times> bool" where
  "lit_reg T wof next_word acc_loaded =
    (if next_word = wof load_reg_prim \<or> next_word = wof write_reg_prim then (tg_SCRATCH T, acc_loaded)
     else if \<not> acc_loaded then (tg_ACC T, True)
     else (tg_SCRATCH T, acc_loaded))"

function compile_loop :: "'h target \<Rightarrow> (prim \<Rightarrow> u32) \<Rightarrow> u32 list \<Rightarrow> nat \<Rightarrow> nat \<Rightarrow> bool \<Rightarrow> 'h Emitter
    \<Rightarrow> native_error + 'h Emitter" where
  "compile_loop T wof stream len ip acc_loaded em =
    (if ip < len then
       (case arr_get stream ip of
          None \<Rightarrow> Inl IndexPanic
        | Some word \<Rightarrow>
            if word = 0 then Inr em
            else if word = wof halt_prim then Inr em
            else if word = wof lit_prim then
              (if ip + 1 \<ge> len then Inl NotCompilable
               else
                 (case arr_get stream (ip + 1) of
                    None \<Rightarrow> Inl IndexPanic
                  | Some val \<Rightarrow>
                      (case (if ip + 2 < len then arr_get stream (ip + 2) else Some 0) of
                         None \<Rightarrow> Inl IndexPanic
                       | Some next_word \<Rightarrow>
                           (let (reg, acc') = lit_reg T wof next_word acc_loaded
                            in case emit em (tg_mov T reg val) of
                                 (Inl _, em') \<Rightarrow> Inl NotCompilable
                               | (Inr _, em') \<Rightarrow> compile_loop T wof stream len (ip + 2) acc' em'))))
            else
              (case op_frag T wof word of
                 None \<Rightarrow> Inl NotCompilable
               | Some (frag, sets) \<Rightarrow>
                   (case emit em frag of
                      (Inl _, em') \<Rightarrow> Inl NotCompilable
                    | (Inr _, em') \<Rightarrow> compile_loop T wof stream len (ip + 1) (sets \<or> acc_loaded) em')))
     else Inr em)"
  by pat_completeness auto
termination
  by (relation "measure (\<lambda>(T, wof, stream, len, ip, acc, em). len - ip)") auto

declare compile_loop.simps [simp del]

text \<open>The scan, the translation and the return instruction.\<close>

definition compile_native :: "'h target \<Rightarrow> (prim \<Rightarrow> u32) \<Rightarrow> u32 list \<Rightarrow> nat \<Rightarrow> native_error + 'h Emitter" where
  "compile_native T wof stream len =
    (case is_compilable wof stream len of
       Inl e \<Rightarrow> Inl e
     | Inr False \<Rightarrow> Inl NotCompilable
     | Inr True \<Rightarrow>
         (case compile_loop T wof stream len 0 False (tg_init T) of
            Inl e \<Rightarrow> Inl e
          | Inr em \<Rightarrow>
              (case emit em (tg_ret T) of
                 (Inl _, em') \<Rightarrow> Inl NotCompilable
               | (Inr _, em') \<Rightarrow> Inr em')))"

text \<open>\<open>compile_and_run\<close> with the registers and the memory at the jump: the value returned and the
  memory afterwards.\<close>

definition compile_and_run :: "'h target \<Rightarrow> (prim \<Rightarrow> u32) \<Rightarrow> u32 list \<Rightarrow> nat \<Rightarrow> bool \<Rightarrow> cpu
    \<Rightarrow> native_error + (u32 option \<times> mem)" where
  "compile_and_run T wof stream len yields_value s =
    (case compile_native T wof stream len of
       Inl e \<Rightarrow> Inl e
     | Inr em \<Rightarrow>
         (case tg_exec T (em_code em) s of
            None \<Rightarrow> Inl ExecFault
          | Some (r, m) \<Rightarrow> Inr (if yields_value then Some (r (tg_ACC T)) else None, m)))"

section \<open>What the translator emits for structured code\<close>

definition next_is_access :: "instr list \<Rightarrow> bool" where
  "next_is_access is \<longleftrightarrow> (case is of Op p # _ \<Rightarrow> p = load_reg_prim \<or> p = write_reg_prim | _ \<Rightarrow> False)"

fun op_emit :: "'h target \<Rightarrow> prim \<Rightarrow> EmitError + 'h list" where
  "op_emit T add_prim = tg_add T (tg_ACC T) (tg_ACC T) (tg_SCRATCH T)"
| "op_emit T sub_prim = tg_sub T (tg_ACC T) (tg_ACC T) (tg_SCRATCH T)"
| "op_emit T mul_prim = tg_mul T (tg_ACC T) (tg_ACC T) (tg_SCRATCH T)"
| "op_emit T div_prim = tg_div T (tg_ACC T) (tg_ACC T) (tg_SCRATCH T)"
| "op_emit T load_reg_prim = tg_load T (tg_ACC T) (tg_SCRATCH T)"
| "op_emit T write_reg_prim = tg_store T (tg_SCRATCH T) (tg_ACC T)"
| "op_emit T _ = Inr []"

text \<open>The fragments, in order; the flag is \<open>acc_loaded\<close>.\<close>

fun gen :: "'h target \<Rightarrow> bool \<Rightarrow> instr list \<Rightarrow> (EmitError + 'h list) list" where
  "gen T acc [] = []"
| "gen T acc (Lit v # is) =
    (if next_is_access is \<or> acc then tg_mov T (tg_SCRATCH T) v # gen T acc is
     else tg_mov T (tg_ACC T) v # gen T True is)"
| "gen T acc (Op p # is) = op_emit T p # gen T (p \<noteq> write_reg_prim \<or> acc) is"

fun emit_all :: "'h Emitter \<Rightarrow> (EmitError + 'h list) list \<Rightarrow> native_error + 'h Emitter" where
  "emit_all em [] = Inr em"
| "emit_all em (f # fs) =
    (case emit em f of (Inl _, em') \<Rightarrow> Inl NotCompilable | (Inr _, em') \<Rightarrow> emit_all em' fs)"

lemma wof_inj: "good_words wof \<Longrightarrow> wof p = wof q \<longleftrightarrow> p = q"
  by (metis option.inject prim_of_wof)

lemma op_frag_wof:
  "good_words wof \<Longrightarrow> p \<noteq> lit_prim \<Longrightarrow> p \<noteq> halt_prim \<Longrightarrow>
    op_frag T wof (wof p) = Some (op_emit T p, p \<noteq> write_reg_prim)"
  by (cases p) (simp_all add: op_frag_def wof_inj Let_def)

lemma arr_get_append: "arr_get (xs @ ys) (length xs + i) = arr_get ys i"
  by (simp add: arr_get_def nth_append)

lemma arr_get_Cons [simp]: "arr_get (x # xs) 0 = Some x" "arr_get (x # xs) (Suc i) = arr_get xs i"
  by (simp_all add: arr_get_def)

text \<open>The word after a literal, seen from the structured code.\<close>

lemma lit_reg_next:
  assumes "good_words wof" "list_all plain is"
  shows "\<exists>w ws. code_words wof is @ wof halt_prim # post = w # ws
    \<and> lit_reg T wof w acc = (if next_is_access is \<or> acc then (tg_SCRATCH T, acc) else (tg_ACC T, True))"
proof (cases "is")
  case Nil
  then show ?thesis
    using assms by (auto simp: lit_reg_def next_is_access_def wof_inj)
next
  case (Cons i rest)
  then show ?thesis
    using assms by (cases i) (auto simp: lit_reg_def next_is_access_def wof_inj)
qed

lemma compile_loop_lit:
  assumes "good_words wof" "arr_get stream ip = Some (wof lit_prim)" "arr_get stream (ip + 1) = Some v"
    "arr_get stream (ip + 2) = Some w" "ip + 2 < len" "lit_reg T wof w acc = (reg, acc')"
  shows "compile_loop T wof stream len ip acc em =
    (case emit em (tg_mov T reg v) of
       (Inl _, em') \<Rightarrow> Inl NotCompilable
     | (Inr _, em') \<Rightarrow> compile_loop T wof stream len (ip + 2) acc' em')"
  using assms by (subst compile_loop.simps) (simp add: wof_nonzero wof_inj)

lemma compile_loop_op:
  assumes "good_words wof" "arr_get stream ip = Some (wof p)" "p \<noteq> lit_prim" "p \<noteq> halt_prim" "ip < len"
  shows "compile_loop T wof stream len ip acc em =
    (case emit em (op_emit T p) of
       (Inl _, em') \<Rightarrow> Inl NotCompilable
     | (Inr _, em') \<Rightarrow> compile_loop T wof stream len (ip + 1) (p \<noteq> write_reg_prim \<or> acc) em')"
  using assms by (subst compile_loop.simps) (simp add: wof_nonzero wof_inj op_frag_wof)

lemma compile_loop_gen:
  assumes "good_words wof" "list_all plain is" "stream = pre @ code_words wof is @ wof halt_prim # post"
    "length pre + length (code_words wof is) < len"
  shows "compile_loop T wof stream len (length pre) acc em = emit_all em (gen T acc is)"
  using assms(2-)
proof (induction "is" arbitrary: pre acc em)
  case Nil
  then have "arr_get stream (length pre) = Some (wof halt_prim)"
    using arr_get_append [of pre "wof halt_prim # post" 0] by simp
  then show ?case
    using Nil assms(1) by (subst compile_loop.simps) (simp add: wof_nonzero)
next
  case (Cons i "is")
  let ?pre = "pre @ instr_words wof i"
  have rec: "compile_loop T wof stream len (length ?pre) acc' em' = emit_all em' (gen T acc' is)" for acc' em'
    using Cons.IH [of ?pre acc' em'] Cons.prems by simp
  show ?case
  proof (cases i)
    case (Lit v)
    obtain w ws where w: "code_words wof is @ wof halt_prim # post = w # ws"
      "lit_reg T wof w acc = (if next_is_access is \<or> acc then (tg_SCRATCH T, acc) else (tg_ACC T, True))"
      using lit_reg_next [OF assms(1), of "is" post T acc] Cons.prems(1) by auto
    have stream: "stream = pre @ wof lit_prim # v # w # ws"
      using Cons.prems(2) Lit w(1) by simp
    have at: "arr_get stream (length pre) = Some (wof lit_prim)"
      "arr_get stream (length pre + 1) = Some v" "arr_get stream (length pre + 2) = Some w"
      unfolding stream
      using arr_get_append [of pre "wof lit_prim # v # w # ws" 0] arr_get_append [of pre "wof lit_prim # v # w # ws" "Suc 0"]
        arr_get_append [of pre "wof lit_prim # v # w # ws" "Suc (Suc 0)"]
      by simp_all
    have len: "length pre + 2 < len"
      using Cons.prems(3) Lit by simp
    show ?thesis
      using rec Lit compile_loop_lit [OF assms(1) at len, where T = T and acc = acc, of "if next_is_access is \<or> acc then tg_SCRATCH T else tg_ACC T"
        "\<not> next_is_access is \<or> acc" em] w(2)
      by (auto split: sum.split prod.split)
  next
    case (Op p)
    have "arr_get stream (length pre) = Some (wof p)"
      using arr_get_append [of pre "wof p # code_words wof is @ wof halt_prim # post" 0] Op Cons.prems(2) by simp
    then show ?thesis
      using compile_loop_op [OF assms(1), of stream "length pre" p len T acc em] Cons.prems(1,3) rec Op
      by (auto simp: plain_def split: sum.split prod.split)
  qed
qed

lemma is_compilable_code:
  assumes "good_words wof" "list_all plain is"
    "length pre + length (code_words wof is) < len"
  shows "is_compilable_from wof (pre @ code_words wof is @ wof halt_prim # post) len (length pre) seen = Inr True"
  using assms(2-)
proof (induction "is" arbitrary: pre seen)
  case Nil
  then show ?case
    using assms(1)
    by (subst is_compilable_from.simps) (simp add: arr_get_append [where i = 0, simplified])
next
  case (Cons i "is")
  let ?stream = "pre @ code_words wof (i # is) @ wof halt_prim # post"
  let ?pre = "pre @ instr_words wof i"
  have rec: "is_compilable_from wof ?stream len (length ?pre) seen' = Inr True" for seen'
    using Cons.IH [of ?pre seen'] Cons.prems by simp
  show ?case
  proof (cases i)
    case (Lit v)
    have "arr_get ?stream (length pre) = Some (wof lit_prim)"
      using arr_get_append [of pre "wof lit_prim # v # code_words wof is @ wof halt_prim # post" 0] Lit by simp
    then show ?thesis
      using Cons.prems rec assms(1) Lit
      by (subst is_compilable_from.simps) (simp add: wof_nonzero wof_inj)
  next
    case (Op p)
    have "arr_get ?stream (length pre) = Some (wof p)"
      using arr_get_append [of pre "wof p # code_words wof is @ wof halt_prim # post" 0] Op by simp
    then show ?thesis
      using Cons.prems rec assms(1) Op
      by (subst is_compilable_from.simps; cases p) (simp_all add: wof_nonzero wof_inj plain_def)
  qed
qed

section \<open>The interface of a target\<close>

definition fits :: "EmitError + 'h list \<Rightarrow> nat \<Rightarrow> bool" where
  "fits f n \<longleftrightarrow> (\<exists>c. f = Inr c \<and> length c \<le> n)"

text \<open>\<open>does exec f g\<close>: the fragment \<open>f\<close> is code that changes the state by \<open>g\<close>.\<close>

definition does :: "('h list \<Rightarrow> cpu \<Rightarrow> cpu option) \<Rightarrow> EmitError + 'h list \<Rightarrow> (cpu \<Rightarrow> cpu) \<Rightarrow> bool" where
  "does exec f g \<longleftrightarrow> (\<exists>c. f = Inr c \<and> runs exec c g)"

lemma fits_does_I: "\<exists>c. f = Inr c \<and> length c \<le> n \<and> runs exec c g \<Longrightarrow> fits f n \<and> does exec f g"
  by (auto simp: fits_def does_def)

locale code_target =
  fixes T :: "'h target" and imm_ok :: "u32 \<Rightarrow> bool" and k :: nat
  assumes regs: "tg_ACC T \<noteq> tg_SCRATCH T"
    and cap: "em_code (tg_init T) = []" "129 * k \<le> em_cap (tg_init T)"
    and mov_fits: "r \<in> {tg_ACC T, tg_SCRATCH T} \<Longrightarrow> fits (tg_mov T r v) (2 * k)"
    and op_fits: "p \<noteq> lit_prim \<Longrightarrow> p \<noteq> halt_prim \<Longrightarrow> fits (op_emit T p) k"
    and ret_fits: "fits (tg_ret T) k"
    and mov: "r \<in> {tg_ACC T, tg_SCRATCH T} \<Longrightarrow> imm_ok v \<Longrightarrow> does (tg_exec T) (tg_mov T r v) (set_reg r v)"
    and arith: "p \<in> {add_prim, sub_prim, mul_prim} \<Longrightarrow>
      does (tg_exec T) (op_emit T p)
        (\<lambda>s. set_reg (tg_ACC T) (bin_op p (fst s (tg_ACC T)) (fst s (tg_SCRATCH T))) s)"
    and load: "does (tg_exec T) (op_emit T load_reg_prim)
      (\<lambda>s. set_reg (tg_ACC T) (peek_u32 (snd s) (fst s (tg_SCRATCH T))) s)"
    and store: "does (tg_exec T) (op_emit T write_reg_prim)
      (\<lambda>s. (fst s, poke_u32 (snd s) (fst s (tg_ACC T)) (fst s (tg_SCRATCH T))))"
    and ret: "tg_exec T (projr (tg_ret T) @ rest) s = Some s"
begin

lemma emit_fits:
  assumes "fits f n" "length (em_code em) + n \<le> em_cap em"
  shows "emit em f = (Inr (), em\<lparr>em_code := em_code em @ projr f\<rparr>)"
  using assms by (auto simp: fits_def emit_def push_all_fits)

lemma emit_all_gen:
  assumes "list_all plain is" "length (em_code em) + k * length (code_words wof is) \<le> em_cap em"
  shows "emit_all em (gen T acc is) = Inr (em\<lparr>em_code := em_code em @ concat (map projr (gen T acc is))\<rparr>)
    \<and> length (concat (map projr (gen T acc is))) \<le> k * length (code_words wof is)"
  using assms
proof (induction "is" arbitrary: acc em)
  case (Cons i "is")
  obtain f acc' where f: "gen T acc (i # is) = f # gen T acc' is"
    "fits f (k * length (instr_words wof i))"
  proof (cases i)
    case (Lit v)
    then show thesis
      using that [of "tg_mov T (tg_SCRATCH T) v" acc] that [of "tg_mov T (tg_ACC T) v" True]
        mov_fits [of "tg_ACC T" v] mov_fits [of "tg_SCRATCH T" v]
      by (cases "next_is_access is \<or> acc") (auto simp: mult_2)
  next
    case (Op p)
    then show thesis
      using that op_fits [of p] Cons.prems(1) by (auto simp: plain_def)
  qed
  let ?em = "em\<lparr>em_code := em_code em @ projr f\<rparr>"
  have len: "length (projr f) \<le> k * length (instr_words wof i)"
    using f(2) by (auto simp: fits_def)
  have "emit em f = (Inr (), ?em)"
    using emit_fits [OF f(2), of em] Cons.prems(2) by (simp add: algebra_simps)
  moreover have "length (em_code ?em) + k * length (code_words wof is) \<le> em_cap ?em"
    using Cons.prems(2) len by (simp add: algebra_simps)
  ultimately show ?case
    using Cons.IH [of ?em acc'] Cons.prems(1) len by (simp add: f(1) algebra_simps)
qed simp

lemma compile_native_code:
  assumes "good_words wof" "list_all plain is" "length (code_words wof is) < 128"
  shows "\<exists>em. compile_native T wof (code_words wof is @ wof halt_prim # post) (length (code_words wof is) + 1) = Inr em
    \<and> em_code em = concat (map projr (gen T False is)) @ projr (tg_ret T)
    \<and> length (em_code em) \<le> 129 * k"
proof -
  let ?em = "tg_init T\<lparr>em_code := concat (map projr (gen T False is))\<rparr>"
  have le: "k * length (code_words wof is) \<le> 128 * k"
    using assms(3) by (simp add: mult.commute)
  have "length (em_code (tg_init T)) + k * length (code_words wof is) \<le> em_cap (tg_init T)"
    using le cap(2) unfolding cap(1) list.size by linarith
  from emit_all_gen [OF assms(2) this, of False]
  have gen: "emit_all (tg_init T) (gen T False is) = Inr ?em"
    "length (concat (map projr (gen T False is))) \<le> k * length (code_words wof is)"
    by (simp_all add: cap(1))
  have le': "length (concat (map projr (gen T False is))) \<le> 128 * k"
    using gen(2) le by linarith
  have 1: "is_compilable wof (code_words wof is @ wof halt_prim # post) (length (code_words wof is) + 1) = Inr True"
    using is_compilable_code [OF assms(1,2), of "[]"] by (simp add: is_compilable_def)
  have 2: "compile_loop T wof (code_words wof is @ wof halt_prim # post) (length (code_words wof is) + 1) 0 False (tg_init T)
    = Inr ?em"
    using compile_loop_gen [OF assms(1,2), of "code_words wof is @ wof halt_prim # post" "[]" post
        "length (code_words wof is) + 1" T False "tg_init T"] gen(1) by simp
  have 3: "emit ?em (tg_ret T) = (Inr (), ?em\<lparr>em_code := em_code ?em @ projr (tg_ret T)\<rparr>)"
  proof (rule emit_fits [OF ret_fits])
    show "length (em_code ?em) + k \<le> em_cap ?em"
      using le' cap(2) by simp
  qed
  have "length (projr (tg_ret T)) \<le> k"
    using ret_fits by (auto simp: fits_def)
  then have "length (concat (map projr (gen T False is)) @ projr (tg_ret T)) \<le> 129 * k"
    using le' unfolding length_append by linarith
  then show ?thesis
    using 1 2 3 by (simp add: compile_native_def)
qed

lemma doesD: "does (tg_exec T) f g \<Longrightarrow> tg_exec T (projr f @ rest) s = tg_exec T rest (g s)"
  by (auto simp: does_def dest: runsD)

text \<open>Running compiled code: its fragments, then the return.\<close>

lemma compile_and_run_code:
  assumes "good_words wof" "list_all plain is" "length (code_words wof is) < 128"
    and run: "\<And>rest. tg_exec T (concat (map projr (gen T False is)) @ rest) s = tg_exec T rest s'"
  shows "compile_and_run T wof (code_words wof is @ wof halt_prim # post) (length (code_words wof is) + 1) yields s
    = Inr (if yields then Some (fst s' (tg_ACC T)) else None, snd s')"
proof -
  obtain em where "compile_native T wof (code_words wof is @ wof halt_prim # post) (length (code_words wof is) + 1) = Inr em"
    "em_code em = concat (map projr (gen T False is)) @ projr (tg_ret T)"
    using compile_native_code [OF assms(1-3)] by blast
  moreover have "tg_exec T (em_code em) s = Some s'"
    using run [of "projr (tg_ret T)"] ret [of "[]" s'] calculation(2) by simp
  ultimately show ?thesis
    by (cases s') (simp add: compile_and_run_def)
qed

lemma exec_mov:
  assumes "r \<in> {tg_ACC T, tg_SCRATCH T}" "imm_ok v"
  shows "tg_exec T (projr (tg_mov T r v) @ rest) s = tg_exec T rest (set_reg r v s)"
  using doesD [OF mov [OF assms]] .

lemmas exec_arith = doesD [OF arith]
lemmas exec_load = doesD [OF load, unfolded op_emit.simps]
lemmas exec_store = doesD [OF store, unfolded op_emit.simps]

end

section \<open>Sequences of accesses\<close>

text \<open>What machine code does with the accesses of a function body: the accumulator holds the address of the first
  write, unless it was loaded before, and every read replaces it by the value read.\<close>

fun native_act :: "act \<Rightarrow> u32 option \<times> mem \<Rightarrow> u32 option \<times> mem" where
  "native_act (APoke a v) (acc, m) = (let x = (case acc of None \<Rightarrow> a | Some x \<Rightarrow> x) in (Some x, poke_u32 m x v))"
| "native_act (APeek a) (acc, m) = (Some (peek_u32 m a), m)"

fun act_imms :: "(u32 \<Rightarrow> bool) \<Rightarrow> act \<Rightarrow> bool" where
  "act_imms ok (APoke a v) \<longleftrightarrow> ok a \<and> ok v"
| "act_imms ok (APeek a) \<longleftrightarrow> ok a"

section \<open>Chains of operations\<close>

text \<open>A left-associated chain of literals: \<open>v\<^sub>0 op\<^sub>1 v\<^sub>1 op\<^sub>2 v\<^sub>2 ...\<close>\<close>

definition chain_tail :: "(prim \<times> u32) list \<Rightarrow> instr list" where
  "chain_tail ops = concat (map (\<lambda>(p, v). [Lit v, Op p]) ops)"

definition chain :: "u32 \<Rightarrow> (prim \<times> u32) list \<Rightarrow> instr list" where
  "chain v ops = Lit v # chain_tail ops"

definition chain_value :: "u32 \<Rightarrow> (prim \<times> u32) list \<Rightarrow> u32" where
  "chain_value v ops = foldl (\<lambda>a (p, x). bin_op p a x) v ops"

lemma chain_tail_simps [simp]:
  "chain_tail [] = []"
  "chain_tail ((p, v) # ops) = Lit v # Op p # chain_tail ops"
  by (simp_all add: chain_tail_def)

definition arith_ops :: "(prim \<times> u32) list \<Rightarrow> bool" where
  "arith_ops ops \<longleftrightarrow> list_all (\<lambda>(p, v). p \<in> {add_prim, sub_prim, mul_prim}) ops"

lemma chain_plain: "arith_ops ops \<Longrightarrow> list_all plain (chain v ops)"
  unfolding chain_def arith_ops_def by (induction ops) (auto simp: plain_def)

lemma next_is_access_chain: "arith_ops ops \<Longrightarrow> \<not> next_is_access (chain_tail ops)"
  by (cases ops) (auto simp: next_is_access_def)

context code_target
begin

lemma chain_exec:
  assumes "arith_ops ops" "list_all (\<lambda>(p, v). imm_ok v) ops"
  shows "\<exists>s'. (\<forall>rest. tg_exec T (concat (map projr (gen T True (chain_tail ops))) @ rest) s = tg_exec T rest s')
    \<and> fst s' (tg_ACC T) = chain_value (fst s (tg_ACC T)) ops \<and> snd s' = snd s"
  using assms
proof (induction ops arbitrary: s)
  case Nil
  show ?case
    by (rule exI [of _ s]) (simp add: chain_value_def)
next
  case (Cons op ops)
  obtain p v where op: "op = (p, v)" "p \<in> {add_prim, sub_prim, mul_prim}" "imm_ok v"
    using Cons.prems by (cases op) (auto simp: arith_ops_def)
  let ?s = "set_reg (tg_ACC T) (bin_op p (fst s (tg_ACC T)) v) (set_reg (tg_SCRATCH T) v s)"
  obtain s' where s': "\<And>rest. tg_exec T (concat (map projr (gen T True (chain_tail ops))) @ rest) ?s = tg_exec T rest s'"
    "fst s' (tg_ACC T) = chain_value (fst ?s (tg_ACC T)) ops" "snd s' = snd ?s"
    using Cons.IH [of ?s] Cons.prems by (auto simp: arith_ops_def)
  have "tg_exec T (concat (map projr (gen T True (chain_tail (op # ops)))) @ rest) s = tg_exec T rest s'" for rest
    using op s'(1) [of rest] regs
    by (simp add: exec_mov exec_arith) (simp add: set_reg_def)
  then show ?case
    using s'(2,3) op(1) by (intro exI [of _ s']) (simp add: chain_value_def set_reg_def)
qed

lemma chain_native:
  assumes "good_words wof" "arith_ops ops" "length (code_words wof (chain v ops)) < 128"
    "imm_ok v" "list_all (\<lambda>(p, v). imm_ok v) ops"
  shows "compile_and_run T wof (code_words wof (chain v ops) @ wof halt_prim # post)
      (length (code_words wof (chain v ops)) + 1) True s = Inr (Some (chain_value v ops), snd s)"
proof -
  obtain s' where s': "\<And>rest. tg_exec T (concat (map projr (gen T True (chain_tail ops))) @ rest) (set_reg (tg_ACC T) v s) = tg_exec T rest s'"
    "fst s' (tg_ACC T) = chain_value v ops" "snd s' = snd s"
    using chain_exec [OF assms(2,5), of "set_reg (tg_ACC T) v s"] by (auto simp: set_reg_def)
  have "tg_exec T (concat (map projr (gen T False (chain v ops))) @ rest) s = tg_exec T rest s'" for rest
    using s'(1) [of rest] next_is_access_chain [OF assms(2)] assms(4) by (simp add: chain_def exec_mov)
  then show ?thesis
    using compile_and_run_code [OF assms(1) chain_plain [OF assms(2)] assms(3)] s'(2,3) by simp
qed

text \<open>One register access, and several accesses in a row.\<close>

lemma poke_native:
  assumes "good_words wof" "imm_ok a" "imm_ok v"
  shows "compile_and_run T wof (code_words wof (act_code (APoke a v)) @ wof halt_prim # post)
      (length (code_words wof (act_code (APoke a v))) + 1) False s = Inr (None, poke_u32 (snd s) a v)"
proof -
  have "tg_exec T (concat (map projr (gen T False (act_code (APoke a v)))) @ rest) s
      = tg_exec T rest ((fst s)(tg_ACC T := a, tg_SCRATCH T := v), poke_u32 (snd s) a v)" for rest
    using assms(2,3) regs by (simp add: next_is_access_def exec_mov exec_store) (simp add: set_reg_def)
  then show ?thesis
    using compile_and_run_code [OF assms(1), of "act_code (APoke a v)" s _ post False] by (simp add: plain_def)
qed

lemma peek_native:
  assumes "good_words wof" "imm_ok a"
  shows "compile_and_run T wof (code_words wof (act_code (APeek a)) @ wof halt_prim # post)
      (length (code_words wof (act_code (APeek a))) + 1) True s = Inr (Some (peek_u32 (snd s) a), snd s)"
proof -
  have "tg_exec T (concat (map projr (gen T False (act_code (APeek a)))) @ rest) s
      = tg_exec T rest (set_reg (tg_ACC T) (peek_u32 (snd s) a) (set_reg (tg_SCRATCH T) a s))" for rest
    using assms(2) regs by (simp add: next_is_access_def exec_mov exec_load) (simp add: set_reg_def)
  then show ?thesis
    using compile_and_run_code [OF assms(1), of "act_code (APeek a)" s _ post True]
    by (simp add: plain_def set_reg_def)
qed

lemma acts_exec:
  assumes "list_all (act_imms imm_ok) acts" "\<And>x. acc = Some x \<Longrightarrow> fst s (tg_ACC T) = x"
  shows "\<exists>s'. (\<forall>rest. tg_exec T (concat (map projr (gen T (acc \<noteq> None) (acts_code acts))) @ rest) s = tg_exec T rest s')
    \<and> (\<forall>x. fst (fold native_act acts (acc, snd s)) = Some x \<longrightarrow> fst s' (tg_ACC T) = x)
    \<and> snd s' = snd (fold native_act acts (acc, snd s))"
  using assms
proof (induction acts arbitrary: acc s)
  case (Cons c acts)
  show ?case
  proof (cases c)
    case (APoke a v)
    let ?x = "case acc of None \<Rightarrow> a | Some x \<Rightarrow> x"
    let ?s = "((fst s)(tg_ACC T := ?x, tg_SCRATCH T := v), poke_u32 (snd s) ?x v)"
    have imm: "imm_ok a" "imm_ok v" and acts: "list_all (act_imms imm_ok) acts"
      using Cons.prems(1) APoke by auto
    have step: "tg_exec T (concat (map projr (gen T (acc \<noteq> None) (acts_code (c # acts)))) @ rest) s
        = tg_exec T (concat (map projr (gen T True (acts_code acts))) @ rest) ?s" for rest
      using imm regs Cons.prems(2) APoke
      by (cases acc) (simp_all add: next_is_access_def exec_mov exec_store set_reg_def fun_upd_idem fun_upd_twist)
    show ?thesis
      using Cons.IH [OF acts, of "Some ?x" ?s] step regs APoke by (auto split: option.splits)
  next
    case (APeek a)
    let ?x = "peek_u32 (snd s) a"
    let ?s = "((fst s)(tg_SCRATCH T := a, tg_ACC T := ?x), snd s)"
    have imm: "imm_ok a" and acts: "list_all (act_imms imm_ok) acts"
      using Cons.prems(1) APeek by auto
    have step: "tg_exec T (concat (map projr (gen T (acc \<noteq> None) (acts_code (c # acts)))) @ rest) s
        = tg_exec T (concat (map projr (gen T True (acts_code acts))) @ rest) ?s" for rest
      using imm regs APeek by (simp add: next_is_access_def exec_mov exec_load set_reg_def)
    show ?thesis
      using Cons.IH [OF acts, of "Some ?x" ?s] step APeek by auto
  qed
qed auto

lemma acts_native:
  assumes "good_words wof" "list_all (act_imms imm_ok) acts" "length (code_words wof (acts_code acts)) < 128"
  shows "compile_and_run T wof (code_words wof (acts_code acts) @ wof halt_prim # post)
      (length (code_words wof (acts_code acts)) + 1) False s = Inr (None, snd (fold native_act acts (None, snd s)))"
  using acts_exec [OF assms(2), of None s] compile_and_run_code [OF assms(1) acts_code_plain assms(3)] by fastforce

end

section \<open>The two targets\<close>

lemma exec_buffer_caps [simp]:
  "em_code thumb_into_exec_buffer = []" "em_cap thumb_into_exec_buffer = 2048"
  "em_code riscv_into_exec_buffer = []" "em_cap riscv_into_exec_buffer = 192"
  by (simp_all add: thumb_into_exec_buffer_def riscv_into_exec_buffer_def EXEC_BUFFER_SIZE_def)

lemma arm_ops:
  "p \<noteq> lit_prim \<Longrightarrow> p \<noteq> halt_prim \<Longrightarrow> fits (op_emit arm_target p) 2"
  "p \<in> {add_prim, sub_prim, mul_prim} \<Longrightarrow>
    does thumb_exec (op_emit arm_target p) (\<lambda>s. set_reg 0 (bin_op p (fst s 0) (fst s 1)) s)"
  "does thumb_exec (op_emit arm_target load_reg_prim) (\<lambda>s. set_reg 0 (peek_u32 (snd s) (fst s 1)) s)"
  "does thumb_exec (op_emit arm_target write_reg_prim) (\<lambda>s. (fst s, poke_u32 (snd s) (fst s 0) (fst s 1)))"
proof -
  have add: "fits (thumb_add 0 0 1) 2 \<and> does thumb_exec (thumb_add 0 0 1) (\<lambda>s. set_reg 0 (fst s 0 + fst s 1) s)"
    using thumb_addsub_runs(1) [of 0 0 1] by (intro fits_does_I) auto
  have sub: "fits (thumb_sub 0 0 1) 2 \<and> does thumb_exec (thumb_sub 0 0 1) (\<lambda>s. set_reg 0 (fst s 0 - fst s 1) s)"
    using thumb_addsub_runs(2) [of 0 0 1] by (intro fits_does_I) auto
  have mul: "fits (thumb_mul 0 0 1) 2 \<and> does thumb_exec (thumb_mul 0 0 1) (\<lambda>s. set_reg 0 (fst s 0 * fst s 1) s)"
    using thumb_mul_runs [of 0 0 1] by (intro fits_does_I) auto
  have ld: "fits (thumb_load_u32 0 1) 2 \<and> does thumb_exec (thumb_load_u32 0 1) (\<lambda>s. set_reg 0 (peek_u32 (snd s) (fst s 1)) s)"
    using thumb_load_runs [of 0 1] by (intro fits_does_I) auto
  have st: "fits (thumb_store_u32 1 0) 2 \<and> does thumb_exec (thumb_store_u32 1 0) (\<lambda>s. (fst s, poke_u32 (snd s) (fst s 0) (fst s 1)))"
    using thumb_store_runs [of 1 0] by (intro fits_does_I) auto
  have div: "fits (thumb_div 0 0 1) 2"
    by (simp add: fits_def thumb_div_def encode_sdiv_def)
  show "p \<noteq> lit_prim \<Longrightarrow> p \<noteq> halt_prim \<Longrightarrow> fits (op_emit arm_target p) 2"
    using add sub mul ld st div by (cases p) (simp_all add: arm_target_def)
  show "p \<in> {add_prim, sub_prim, mul_prim} \<Longrightarrow>
    does thumb_exec (op_emit arm_target p) (\<lambda>s. set_reg 0 (bin_op p (fst s 0) (fst s 1)) s)"
    using add sub mul by (auto simp: arm_target_def)
  show "does thumb_exec (op_emit arm_target load_reg_prim) (\<lambda>s. set_reg 0 (peek_u32 (snd s) (fst s 1)) s)"
    "does thumb_exec (op_emit arm_target write_reg_prim) (\<lambda>s. (fst s, poke_u32 (snd s) (fst s 0) (fst s 1)))"
    using ld st by (simp_all add: arm_target_def)
qed

interpretation arm: code_target arm_target "\<lambda>v. True" 2
proof
  have mov: "fits (thumb_mov_imm r v) 4 \<and> does thumb_exec (thumb_mov_imm r v) (set_reg r v)" if "r \<in> {0, 1}" for r v
    using thumb_mov_imm_runs [of r v] that by (intro fits_does_I) auto
  show "fits (tg_mov arm_target r v) (2 * 2)"
    and "does (tg_exec arm_target) (tg_mov arm_target r v) (set_reg r v)"
    if "r \<in> {tg_ACC arm_target, tg_SCRATCH arm_target}" for r v
    using that mov [of r v] by (simp_all add: arm_target_def)
  show "tg_exec arm_target (projr (tg_ret arm_target) @ rest) s = Some s" for rest s
    using thumb_exec_ret [of rest s] by (simp add: arm_target_def thumb_ret_def)
  show "fits (op_emit arm_target p) 2" if "p \<noteq> lit_prim" "p \<noteq> halt_prim" for p
    using arm_ops(1) [OF that] .
  show "does (tg_exec arm_target) (op_emit arm_target p)
      (\<lambda>s. set_reg (tg_ACC arm_target) (bin_op p (fst s (tg_ACC arm_target)) (fst s (tg_SCRATCH arm_target))) s)"
    if "p \<in> {add_prim, sub_prim, mul_prim}" for p
    using arm_ops(2) [OF that] by (simp add: arm_target_def)
  show "does (tg_exec arm_target) (op_emit arm_target load_reg_prim)
     (\<lambda>s. set_reg (tg_ACC arm_target) (peek_u32 (snd s) (fst s (tg_SCRATCH arm_target))) s)"
    using arm_ops(3) by (simp add: arm_target_def)
  show "does (tg_exec arm_target) (op_emit arm_target write_reg_prim)
     (\<lambda>s. (fst s, poke_u32 (snd s) (fst s (tg_ACC arm_target)) (fst s (tg_SCRATCH arm_target))))"
    using arm_ops(4) by (simp add: arm_target_def)
qed (simp_all add: arm_target_def thumb_ret_def fits_def)

lemma riscv_ops:
  "p \<noteq> lit_prim \<Longrightarrow> p \<noteq> halt_prim \<Longrightarrow> fits (op_emit riscv_target p) 1"
  "p \<in> {add_prim, sub_prim, mul_prim} \<Longrightarrow>
    does rv_exec (op_emit riscv_target p) (\<lambda>s. set_reg 10 (bin_op p (fst s 10) (fst s 11)) s)"
  "does rv_exec (op_emit riscv_target load_reg_prim) (\<lambda>s. set_reg 10 (peek_u32 (snd s) (fst s 11)) s)"
  "does rv_exec (op_emit riscv_target write_reg_prim) (\<lambda>s. (fst s, poke_u32 (snd s) (fst s 10) (fst s 11)))"
proof -
  have add: "fits (riscv_add 10 10 11) 1 \<and> does rv_exec (riscv_add 10 10 11) (\<lambda>s. set_reg 10 (fst s 10 + fst s 11) s)"
    using riscv_arith_runs(1) [of 10 10 11] by (intro fits_does_I) auto
  have sub: "fits (riscv_sub 10 10 11) 1 \<and> does rv_exec (riscv_sub 10 10 11) (\<lambda>s. set_reg 10 (fst s 10 - fst s 11) s)"
    using riscv_arith_runs(2) [of 10 10 11] by (intro fits_does_I) auto
  have mul: "fits (riscv_mul 10 10 11) 1 \<and> does rv_exec (riscv_mul 10 10 11) (\<lambda>s. set_reg 10 (fst s 10 * fst s 11) s)"
    using riscv_arith_runs(3) [of 10 10 11] by (intro fits_does_I) auto
  have ld: "fits (riscv_load_u32 10 11) 1 \<and> does rv_exec (riscv_load_u32 10 11) (\<lambda>s. set_reg 10 (peek_u32 (snd s) (fst s 11)) s)"
    using riscv_load_store_runs(1) [of 10 11] by (intro fits_does_I) auto
  have st: "fits (riscv_store_u32 11 10) 1 \<and> does rv_exec (riscv_store_u32 11 10) (\<lambda>s. (fst s, poke_u32 (snd s) (fst s 10) (fst s 11)))"
    using riscv_load_store_runs(2) [of 11 10] by (intro fits_does_I) auto
  have div: "fits (riscv_div 10 10 11) 1"
    by (simp add: fits_def riscv_div_def)
  show "p \<noteq> lit_prim \<Longrightarrow> p \<noteq> halt_prim \<Longrightarrow> fits (op_emit riscv_target p) 1"
    using add sub mul ld st div by (cases p) (simp_all add: riscv_target_def)
  show "p \<in> {add_prim, sub_prim, mul_prim} \<Longrightarrow>
    does rv_exec (op_emit riscv_target p) (\<lambda>s. set_reg 10 (bin_op p (fst s 10) (fst s 11)) s)"
    using add sub mul by (auto simp: riscv_target_def)
  show "does rv_exec (op_emit riscv_target load_reg_prim) (\<lambda>s. set_reg 10 (peek_u32 (snd s) (fst s 11)) s)"
    "does rv_exec (op_emit riscv_target write_reg_prim) (\<lambda>s. (fst s, poke_u32 (snd s) (fst s 10) (fst s 11)))"
    using ld st by (simp_all add: riscv_target_def)
qed

interpretation riscv: code_target riscv_target imm12 1
proof
  have mov: "\<exists>c. riscv_mov_imm r v = Inr c \<and> length c \<le> 2 \<and> (imm12 v \<longrightarrow> runs rv_exec c (set_reg r v))"
    if "r \<in> {10, 11}" for r v
    using riscv_mov_imm_runs [of r v] that by auto
  show "fits (tg_mov riscv_target r v) (2 * 1)"
    if "r \<in> {tg_ACC riscv_target, tg_SCRATCH riscv_target}" for r v
    using that mov [of r v] by (auto simp: riscv_target_def fits_def)
  show "does (tg_exec riscv_target) (tg_mov riscv_target r v) (set_reg r v)"
    if "r \<in> {tg_ACC riscv_target, tg_SCRATCH riscv_target}" "imm12 v" for r v
    using that mov [of r v] by (auto simp: riscv_target_def does_def)
  show "tg_exec riscv_target (projr (tg_ret riscv_target) @ rest) s = Some s" for rest s
    using rv_exec_ret [of rest s] by (simp add: riscv_target_def riscv_ret_def)
  show "fits (op_emit riscv_target p) 1" if "p \<noteq> lit_prim" "p \<noteq> halt_prim" for p
    using riscv_ops(1) [OF that] .
  show "does (tg_exec riscv_target) (op_emit riscv_target p)
      (\<lambda>s. set_reg (tg_ACC riscv_target) (bin_op p (fst s (tg_ACC riscv_target)) (fst s (tg_SCRATCH riscv_target))) s)"
    if "p \<in> {add_prim, sub_prim, mul_prim}" for p
    using riscv_ops(2) [OF that] by (simp add: riscv_target_def)
  show "does (tg_exec riscv_target) (op_emit riscv_target load_reg_prim)
     (\<lambda>s. set_reg (tg_ACC riscv_target) (peek_u32 (snd s) (fst s (tg_SCRATCH riscv_target))) s)"
    using riscv_ops(3) by (simp add: riscv_target_def)
  show "does (tg_exec riscv_target) (op_emit riscv_target write_reg_prim)
     (\<lambda>s. (fst s, poke_u32 (snd s) (fst s (tg_ACC riscv_target)) (fst s (tg_SCRATCH riscv_target))))"
    using riscv_ops(4) by (simp add: riscv_target_def)
qed (simp_all add: riscv_target_def riscv_ret_def fits_def)

section \<open>Native and threaded execution\<close>

lemma chain_vm:
  assumes "arith_ops ops" "vm_is vm [a] m"
  shows "vm_is (fold exec_instr (chain_tail ops) vm) [chain_value a ops] m"
  using assms
proof (induction ops arbitrary: vm a)
  case (Cons op ops)
  obtain p v where op: "op = (p, v)" "p \<in> {add_prim, sub_prim, mul_prim}"
    using Cons.prems(1) by (cases op) (auto simp: arith_ops_def)
  have "vm_is (snd (vm_push v vm)) ([] @ [a, v]) m"
    using vm_is_push [OF Cons.prems(2), of v] by (simp add: VM_STACK_SIZE_def)
  then have "vm_is (binary_prim f (snd (vm_push v vm))) [f a v] m" for f
    using vm_is_binary [of _ "[]" a v m f] by (simp add: VM_STACK_SIZE_def)
  then have "vm_is (exec_instr (Op p) (exec_instr (Lit v) vm)) [bin_op p a v] m"
    using op(2) by auto
  then show ?case
    using Cons.IH [of _ "bin_op p a v"] Cons.prems(1) op(1) by (simp add: arith_ops_def chain_value_def)
qed (simp add: chain_value_def)

lemma chain_threaded:
  assumes "good_words wof" "arith_ops ops"
  shows "\<exists>vm. run_threaded_stream wof (code_words wof (chain v ops) @ wof halt_prim # post) 0 (vm_init m) = Some vm
    \<and> fst (vm_pop vm) = chain_value v ops \<and> vm_mem vm = m"
proof -
  let ?vm = "fold exec_instr (chain v ops) (vm_init m)"
  have "vm_is (vm_init m) [] m"
    by (simp add: vm_is_def)
  then have "vm_is (snd (vm_push v (vm_init m))) [v] m"
    using vm_is_push [of _ "[]" m v] by (simp add: VM_STACK_SIZE_def)
  then have "vm_is ?vm [chain_value v ops] m"
    using chain_vm [OF assms(2)] by (simp add: chain_def)
  then show ?thesis
    using vm_is_pop [of ?vm "[]"] run_code [OF assms(1) chain_plain [OF assms(2)], where pre = "[]" and post = post]
    by (auto simp: vm_is_def)
qed

text \<open>C24. Native code computes what the threaded engine computes. For a left-associated chain of
  literals with additions, subtractions and products, of any length that fits the token stream,
  the compiler accepts the stream on both targets, and the machine code returns the value that
  the threaded run leaves on its stack and changes no memory; on RISC-V this holds for signed
  12-bit literals.\<close>

theorem native_chain_matches_threaded:
  assumes "good_words wof" "arith_ops ops" "length (code_words wof (chain v ops)) < 128"
  shows "\<exists>vm. run_threaded_stream wof (code_words wof (chain v ops) @ wof halt_prim # post) 0 (vm_init (snd s)) = Some vm
    \<and> compile_and_run arm_target wof (code_words wof (chain v ops) @ wof halt_prim # post)
        (length (code_words wof (chain v ops)) + 1) True s = Inr (Some (fst (vm_pop vm)), vm_mem vm)
    \<and> (list_all imm12 (v # map snd ops) \<longrightarrow>
        compile_and_run riscv_target wof (code_words wof (chain v ops) @ wof halt_prim # post)
          (length (code_words wof (chain v ops)) + 1) True s = Inr (Some (fst (vm_pop vm)), vm_mem vm))"
proof -
  have "list_all (\<lambda>(p, v). True) ops"
    by (simp add: list_all_iff)
  moreover have "list_all imm12 (map snd ops) \<longleftrightarrow> list_all (\<lambda>(p, v). imm12 v) ops"
    by (auto simp: list_all_iff)
  ultimately show ?thesis
    using chain_threaded [OF assms(1,2), of v post "snd s"] arm.chain_native [OF assms, of post s]
      riscv.chain_native [OF assms, of post s]
    by auto
qed

theorem native_chain_matches_threaded_witness:
  "compile_and_run arm_target example_words
      (code_words example_words (chain 2 [(add_prim, 3), (mul_prim, 7)]) @ [example_words halt_prim]) 9 True (\<lambda>r. 0, \<lambda>a. 0)
    = Inr (Some 35, \<lambda>a. 0)
   \<and> compile_and_run riscv_target example_words
      (code_words example_words (chain 2 [(add_prim, 3), (mul_prim, 7)]) @ [example_words halt_prim]) 9 True (\<lambda>r. 0, \<lambda>a. 0)
    = Inr (Some 35, \<lambda>a. 0)"
proof -
  let ?ops = "[(add_prim, 3 :: u32), (mul_prim, 7)]"
  have ops: "arith_ops ?ops" "length (code_words example_words (chain 2 ?ops)) < 128"
    by (simp_all add: arith_ops_def chain_def)
  have len: "length (code_words example_words (chain 2 ?ops)) + 1 = 9"
    by (simp add: chain_def)
  obtain vm where vm: "run_threaded_stream example_words (code_words example_words (chain 2 ?ops) @ [example_words halt_prim]) 0 (vm_init (\<lambda>a. 0)) = Some vm"
    "compile_and_run arm_target example_words (code_words example_words (chain 2 ?ops) @ [example_words halt_prim]) 9 True (\<lambda>r. 0, \<lambda>a. 0)
      = Inr (Some (fst (vm_pop vm)), vm_mem vm)"
    "compile_and_run riscv_target example_words (code_words example_words (chain 2 ?ops) @ [example_words halt_prim]) 9 True (\<lambda>r. 0, \<lambda>a. 0)
      = Inr (Some (fst (vm_pop vm)), vm_mem vm)"
    using native_chain_matches_threaded [OF good_example_words ops, of "[]" "(\<lambda>r. 0, \<lambda>a. 0)"]
    unfolding len by (auto simp: imm12_def)
  moreover have "fst (vm_pop vm) = 35 \<and> vm_mem vm = (\<lambda>a. 0)"
    using chain_threaded [OF good_example_words ops(1), of 2 "[]" "\<lambda>a. 0"] vm(1) by (auto simp: chain_value_def)
  ultimately show ?thesis
    by simp
qed

text \<open>One register access. The machine code for a single \<open>poke\<close> writes the value to the
  address and the machine code for a single \<open>peek\<close> returns the word at the address, as the
  threaded primitives do.\<close>

theorem native_access_matches_threaded:
  assumes "good_words wof"
  shows "compile_and_run arm_target wof (code_words wof (act_code (APoke a v)) @ wof halt_prim # post) 6 False s
      = Inr (None, snd (do_act (APoke a v) ([], snd s)))
    \<and> compile_and_run arm_target wof (code_words wof (act_code (APeek a)) @ wof halt_prim # post) 4 True s
      = Inr (Some (last (fst (do_act (APeek a) ([], snd s)))), snd s)
    \<and> (\<exists>vm. run_threaded_stream wof (code_words wof (acts_code [APoke a v]) @ wof halt_prim # post) 0 (vm_init (snd s)) = Some vm
        \<and> vm_mem vm = snd (do_act (APoke a v) ([], snd s)))"
proof -
  have "length (code_words wof (acts_code [APoke a v])) \<le> 128"
    by simp
  from acts_run [OF assms this, of post "snd s"]
  have "\<exists>vm. run_threaded_stream wof (code_words wof (acts_code [APoke a v]) @ wof halt_prim # post) 0 (vm_init (snd s)) = Some vm
        \<and> vm_mem vm = snd (do_act (APoke a v) ([], snd s))"
    by (auto simp: vm_is_def)
  then show ?thesis
    using arm.poke_native [OF assms, of a v post s] arm.peek_native [OF assms, of a post s]
    by (simp add: eval_nat_numeral)
qed

theorem native_access_matches_threaded_witness:
  "compile_and_run arm_target example_words
      (code_words example_words (act_code (APoke 0x40020018 5)) @ [example_words halt_prim]) 6 False (\<lambda>r. 0, \<lambda>a. 0)
    = Inr (None, poke_u32 (\<lambda>a. 0) 0x40020018 5)"
  using native_access_matches_threaded [OF good_example_words, of "0x40020018" 5 "[]" "(\<lambda>r. 0, \<lambda>a. 0)"] by simp



text \<open>C27. The executable buffer is large enough. For every stream of literals and primitives that fits
  the 128 words of a program, translation succeeds on both targets and the machine code fits
  the buffer: at most 516 bytes of the 4096 on ARM and of the 768 on RISC-V.\<close>

theorem native_code_fits:
  assumes "good_words wof" "list_all plain is" "length (code_words wof is) < 128"
  shows "(\<exists>em. compile_native arm_target wof (code_words wof is @ wof halt_prim # post) (length (code_words wof is) + 1) = Inr em
      \<and> thumb_bytes_written em \<le> 516 \<and> thumb_bytes_written em \<le> EXEC_BUFFER_SIZE Arm)
    \<and> (\<exists>em. compile_native riscv_target wof (code_words wof is @ wof halt_prim # post) (length (code_words wof is) + 1) = Inr em
      \<and> riscv_bytes_written em \<le> 516 \<and> riscv_bytes_written em \<le> EXEC_BUFFER_SIZE Riscv32)"
  using arm.compile_native_code [OF assms, of post] riscv.compile_native_code [OF assms, of post]
  by (fastforce simp: thumb_bytes_written_def riscv_bytes_written_def EXEC_BUFFER_SIZE_def)

theorem native_code_fits_witness:
  "\<exists>em. compile_native riscv_target example_words (code_words example_words [Lit 5, Lit 6, Op div_prim] @ [example_words halt_prim]) 6 = Inr em
      \<and> riscv_bytes_written em \<le> 516"
  using native_code_fits [OF good_example_words, of "[Lit 5, Lit 6, Op div_prim]" "[]"] by (auto simp: plain_def eval_nat_numeral)

end
