(* ===== verification/Bench.thy ===== *)
theory Bench
  imports Native
begin

text \<open>
  The benchmark of \<^verbatim>\<open>src/kernel/bench.rs\<close>: the program it runs on both execution paths, the measurement
  and the report lines. The values of the hardware cycle counter are an argument, a function of the
  number of readings; on ARM each reading also switches the counter on, which writes two debug registers.
\<close>

definition build_stream :: "(prim \<Rightarrow> u32) \<Rightarrow> u32 list \<times> nat" where
  "build_stream wof =
    ((replicate 128 0)[0 := wof lit_prim, 1 := 2, 2 := wof lit_prim, 3 := 3, 4 := wof add_prim, 5 := wof halt_prim], 6)"

text \<open>\<open>format_u64\<close>: the digits of \<open>v\<close>, least significant first; \<open>None\<close> for a write past the end of
  the buffer, and else the buffer with the length used.\<close>

function format_digits :: "u64 \<Rightarrow> char list" where
  "format_digits x =
    char_of (48 + unat (x mod 10)) # (if x div 10 = 0 then [] else format_digits (x div 10))"
  by pat_completeness auto
termination
proof (relation "measure unat")
  fix x :: u64
  assume "x div 10 \<noteq> 0"
  then show "(x div 10, x) \<in> measure unat"
    by (auto simp: unat_div word_unat_eq_iff)
qed simp

declare format_digits.simps [simp del]

definition put_all :: "char list \<Rightarrow> (char list \<times> nat) \<Rightarrow> (char list \<times> nat) option" where
  "put_all bs st = fold (\<lambda>b st. case st of None \<Rightarrow> None
      | Some (buf, n) \<Rightarrow> if n < length buf then Some (buf[n := b], n + 1) else None) bs (Some st)"

definition format_u64 :: "char list \<Rightarrow> u64 \<Rightarrow> char list \<Rightarrow> char list \<Rightarrow> char list option" where
  "format_u64 prefix v suffix buf =
    (case put_all (prefix @ rev (format_digits v) @ suffix) (buf, 0) of
       None \<Rightarrow> None
     | Some (buf', n) \<Rightarrow> Some (take n buf'))"

section \<open>The measurement\<close>

definition ITERATIONS :: nat where "ITERATIONS = 1000"
definition DEMCR :: u32 where "DEMCR = 0xE000EDFC"
definition DWT_CTRL :: u32 where "DWT_CTRL = 0xE0001000"

text \<open>\<open>cycles()\<close>, with the number of readings so far and the memory.\<close>

definition cycles :: "arch \<Rightarrow> (nat \<Rightarrow> u32) \<Rightarrow> nat \<times> mem \<Rightarrow> u32 \<times> nat \<times> mem" where
  "cycles a counter st =
    (case st of (t, m) \<Rightarrow>
      (case a of
         Arm \<Rightarrow>
           (let m1 = poke_u32 m DEMCR (peek_u32 m DEMCR OR push_bit 24 1);
                m2 = poke_u32 m1 DWT_CTRL (peek_u32 m1 DWT_CTRL OR 1)
            in (counter t, t + 1, m2))
       | Riscv32 \<Rightarrow> (counter t, t + 1, m)
       | Host \<Rightarrow> (0, t, m)))"

text \<open>A loop of \<open>n\<close> rounds whose body may fail to return.\<close>

fun rounds :: "nat \<Rightarrow> ('s \<Rightarrow> 's option) \<Rightarrow> 's \<Rightarrow> 's option" where
  "rounds 0 f s = Some s"
| "rounds (Suc n) f s = (case f s of None \<Rightarrow> None | Some s' \<Rightarrow> rounds n f s')"

text \<open>\<open>execute_sram_buffer(0)\<close> on the code left in the buffer: the returned register and the memory.\<close>

definition execute_sram_buffer :: "'h target \<Rightarrow> 'h list \<Rightarrow> cpu \<Rightarrow> (u32 \<times> mem) option" where
  "execute_sram_buffer T code s = map_option (\<lambda>(r, m). (r (tg_ACC T), m)) (tg_exec T code s)"

text \<open>The part of \<open>run_bench\<close> from the first native call on. The slice that \<open>format_u64\<close> returns was
  written by that call, so that a fresh buffer stands for the one that the calls share.\<close>

definition bench_line :: "string \<Rightarrow> u64 \<Rightarrow> string \<Rightarrow> string option" where
  "bench_line prefix v suffix = format_u64 prefix v (suffix @ [CHR 0x0D, CHR 0x0A]) (replicate 96 CHR 0x00)"

definition bench_report :: "u32 \<Rightarrow> u32 \<Rightarrow> u32 \<Rightarrow> string list option" where
  "bench_report threaded first_cycles native =
    those ([bench_line ''bench: threaded = '' (ucast threaded) '' cyc/exec'',
            bench_line ''bench: first-call (compile+exec) = '' (ucast first_cycles) '' cyc'',
            bench_line ''bench: native    = '' (ucast native) '' cyc/exec'']
      @ (if native > 0
         then [bench_line ''bench: speedup  = x'' (ucast threaded * 100 div ucast native) ''/100'']
         else []))"

definition bench_native :: "'h target \<Rightarrow> (prim \<Rightarrow> u32) \<Rightarrow> arch \<Rightarrow> (nat \<Rightarrow> u32) \<Rightarrow> (u8 \<Rightarrow> u32) \<Rightarrow> u32
    \<Rightarrow> nat \<times> mem \<Rightarrow> (string list \<times> nat \<times> mem) option" where
  "bench_native T wof a counter regs threaded st =
    (let (stream, len) = build_stream wof;
         (t0, t, m) = cycles a counter st
     in case compile_and_run T wof stream len True (regs, m) of
          Inr (_, m1) \<Rightarrow>
            (let (t1, t, m2) = cycles a counter (t, m1);
                 first_cycles = t1 - t0;
                 (t0, t, m3) = cycles a counter (t, m2)
             in case compile_native T wof stream len of
                  Inl _ \<Rightarrow> None
                | Inr em \<Rightarrow>
                    (case rounds ITERATIONS (\<lambda>m. map_option snd (execute_sram_buffer T (em_code em) (regs, m))) m3 of
                       None \<Rightarrow> None
                     | Some m4 \<Rightarrow>
                         (let (t1, t, m5) = cycles a counter (t, m4);
                              native = (t1 - t0) div of_nat ITERATIONS
                          in map_option (\<lambda>ls. (ls, t, m5)) (bench_report threaded first_cycles native))))
        | Inl NotCompilable \<Rightarrow>
            (let (t1, t, m2) = cycles a counter (t, m)
             in map_option (\<lambda>l. ([''bench: native path unavailable on this target'' @ [CHR 0x0D, CHR 0x0A], l], t, m2))
                  (bench_line ''bench: threaded = '' (ucast threaded) '' cyc/exec''))
        | Inl _ \<Rightarrow> None)"

definition bench_head :: "string list" where
  "bench_head = [''bench: stream = lit 2, lit 3, add, halt'' @ [CHR 0x0D, CHR 0x0A],
    ''bench: iterations = 1000'' @ [CHR 0x0D, CHR 0x0A]]"

text \<open>\<open>run_bench\<close>: the lines written, the number of counter readings and the machine.\<close>

definition run_bench :: "arch \<Rightarrow> (prim \<Rightarrow> u32) \<Rightarrow> (nat \<Rightarrow> u32) \<Rightarrow> (u8 \<Rightarrow> u32) \<Rightarrow> nat \<times> VM
    \<Rightarrow> (string list \<times> nat \<times> VM) option" where
  "run_bench a wof counter regs st =
    (case st of (t, vm) \<Rightarrow>
      (let stream = fst (build_stream wof); run = run_threaded_stream wof stream 0
       in case run vm of
            None \<Rightarrow> None
          | Some vm1 \<Rightarrow>
              (let (t0, t, m1) = cycles a counter (t, vm_mem vm1)
               in case rounds ITERATIONS run (vm1\<lparr>vm_mem := m1\<rparr>) of
                    None \<Rightarrow> None
                  | Some vm2 \<Rightarrow>
                      (let (t1, t, m2) = cycles a counter (t, vm_mem vm2);
                           threaded = (t1 - t0) div of_nat ITERATIONS;
                           rest = (case a of
                                     Arm \<Rightarrow> bench_native arm_target wof a counter regs threaded (t, m2)
                                   | Riscv32 \<Rightarrow> bench_native riscv_target wof a counter regs threaded (t, m2)
                                   | Host \<Rightarrow> None)
                       in map_option (\<lambda>(ls, t, m). (bench_head @ ls, t, vm2\<lparr>vm_mem := m\<rparr>)) rest))))"

section \<open>Formatting\<close>

lemma put_all_fits:
  "n + length bs \<le> length buf \<Longrightarrow>
    put_all bs (buf, n) = Some (take n buf @ bs @ drop (n + length bs) buf, n + length bs)"
proof (induction bs arbitrary: buf n)
  case (Cons b bs)
  have "put_all (b # bs) (buf, n) = put_all bs (buf[n := b], n + 1)"
    using Cons.prems by (simp add: put_all_def)
  also have "\<dots> = Some (take (n + 1) (buf[n := b]) @ bs @ drop (n + 1 + length bs) (buf[n := b]), n + 1 + length bs)"
    using Cons by simp
  also have "take (n + 1) (buf[n := b]) = take n buf @ [b]"
    using Cons.prems by (simp add: take_Suc_conv_app_nth)
  finally show ?case
    using Cons.prems by simp
qed (simp add: put_all_def)

text \<open>The number that a list of decimal digits denotes, most significant first.\<close>

definition dec_value :: "char list \<Rightarrow> nat" where
  "dec_value ds = foldl (\<lambda>n c. 10 * n + (of_char c - 48)) 0 ds"

lemma dec_value_snoc: "dec_value (ds @ [c]) = 10 * dec_value ds + (of_char c - 48)"
  by (simp add: dec_value_def)

lemma format_digits_value: "dec_value (rev (format_digits v)) = unat v"
proof (induction v rule: format_digits.induct)
  case (1 v)
  have "unat (v div 10) = unat v div 10"
    by (simp add: unat_div)
  then have z: "unat v < 10" if "v div 10 = 0"
    using that by (simp add: div_eq_0_iff)
  show ?case
  proof (cases "v div 10 = 0")
    case True
    then show ?thesis
      using z by (subst format_digits.simps) (simp add: dec_value_def unat_mod)
  next
    case False
    then show ?thesis
      using 1 by (subst format_digits.simps) (simp add: dec_value_snoc unat_div unat_mod)
  qed
qed

lemma format_digits_digits: "list_all (in_range CHR ''0'' CHR ''9'') (format_digits v)"
proof (induction v rule: format_digits.induct)
  case (1 v)
  have "in_range CHR ''0'' CHR ''9'' (char_of (48 + unat (v mod 10)))"
    by (simp add: in_range_def unat_mod)
  then show ?case
    using 1 by (subst format_digits.simps) simp
qed

lemma format_digits_length: "unat v < 10 ^ Suc k \<Longrightarrow> length (format_digits v) \<le> Suc k"
proof (induction k arbitrary: v)
  case 0
  then have "v div 10 = 0"
    by (simp add: word_unat_eq_iff unat_div)
  then show ?case
    by (subst format_digits.simps) simp
next
  case (Suc k)
  have "unat (v div 10) < 10 ^ Suc k"
    using Suc.prems by (simp add: unat_div less_mult_imp_div_less mult.commute)
  then show ?case
    using Suc.IH [of "v div 10"] by (subst format_digits.simps) simp
qed

text \<open>Report lines of the benchmark. Formatting never writes past a buffer with room for the
  prefix, the suffix and 20 digits, which the 96-byte buffer has for every line of the report,
  and what it yields is the prefix, the decimal digits of the number, and the suffix.\<close>

theorem format_u64_correct:
  assumes "length prefix + length suffix + 20 \<le> length buf"
  shows "\<exists>ds. format_u64 prefix v suffix buf = Some (prefix @ ds @ suffix)
    \<and> dec_value ds = unat v \<and> list_all (in_range CHR ''0'' CHR ''9'') ds \<and> length ds \<le> 20"
proof -
  let ?ds = "rev (format_digits v)"
  have "unat v < 2 ^ 64"
    using unsigned_less [of v, where 'a = nat] by simp
  then have len: "length (format_digits v) \<le> 20"
    using format_digits_length [of v 19] by simp
  then have "format_u64 prefix v suffix buf = Some (prefix @ ?ds @ suffix)"
    using put_all_fits [of 0 "prefix @ ?ds @ suffix" buf] assms by (simp add: format_u64_def)
  then show ?thesis
    using len format_digits_value [of v] format_digits_digits [of v] by (intro exI [of _ ?ds]) simp
qed

theorem format_u64_correct_witness:
  "\<exists>ds. format_u64 ''bench: first-call (compile+exec) = '' 18446744073709551615 '' cyc'' (replicate 96 CHR 0x00)
      = Some (''bench: first-call (compile+exec) = '' @ ds @ '' cyc'') \<and> dec_value ds = 18446744073709551615"
  using format_u64_correct [of "''bench: first-call (compile+exec) = ''" "'' cyc''" "replicate 96 CHR 0x00" "18446744073709551615"]
  by auto

lemma bench_line_text:
  "length prefix + length suffix \<le> 70 \<Longrightarrow>
    bench_line prefix v suffix = Some (prefix @ rev (format_digits v) @ suffix @ [CHR 0x0D, CHR 0x0A])"
proof -
  assume fits: "length prefix + length suffix \<le> 70"
  have "length (format_digits v) \<le> 20"
    using format_digits_length [of v 19] unsigned_less [of v, where 'a = nat] by simp
  then show ?thesis
    using put_all_fits [of 0 "prefix @ rev (format_digits v) @ suffix @ [CHR 0x0D, CHR 0x0A]" "replicate 96 CHR 0x00"] fits
    by (simp add: bench_line_def format_u64_def)
qed

text \<open>The benchmarked program. Both execution paths compute 5 on the stream of the benchmark, for every
  placement of the primitives.\<close>

theorem bench_paths_agree:
  assumes "good_words wof"
  shows "(\<exists>vm. run_threaded_stream wof (fst (build_stream wof)) 0 (vm_init (snd s)) = Some vm \<and> fst (vm_pop vm) = 5)
    \<and> compile_and_run arm_target wof (fst (build_stream wof)) (snd (build_stream wof)) True s = Inr (Some 5, snd s)
    \<and> compile_and_run riscv_target wof (fst (build_stream wof)) (snd (build_stream wof)) True s = Inr (Some 5, snd s)"
proof -
  have st: "build_stream wof = (code_words wof (chain 2 [(add_prim, 3)]) @ wof halt_prim # replicate 122 0,
      length (code_words wof (chain 2 [(add_prim, 3)])) + 1)"
    by (simp add: build_stream_def chain_def eval_nat_numeral)
  have "arith_ops [(add_prim, 3)]" "length (code_words wof (chain 2 [(add_prim, 3)])) < 128"
    "chain_value 2 [(add_prim, 3)] = 5"
    by (simp_all add: arith_ops_def chain_def chain_value_def)
  then show ?thesis
    unfolding st fst_conv snd_conv
    using chain_threaded [OF assms, of "[(add_prim, 3)]" 2 "replicate 122 0" "snd s"]
      arm.chain_native [OF assms, of "[(add_prim, 3)]" 2 "replicate 122 0" s]
      riscv.chain_native [OF assms, of "[(add_prim, 3)]" 2 "replicate 122 0" s]
    by (auto simp: imm12_def)
qed

theorem bench_paths_agree_witness:
  "compile_and_run riscv_target example_words (fst (build_stream example_words)) (snd (build_stream example_words)) True (\<lambda>r. 7, \<lambda>a. 1)
    = Inr (Some 5, \<lambda>a. 1)"
  using bench_paths_agree [OF good_example_words, of "(\<lambda>r. 7, \<lambda>a. 1)"] by simp

section \<open>The report\<close>

definition bench_code :: "instr list" where
  "bench_code = chain 2 [(add_prim, 3)]"

lemma bench_stream: "build_stream wof = (code_words wof bench_code @ wof halt_prim # replicate 122 0, length (code_words wof bench_code) + 1)"
  by (simp add: build_stream_def bench_code_def chain_def eval_nat_numeral)

lemma bench_code_facts:
  "arith_ops [(add_prim, 3)]" "length (code_words wof bench_code) < 128" "chain_value 2 [(add_prim, 3)] = 5"
  "list_all plain bench_code"
  by (simp_all add: bench_code_def arith_ops_def chain_def chain_value_def plain_def)

text \<open>One round of the threaded engine, whatever is on the stack.\<close>

definition bench_vm :: "VM \<Rightarrow> VM" where
  "bench_vm vm = binary_prim (+) (snd (vm_push 3 (snd (vm_push 2 vm))))"

lemma bench_round:
  "good_words wof \<Longrightarrow> run_threaded_stream wof (fst (build_stream wof)) 0 vm = Some (bench_vm vm)"
  using run_code [of wof bench_code "[]" "replicate 122 0" vm] bench_code_facts(4)
  unfolding bench_stream fst_conv by (simp add: bench_vm_def bench_code_def chain_def)

lemma bench_vm_fields:
  "vm_mem (bench_vm vm) = vm_mem vm" "length (vm_stack (bench_vm vm)) = length (vm_stack vm)"
  "vm_sp vm \<le> 64 \<Longrightarrow> vm_sp (bench_vm vm) = min 63 (vm_sp vm + 1)"
  by (auto simp: bench_vm_def binary_prim_def vm_push_def vm_pop_def VM_STACK_SIZE_def Let_def)

lemma bench_rounds_fields:
  "vm_mem ((bench_vm ^^ n) vm) = vm_mem vm" "length (vm_stack ((bench_vm ^^ n) vm)) = length (vm_stack vm)"
  "vm_sp vm \<le> 64 \<Longrightarrow> 0 < n \<Longrightarrow> vm_sp ((bench_vm ^^ n) vm) = min 63 (vm_sp vm + n)"
proof -
  show "vm_mem ((bench_vm ^^ n) vm) = vm_mem vm" "length (vm_stack ((bench_vm ^^ n) vm)) = length (vm_stack vm)"
    by (induction n) (simp_all add: bench_vm_fields)
  show "vm_sp ((bench_vm ^^ n) vm) = min 63 (vm_sp vm + n)" if "vm_sp vm \<le> 64" "0 < n"
    using that(2)
  proof (induction n rule: nat_induct_non_zero)
    case (Suc n)
    then show ?case
      by (subst funpow.simps(2), subst comp_def, subst bench_vm_fields(3)) auto
  qed (use that(1) in \<open>simp add: bench_vm_fields\<close>)
qed

lemma rounds_total: "(\<And>s. f s = Some (g s)) \<Longrightarrow> rounds n f s = Some ((g ^^ n) s)"
  by (induction n arbitrary: s) (simp_all add: funpow_swap1)

text \<open>Reading the counter keeps memory apart from the two debug registers.\<close>

definition debug_only :: "arch \<Rightarrow> mem \<Rightarrow> mem \<Rightarrow> bool" where
  "debug_only a m m' \<longleftrightarrow>
    (\<forall>c. m' c \<noteq> m c \<longrightarrow> a = Arm \<and> (c - DEMCR \<in> {0, 1, 2, 3} \<or> c - DWT_CTRL \<in> {0, 1, 2, 3}))"

lemma debug_only_refl [simp]: "debug_only a m m"
  by (simp add: debug_only_def)

lemma debug_only_trans: "debug_only a m m' \<Longrightarrow> debug_only a m' m'' \<Longrightarrow> debug_only a m m''"
  unfolding debug_only_def by metis

lemma cycles_reading:
  assumes "a = Arm \<or> a = Riscv32"
  obtains m' where "cycles a counter (t, m) = (counter t, t + 1, m')" "debug_only a m m'"
proof (cases a)
  case Arm
  let ?m1 = "poke_u32 m DEMCR (peek_u32 m DEMCR OR push_bit 24 1)"
  let ?m2 = "poke_u32 ?m1 DWT_CTRL (peek_u32 ?m1 DWT_CTRL OR 1)"
  have "debug_only Arm m ?m1" "debug_only Arm ?m1 ?m2"
    unfolding debug_only_def using poke_u32_byte by blast+
  then have "debug_only Arm m ?m2"
    by (rule debug_only_trans)
  then show ?thesis
    using Arm by (intro that [of ?m2]) (simp_all add: cycles_def Let_def)
qed (use assms that in \<open>auto simp: cycles_def\<close>)

lemma those_Some_map: "those (map Some xs) = Some xs"
  by (induction xs) simp_all

definition report_text :: "u32 \<Rightarrow> u32 \<Rightarrow> u32 \<Rightarrow> string list" where
  "report_text threaded first_cycles native =
    (let line = (\<lambda>p v s. p @ rev (format_digits v) @ s @ [CHR 0x0D, CHR 0x0A])
     in [line ''bench: threaded = '' (ucast threaded) '' cyc/exec'',
         line ''bench: first-call (compile+exec) = '' (ucast first_cycles) '' cyc'',
         line ''bench: native    = '' (ucast native) '' cyc/exec'']
        @ (if native > 0 then [line ''bench: speedup  = x'' (ucast threaded * 100 div ucast native) ''/100''] else []))"

lemma bench_report_text: "bench_report threaded first_cycles native = Some (report_text threaded first_cycles native)"
  by (simp add: bench_report_def report_text_def bench_line_text)

lemma compiled_buffer:
  assumes run: "\<And>s. compile_and_run T wof stream len True s = Inr (Some v, snd s)"
  obtains em where "compile_native T wof stream len = Inr em"
    "\<And>s. execute_sram_buffer T (em_code em) s = Some (v, snd s)"
proof (cases "compile_native T wof stream len")
  case (Inr em)
  have "execute_sram_buffer T (em_code em) s = Some (v, snd s)" for s
    using run [of s] Inr
    by (auto simp: compile_and_run_def execute_sram_buffer_def split: option.splits prod.splits)
  then show ?thesis
    using that Inr by blast
qed (use run [of undefined] in \<open>simp add: compile_and_run_def\<close>)

lemma bench_native_report:
  assumes a: "a = Arm \<or> a = Riscv32"
    and run: "\<And>s. compile_and_run T wof (fst (build_stream wof)) (snd (build_stream wof)) True s = Inr (Some 5, snd s)"
  shows "\<exists>m'. bench_native T wof a counter regs threaded (t, m)
      = Some (report_text threaded (counter (t + 1) - counter t) ((counter (t + 3) - counter (t + 2)) div 1000), t + 4, m')
    \<and> debug_only a m m'"
proof -
  obtain stream len where st: "build_stream wof = (stream, len)"
    by fastforce
  obtain em where em: "compile_native T wof stream len = Inr em"
    "\<And>s. execute_sram_buffer T (em_code em) s = Some (5, snd s)"
    using compiled_buffer [of T wof stream len 5] run st by (metis fst_conv snd_conv)
  have loop: "rounds n (\<lambda>m. map_option snd (execute_sram_buffer T (em_code em) (regs, m))) m' = Some m'" for n m'
    by (induction n) (simp_all add: em(2))
  obtain m1 where m1: "cycles a counter (t, m) = (counter t, t + 1, m1)" "debug_only a m m1"
    by (rule cycles_reading [OF a])
  obtain m2 where m2: "cycles a counter (t + 1, m1) = (counter (t + 1), t + 1 + 1, m2)" "debug_only a m1 m2"
    by (rule cycles_reading [OF a])
  obtain m3 where m3: "cycles a counter (t + 1 + 1, m2) = (counter (t + 1 + 1), t + 1 + 1 + 1, m3)" "debug_only a m2 m3"
    by (rule cycles_reading [OF a])
  obtain m4 where m4: "cycles a counter (t + 1 + 1 + 1, m3) = (counter (t + 1 + 1 + 1), t + 1 + 1 + 1 + 1, m4)" "debug_only a m3 m4"
    by (rule cycles_reading [OF a])
  have "debug_only a m m4"
    by (intro debug_only_trans [OF m1(2)] debug_only_trans [OF m2(2)] debug_only_trans [OF m3(2)] m4(2))
  moreover have "compile_and_run T wof stream len True (regs, m1) = Inr (Some 5, m1)"
    using run [of "(regs, m1)"] st by simp
  ultimately show ?thesis
    unfolding bench_native_def st
    by (simp add: m1(1) m2(1)[simplified] m3(1)[simplified] m4(1)[simplified] em(1) loop bench_report_text ITERATIONS_def eval_nat_numeral)
qed

lemma run_bench_result:
  assumes "good_words wof" "a = Arm \<or> a = Riscv32"
  shows "\<exists>vm'. run_bench a wof counter regs (t, vm)
      = Some (bench_head @ report_text ((counter (t + 1) - counter t) div 1000) (counter (t + 3) - counter (t + 2))
          ((counter (t + 5) - counter (t + 4)) div 1000), t + 6, vm')
    \<and> length (vm_stack vm') = length (vm_stack vm) \<and> (vm_sp vm \<le> VM_STACK_SIZE \<longrightarrow> vm_sp vm' = 63)
    \<and> debug_only a (vm_mem vm) (vm_mem vm')"
proof -
  note round = bench_round [OF assms(1)]
  obtain m1 where m1: "cycles a counter (t, vm_mem (bench_vm vm)) = (counter t, t + 1, m1)" "debug_only a (vm_mem vm) m1"
    using cycles_reading [OF assms(2)] by (metis bench_vm_fields(1))
  let ?vm1 = "(bench_vm vm)\<lparr>vm_mem := m1\<rparr>" and ?vm2 = "(bench_vm ^^ ITERATIONS) ((bench_vm vm)\<lparr>vm_mem := m1\<rparr>)"
  have loop: "rounds ITERATIONS (run_threaded_stream wof (fst (build_stream wof)) 0) ?vm1 = Some ?vm2"
    by (rule rounds_total, rule round)
  have vm2: "vm_mem ?vm2 = m1" "length (vm_stack ?vm2) = length (vm_stack vm)" "vm_sp vm \<le> VM_STACK_SIZE \<longrightarrow> vm_sp ?vm2 = 63"
    by (simp_all add: bench_rounds_fields bench_vm_fields VM_STACK_SIZE_def ITERATIONS_def)
  obtain m2 where m2: "cycles a counter (t + 1, m1) = (counter (t + 1), t + 1 + 1, m2)" "debug_only a m1 m2"
    by (rule cycles_reading [OF assms(2)])
  let ?T = "(counter (t + 1) - counter t) div of_nat ITERATIONS"
  let ?rest = "case a of Arm \<Rightarrow> bench_native arm_target wof a counter regs ?T (t + 1 + 1, m2)
      | Riscv32 \<Rightarrow> bench_native riscv_target wof a counter regs ?T (t + 1 + 1, m2) | Host \<Rightarrow> None"
  let ?ls = "report_text ?T (counter (t + 3) - counter (t + 2)) ((counter (t + 5) - counter (t + 4)) div 1000)"
  have "\<exists>m'. ?rest = Some (?ls, t + 6, m') \<and> debug_only a m2 m'"
    using assms(2) bench_native_report [of a arm_target wof counter regs ?T "t + 1 + 1" m2]
      bench_native_report [of a riscv_target wof counter regs ?T "t + 1 + 1" m2] bench_paths_agree [OF assms(1)]
    by (auto simp: eval_nat_numeral)
  then obtain m' where m': "?rest = Some (?ls, t + 6, m')" "debug_only a m2 m'"
    by blast
  have "debug_only a (vm_mem vm) m'"
    by (intro debug_only_trans [OF m1(2)] debug_only_trans [OF m2(2)] m'(2))
  moreover have "run_bench a wof counter regs (t, vm) = Some (bench_head @ ?ls, t + 6, ?vm2\<lparr>vm_mem := m'\<rparr>)"
    unfolding run_bench_def Let_def prod.case round option.case m1(1) loop vm2(1) m2(1) m'(1) option.map by (rule refl)
  ultimately show ?thesis
    using vm2(2,3) by (simp add: ITERATIONS_def)
qed

text \<open>The benchmark reports what the counter measured. On both targets, from every state of the operand stack and
  for every behaviour of the cycle counter, \<open>run_bench\<close> ends after six readings; it writes the two
  header lines and then, in decimal, the cycles per threaded round and per native round (differences of
  consecutive readings, modulo \<open>2\<^sup>3\<^sup>2\<close>, over the 1000 rounds), the cycles of the first call, and the quotient if it
  is defined. It changes memory at most in the two debug registers that enable the counter, on ARM. The
  rounds are not separated by a reset: the operand stack is left with 63 entries.\<close>

theorem run_bench_report:
  assumes "good_words wof" "a = Arm \<or> a = Riscv32" "vm_sp vm \<le> VM_STACK_SIZE"
  shows "\<exists>vm'. run_bench a wof counter regs (t, vm)
      = Some (bench_head @ report_text ((counter (t + 1) - counter t) div 1000) (counter (t + 3) - counter (t + 2))
          ((counter (t + 5) - counter (t + 4)) div 1000), t + 6, vm')
    \<and> vm_depth vm' = 63 \<and> debug_only a (vm_mem vm) (vm_mem vm')"
  using run_bench_result [OF assms(1,2), of counter regs t vm] assms(3) by (auto simp: vm_depth_def)

theorem run_bench_report_witness:
  "\<exists>vm'. run_bench Arm example_words (\<lambda>n. of_nat n * 7000) (\<lambda>r. 0) (0, vm_init (\<lambda>a. 0))
      = Some (bench_head @ report_text 7 7000 7, 6, vm') \<and> vm_depth vm' = 63"
  using run_bench_report [OF good_example_words, of Arm "vm_init (\<lambda>a. 0)" "\<lambda>n. of_nat n * 7000" "\<lambda>r. 0" 0]
  by (auto simp: vm_init_def)

end
