(* ===== verification/Scheduler.thy ===== *)
theory Scheduler
  imports Ring_Buffers HROS_Prelude Byte_Memory
begin

text \<open>
  The scheduler crate, \<^verbatim>\<open>crates/hros-kernel/src/scheduler.rs\<close>: the lock-free task queue between
  two cores, the shadow stack of return addresses and the SysTick set-up.

  The queue is modelled twice. \<open>push_task\<close> and \<open>pop_task\<close> are the whole operations and form a
  bounded queue (the locale \<open>bounded_fifo\<close>). \<open>queue_step\<close> splits them into the single accesses to
  shared memory that the code makes, in its order (load of the own index, load of the other
  index, access to the slot, store of the own index), and lets those of one producer and one
  consumer interleave arbitrarily. Release stores and Acquire loads of the indices order the slot
  accesses before and after them, so that interleaving is taken to be sequentially consistent.
\<close>

section \<open>Task queue\<close>

datatype TaskState = Ready | Running | Blocked | Dead

record TaskControlBlock =
  t_sp :: u32
  t_sp_limit :: u32
  t_sp_base :: u32
  t_pc :: u32
  t_state :: TaskState

definition tcb_new :: TaskControlBlock where
  "tcb_new = \<lparr>t_sp = 0, t_sp_limit = 0, t_sp_base = 0, t_pc = 0, t_state = Dead\<rparr>"

text \<open>The queue holds pointers to control blocks.\<close>

record LockFreeTaskQueue =
  q_head :: nat
  q_tail :: nat
  q_tasks :: "u32 list"

definition queue_new :: LockFreeTaskQueue where
  "queue_new = \<lparr>q_head = 0, q_tail = 0, q_tasks = replicate 256 0\<rparr>"

definition push_task :: "LockFreeTaskQueue \<Rightarrow> u32 \<Rightarrow> bool \<times> LockFreeTaskQueue" where
  "push_task q tcb =
    (let current_tail = q_tail q; next_tail = (current_tail + 1) mod 256
     in if next_tail = q_head q then (False, q)
        else (True, q\<lparr>q_tasks := (q_tasks q)[current_tail := tcb], q_tail := next_tail\<rparr>))"

definition pop_task :: "LockFreeTaskQueue \<Rightarrow> u32 option \<times> LockFreeTaskQueue" where
  "pop_task q =
    (let current_head = q_head q
     in if current_head = q_tail q then (None, q)
        else (Some (q_tasks q ! current_head), q\<lparr>q_head := (current_head + 1) mod 256\<rparr>))"

definition queue_len :: "LockFreeTaskQueue \<Rightarrow> nat" where
  "queue_len q =
    (if q_tail q \<ge> q_head q then q_tail q - q_head q else 256 - q_head q + q_tail q)"

definition queue_is_empty :: "LockFreeTaskQueue \<Rightarrow> bool" where
  "queue_is_empty q \<longleftrightarrow> q_head q = q_tail q"

definition queue_is_full :: "LockFreeTaskQueue \<Rightarrow> bool" where
  "queue_is_full q \<longleftrightarrow> (q_tail q + 1) mod 256 = q_head q"

definition queue_inv :: "LockFreeTaskQueue \<Rightarrow> bool" where
  "queue_inv q \<longleftrightarrow> length (q_tasks q) = 256 \<and> q_head q < 256 \<and> q_tail q < 256"

definition queue_contents :: "LockFreeTaskQueue \<Rightarrow> u32 list" where
  "queue_contents q = ring_contents (q_tasks q) (q_head q) (q_tail q)"

lemmas queue_defs = push_task_def pop_task_def queue_contents_def queue_inv_def Let_def

lemma queue_invD:
  assumes "queue_inv q"
  shows "length (q_tasks q) = 256" "q_head q < 256" "q_tail q < 256"
    "length (queue_contents q) = ring_len 256 (q_head q) (q_tail q)"
    "Suc (q_tail q) mod 256 = q_head q \<longleftrightarrow> \<not> ring_len 256 (q_head q) (q_tail q) < 255"
  using assms ring_full_iff [of "q_head q" 256 "q_tail q"] by (simp_all add: queue_inv_def queue_contents_def)

interpretation task_queue: bounded_fifo push_task pop_task queue_inv queue_contents 255
proof unfold_locales
  fix q x assume "queue_inv q"
  note q = queue_invD [OF this]
  show "fst (push_task q x) \<longleftrightarrow> length (queue_contents q) < 255"
    using q by (simp add: push_task_def Let_def)
  show "queue_contents (snd (push_task q x)) =
      (if length (queue_contents q) < 255 then queue_contents q @ [x] else queue_contents q)"
    using q ring_contents_push [of "q_head q" "q_tasks q" "q_tail q" x] by (simp add: queue_defs)
  show "queue_inv (snd (push_task q x))"
    using q by (simp add: queue_defs)
  show "fst (pop_task q) = (case queue_contents q of [] \<Rightarrow> None | x # xs \<Rightarrow> Some x)"
    using q ring_contents_pop [of "q_head q" "q_tasks q" "q_tail q"]
      ring_contents_Nil [of "q_head q" "q_tasks q" "q_tail q"] by (auto simp: queue_defs split: list.split)
  show "queue_contents (snd (pop_task q)) = tl (queue_contents q)"
    using q ring_contents_pop [of "q_head q" "q_tasks q" "q_tail q"]
      ring_contents_Nil [of "q_head q" "q_tasks q" "q_tail q"] by (auto simp: queue_defs)
  show "queue_inv (snd (pop_task q))"
    using q by (simp add: queue_defs)
qed

text \<open>The diagnostics agree with the contents.\<close>

lemma queue_diagnostics:
  assumes "queue_inv q"
  shows "queue_len q = length (queue_contents q)"
    "queue_is_empty q \<longleftrightarrow> queue_contents q = []"
    "queue_is_full q \<longleftrightarrow> \<not> fst (push_task q x)"
  using queue_invD [OF assms] ring_len_cases [of "q_head q" 256 "q_tail q"]
    ring_contents_Nil [of "q_head q" "q_tasks q" "q_tail q"]
  by (auto simp: queue_len_def queue_is_empty_def queue_is_full_def queue_contents_def push_task_def Let_def)

section \<open>Interleaved execution by one producer and one consumer\<close>

text \<open>Where each side is in its operation, with its local variables.\<close>

datatype producer =
    PIdle
  | PLoaded u32 nat
  | PChecked u32 nat
  | PWritten u32 nat

datatype consumer =
    CIdle
  | CLoaded nat
  | CChecked nat
  | CRead nat u32

text \<open>The shared queue, both sides, and the tasks whose push and whose pop have completed.\<close>

record shared =
  sh_q :: LockFreeTaskQueue
  sh_p :: producer
  sh_c :: consumer
  sh_pushed :: "u32 list"
  sh_popped :: "u32 list"

inductive queue_step :: "shared \<Rightarrow> shared \<Rightarrow> bool" where
  push_load_tail:
    "sh_p s = PIdle \<Longrightarrow> queue_step s (s\<lparr>sh_p := PLoaded tcb (q_tail (sh_q s))\<rparr>)"
| push_full:
    "sh_p s = PLoaded tcb t \<Longrightarrow> (t + 1) mod 256 = q_head (sh_q s) \<Longrightarrow> queue_step s (s\<lparr>sh_p := PIdle\<rparr>)"
| push_check:
    "sh_p s = PLoaded tcb t \<Longrightarrow> (t + 1) mod 256 \<noteq> q_head (sh_q s) \<Longrightarrow>
      queue_step s (s\<lparr>sh_p := PChecked tcb t\<rparr>)"
| push_write:
    "sh_p s = PChecked tcb t \<Longrightarrow>
      queue_step s (s\<lparr>sh_p := PWritten tcb t, sh_q := (sh_q s)\<lparr>q_tasks := (q_tasks (sh_q s))[t := tcb]\<rparr>\<rparr>)"
| push_commit:
    "sh_p s = PWritten tcb t \<Longrightarrow>
      queue_step s (s\<lparr>sh_p := PIdle, sh_q := (sh_q s)\<lparr>q_tail := (t + 1) mod 256\<rparr>, sh_pushed := sh_pushed s @ [tcb]\<rparr>)"
| pop_load_head:
    "sh_c s = CIdle \<Longrightarrow> queue_step s (s\<lparr>sh_c := CLoaded (q_head (sh_q s))\<rparr>)"
| pop_empty:
    "sh_c s = CLoaded h \<Longrightarrow> h = q_tail (sh_q s) \<Longrightarrow> queue_step s (s\<lparr>sh_c := CIdle\<rparr>)"
| pop_check:
    "sh_c s = CLoaded h \<Longrightarrow> h \<noteq> q_tail (sh_q s) \<Longrightarrow> queue_step s (s\<lparr>sh_c := CChecked h\<rparr>)"
| pop_read:
    "sh_c s = CChecked h \<Longrightarrow> queue_step s (s\<lparr>sh_c := CRead h (q_tasks (sh_q s) ! h)\<rparr>)"
| pop_commit:
    "sh_c s = CRead h tcb \<Longrightarrow>
      queue_step s (s\<lparr>sh_c := CIdle, sh_q := (sh_q s)\<lparr>q_head := (h + 1) mod 256\<rparr>, sh_popped := sh_popped s @ [tcb]\<rparr>)"

definition shared_init :: shared where
  "shared_init = \<lparr>sh_q = queue_new, sh_p = PIdle, sh_c = CIdle, sh_pushed = [], sh_popped = []\<rparr>"

inductive queue_reachable :: "shared \<Rightarrow> bool" where
  init: "queue_reachable shared_init"
| step: "queue_reachable s \<Longrightarrow> queue_step s s' \<Longrightarrow> queue_reachable s'"

text \<open>What each side may rely on at each point, whatever the other does.\<close>

fun producer_ok :: "LockFreeTaskQueue \<Rightarrow> producer \<Rightarrow> bool" where
  "producer_ok q PIdle \<longleftrightarrow> True"
| "producer_ok q (PLoaded tcb t) \<longleftrightarrow> t = q_tail q"
| "producer_ok q (PChecked tcb t) \<longleftrightarrow> t = q_tail q \<and> (t + 1) mod 256 \<noteq> q_head q"
| "producer_ok q (PWritten tcb t) \<longleftrightarrow> t = q_tail q \<and> (t + 1) mod 256 \<noteq> q_head q \<and> q_tasks q ! t = tcb"

fun consumer_ok :: "LockFreeTaskQueue \<Rightarrow> consumer \<Rightarrow> bool" where
  "consumer_ok q CIdle \<longleftrightarrow> True"
| "consumer_ok q (CLoaded h) \<longleftrightarrow> h = q_head q"
| "consumer_ok q (CChecked h) \<longleftrightarrow> h = q_head q \<and> h \<noteq> q_tail q"
| "consumer_ok q (CRead h tcb) \<longleftrightarrow> h = q_head q \<and> h \<noteq> q_tail q \<and> q_tasks q ! h = tcb"

definition shared_inv :: "shared \<Rightarrow> bool" where
  "shared_inv s \<longleftrightarrow> queue_inv (sh_q s) \<and> producer_ok (sh_q s) (sh_p s) \<and> consumer_ok (sh_q s) (sh_c s)
    \<and> sh_pushed s = sh_popped s @ queue_contents (sh_q s)"

lemma contents_write_free:
  assumes "queue_inv q"
  shows "queue_contents (q\<lparr>q_tasks := (q_tasks q)[q_tail q := x]\<rparr>) = queue_contents q"
  using queue_invD(1) [OF assms] ring_slot_other [OF queue_invD(2,3) [OF assms]]
  unfolding queue_contents_def ring_contents_def by (auto intro!: map_cong nth_list_update_neq) metis

lemma contents_commit:
  assumes "queue_inv q" "(q_tail q + 1) mod 256 \<noteq> q_head q"
  shows "queue_contents (q\<lparr>q_tail := (q_tail q + 1) mod 256\<rparr>) = queue_contents q @ [q_tasks q ! q_tail q]"
  using queue_invD [OF assms(1)] assms(2) ring_contents_push [of "q_head q" "q_tasks q" "q_tail q" "q_tasks q ! q_tail q"]
  by (simp add: queue_contents_def)

lemma contents_take:
  assumes "queue_inv q" "q_head q \<noteq> q_tail q"
  shows "queue_contents q = q_tasks q ! q_head q # queue_contents (q\<lparr>q_head := (q_head q + 1) mod 256\<rparr>)"
  using queue_invD [OF assms(1)] assms(2) ring_contents_pop [of "q_head q" "q_tasks q" "q_tail q"]
  by (simp add: queue_contents_def)

text \<open>The other side's progress does not invalidate a check that was made.\<close>

lemma head_moves_away:
  assumes "queue_inv q" "q_head q \<noteq> q_tail q" "(q_tail q + 1) mod 256 \<noteq> q_head q"
  shows "(q_tail q + 1) mod 256 \<noteq> (q_head q + 1) mod 256"
  using queue_invD(2,3) [OF assms(1)] assms(2) by (auto simp: Suc_mod_cases split: if_splits)

lemma shared_inv_step:
  assumes "queue_step s s'" "shared_inv s"
  shows "shared_inv s'"
  using assms
proof (induction rule: queue_step.induct)
  case (push_write s tcb t)
  have t: "t = q_tail (sh_q s)" "queue_inv (sh_q s)"
    using push_write by (simp_all add: shared_inv_def)
  have "queue_inv ((sh_q s)\<lparr>q_tasks := (q_tasks (sh_q s))[t := tcb]\<rparr>)"
    using t(2) by (simp add: queue_inv_def)
  moreover have "consumer_ok ((sh_q s)\<lparr>q_tasks := (q_tasks (sh_q s))[t := tcb]\<rparr>) (sh_c s)"
    using push_write t by (cases "sh_c s") (auto simp: shared_inv_def)
  ultimately show ?case
    using push_write t contents_write_free [OF t(2), of tcb] queue_invD(1,3) [OF t(2)]
    by (simp add: shared_inv_def)
next
  case (push_commit s tcb t)
  let ?q = "sh_q s"
  have t: "t = q_tail ?q" "queue_inv ?q" "(t + 1) mod 256 \<noteq> q_head ?q" "q_tasks ?q ! t = tcb"
    using push_commit by (auto simp: shared_inv_def)
  have "consumer_ok (?q\<lparr>q_tail := (t + 1) mod 256\<rparr>) (sh_c s)"
    using push_commit t by (cases "sh_c s") (auto simp: shared_inv_def)
  moreover have "queue_inv (?q\<lparr>q_tail := (t + 1) mod 256\<rparr>)"
    using t(2) by (simp add: queue_inv_def)
  ultimately show ?case
    using push_commit t contents_commit [OF t(2)] by (simp add: shared_inv_def)
next
  case (pop_commit s h tcb)
  let ?q = "sh_q s"
  have h: "h = q_head ?q" "queue_inv ?q" "q_head ?q \<noteq> q_tail ?q" "q_tasks ?q ! h = tcb"
    using pop_commit by (auto simp: shared_inv_def)
  have "producer_ok (?q\<lparr>q_head := (h + 1) mod 256\<rparr>) (sh_p s)"
    using pop_commit h head_moves_away [OF h(2,3)] by (cases "sh_p s") (auto simp: shared_inv_def)
  moreover have "queue_inv (?q\<lparr>q_head := (h + 1) mod 256\<rparr>)"
    using h(2) by (simp add: queue_inv_def)
  ultimately show ?case
    using pop_commit h contents_take [OF h(2,3)] by (simp add: shared_inv_def)
qed (auto simp: shared_inv_def)

lemma shared_inv_reachable: "queue_reachable s \<Longrightarrow> shared_inv s"
proof (induction rule: queue_reachable.induct)
  case init
  show ?case
    by (simp add: shared_inv_def shared_init_def queue_new_def queue_inv_def queue_contents_def
        ring_contents_def ring_len_def)
next
  case (step s s')
  then show ?case
    by (simp add: shared_inv_step)
qed

text \<open>C33. The lock-free queue is a queue under every interleaving. However the memory accesses of one
  producer and one consumer interleave, in every reachable state the tasks whose push has
  completed are, in order, those whose pop has completed followed by those in the ring: no task
  is lost, duplicated, invented or reordered, no pop returns a slot that has not been written,
  and at most 255 tasks are queued.\<close>

theorem task_queue_interleaved:
  assumes "queue_reachable s"
  shows "sh_pushed s = sh_popped s @ queue_contents (sh_q s)
    \<and> length (queue_contents (sh_q s)) \<le> 255
    \<and> queue_len (sh_q s) = length (sh_pushed s) - length (sh_popped s)"
proof -
  have inv: "queue_inv (sh_q s)" "sh_pushed s = sh_popped s @ queue_contents (sh_q s)"
    using shared_inv_reachable [OF assms] by (simp_all add: shared_inv_def)
  then show ?thesis
    using queue_invD(2-4) [OF inv(1)] ring_len_less [of "q_head (sh_q s)" 256 "q_tail (sh_q s)"]
      queue_diagnostics(1) [OF inv(1)] by simp
qed

theorem task_queue_interleaved_witness:
  "\<exists>s. queue_reachable s \<and> sh_c s = CLoaded 0 \<and> sh_p s = PIdle \<and> sh_pushed s = [0x20000100]
    \<and> sh_pushed s = sh_popped s @ queue_contents (sh_q s)"
proof -
  let ?s1 = "shared_init\<lparr>sh_p := PLoaded 0x20000100 0\<rparr>"
  let ?s2 = "?s1\<lparr>sh_p := PChecked 0x20000100 0\<rparr>"
  let ?s3 = "?s2\<lparr>sh_c := CLoaded 0\<rparr>"
  let ?s4 = "?s3\<lparr>sh_p := PWritten 0x20000100 0, sh_q := queue_new\<lparr>q_tasks := (q_tasks queue_new)[0 := 0x20000100]\<rparr>\<rparr>"
  let ?s5 = "?s4\<lparr>sh_p := PIdle, sh_q := (sh_q ?s4)\<lparr>q_tail := 1\<rparr>, sh_pushed := [0x20000100]\<rparr>"
  have "queue_reachable ?s1"
    using queue_reachable.step [OF queue_reachable.init push_load_tail [of shared_init "0x20000100"]]
    by (simp add: shared_init_def queue_new_def)
  then have "queue_reachable ?s2"
    using queue_reachable.step push_check [of ?s1 "0x20000100" 0] by (fastforce simp: shared_init_def queue_new_def)
  then have "queue_reachable ?s3"
    using queue_reachable.step pop_load_head [of ?s2] by (fastforce simp: shared_init_def queue_new_def)
  then have "queue_reachable ?s4"
    using queue_reachable.step push_write [of ?s3 "0x20000100" 0] by (fastforce simp: shared_init_def)
  then have "queue_reachable ?s5"
    using queue_reachable.step push_commit [of ?s4 "0x20000100" 0] by (fastforce simp: shared_init_def)
  with task_queue_interleaved [OF this] show ?thesis
    by (intro exI [of _ ?s5]) simp
qed

text \<open>Without interleaving, the four accesses of a push are the operation \<open>push_task\<close>.\<close>

lemma push_steps:
  assumes "sh_p s = PIdle" "fst (push_task (sh_q s) tcb)"
  shows "queue_step\<^sup>*\<^sup>* s (s\<lparr>sh_p := PIdle, sh_q := snd (push_task (sh_q s) tcb), sh_pushed := sh_pushed s @ [tcb]\<rparr>)"
proof -
  let ?t = "q_tail (sh_q s)"
  let ?s1 = "s\<lparr>sh_p := PLoaded tcb ?t\<rparr>"
  let ?s2 = "?s1\<lparr>sh_p := PChecked tcb ?t\<rparr>"
  let ?s3 = "?s2\<lparr>sh_p := PWritten tcb ?t, sh_q := (sh_q s)\<lparr>q_tasks := (q_tasks (sh_q s))[?t := tcb]\<rparr>\<rparr>"
  have ne: "(?t + 1) mod 256 \<noteq> q_head (sh_q s)"
    using assms(2) by (auto simp: push_task_def Let_def split: if_splits)
  have "queue_step s ?s1"
    using push_load_tail [OF assms(1)] .
  moreover have "queue_step ?s1 ?s2"
    using push_check [of ?s1 tcb ?t] ne by simp
  moreover have "queue_step ?s2 ?s3"
    using push_write [of ?s2 tcb ?t] by simp
  moreover have "queue_step ?s3 (s\<lparr>sh_p := PIdle, sh_q := snd (push_task (sh_q s) tcb), sh_pushed := sh_pushed s @ [tcb]\<rparr>)"
    using push_commit [of ?s3 tcb ?t] ne by (simp add: push_task_def Let_def)
  ultimately show ?thesis
    by (meson converse_rtranclp_into_rtranclp r_into_rtranclp)
qed

section \<open>Shadow stack\<close>

definition D_MAX :: nat where "D_MAX = 32"

record ShadowStack =
  ss_slots :: "u32 list"
  ss_depth :: nat

definition shadow_new :: ShadowStack where
  "shadow_new = \<lparr>ss_slots = replicate D_MAX 0, ss_depth = 0\<rparr>"

definition shadow_push :: "ShadowStack \<Rightarrow> u32 \<Rightarrow> bool \<times> ShadowStack" where
  "shadow_push s ret_addr =
    (if ss_depth s \<ge> D_MAX then (False, s)
     else (True, s\<lparr>ss_slots := (ss_slots s)[ss_depth s := ret_addr], ss_depth := ss_depth s + 1\<rparr>))"

definition shadow_pop :: "ShadowStack \<Rightarrow> u32 option \<times> ShadowStack" where
  "shadow_pop s =
    (if ss_depth s = 0 then (None, s)
     else (Some (ss_slots s ! (ss_depth s - 1)), s\<lparr>ss_depth := ss_depth s - 1\<rparr>))"

definition shadow_inv :: "ShadowStack \<Rightarrow> bool" where
  "shadow_inv s \<longleftrightarrow> length (ss_slots s) = D_MAX \<and> ss_depth s \<le> D_MAX"

definition shadow_list :: "ShadowStack \<Rightarrow> u32 list" where
  "shadow_list s = rev (take (ss_depth s) (ss_slots s))"

datatype call = Call u32 | Return

text \<open>A run of calls and returns: what every return read, and the final stack.\<close>

fun shadow_run :: "ShadowStack \<Rightarrow> call list \<Rightarrow> u32 option list \<times> ShadowStack" where
  "shadow_run s [] = ([], s)"
| "shadow_run s (Call a # cs) = shadow_run (snd (shadow_push s a)) cs"
| "shadow_run s (Return # cs) =
    (let (r, s1) = shadow_pop s; (rs, s2) = shadow_run s1 cs in (r # rs, s2))"

text \<open>The same on a list of return addresses that drops the pushes beyond 32.\<close>

fun call_run :: "u32 list \<Rightarrow> call list \<Rightarrow> u32 option list \<times> u32 list" where
  "call_run xs [] = ([], xs)"
| "call_run xs (Call a # cs) = call_run (if length xs < D_MAX then a # xs else xs) cs"
| "call_run xs (Return # cs) =
    (let (rs, ys) = call_run (tl xs) cs in ((case xs of [] \<Rightarrow> None | x # _ \<Rightarrow> Some x) # rs, ys))"

lemma shadow_push_list:
  assumes "shadow_inv s"
  shows "shadow_list (snd (shadow_push s a)) = (if length (shadow_list s) < D_MAX then a # shadow_list s else shadow_list s)"
    "shadow_inv (snd (shadow_push s a))" "fst (shadow_push s a) \<longleftrightarrow> length (shadow_list s) < D_MAX"
  using assms by (auto simp: shadow_push_def shadow_inv_def shadow_list_def take_Suc_conv_app_nth)

lemma shadow_pop_list:
  assumes "shadow_inv s"
  shows "fst (shadow_pop s) = (case shadow_list s of [] \<Rightarrow> None | x # _ \<Rightarrow> Some x)"
    "shadow_list (snd (shadow_pop s)) = tl (shadow_list s)" "shadow_inv (snd (shadow_pop s))"
proof -
  have "take (ss_depth s) (ss_slots s) = take (ss_depth s - 1) (ss_slots s) @ [ss_slots s ! (ss_depth s - 1)]"
    if "ss_depth s \<noteq> 0"
    using that assms by (cases "ss_depth s") (simp_all add: shadow_inv_def take_Suc_conv_app_nth)
  then show "fst (shadow_pop s) = (case shadow_list s of [] \<Rightarrow> None | x # _ \<Rightarrow> Some x)"
    "shadow_list (snd (shadow_pop s)) = tl (shadow_list s)" "shadow_inv (snd (shadow_pop s))"
    using assms by (auto simp: shadow_pop_def shadow_list_def shadow_inv_def)
qed

lemma shadow_run_refines:
  "shadow_inv s \<Longrightarrow> fst (shadow_run s cs) = fst (call_run (shadow_list s) cs)
    \<and> shadow_list (snd (shadow_run s cs)) = snd (call_run (shadow_list s) cs)
    \<and> shadow_inv (snd (shadow_run s cs))"
proof (induction cs arbitrary: s)
  case (Cons c cs)
  show ?case
  proof (cases c)
    case (Call a)
    then show ?thesis
      using Cons.IH [of "snd (shadow_push s a)"] shadow_push_list [OF Cons.prems, of a] by simp
  next
    case Return
    then show ?thesis
      using Cons.IH [of "snd (shadow_pop s)"] shadow_pop_list [OF Cons.prems] by (simp add: Let_def split_def)
  qed
qed simp

text \<open>The shadow stack refines a stack of return addresses: for every sequence of calls and
  returns, each return reads the address of the matching call. A call at depth 32 is refused, so
  that its return reads the address of the call before it.\<close>

theorem shadow_stack_refines:
  "fst (shadow_run shadow_new cs) = fst (call_run [] cs)
    \<and> length (snd (call_run [] cs)) = ss_depth (snd (shadow_run shadow_new cs))"
proof -
  have inv: "shadow_inv shadow_new" "shadow_list shadow_new = []"
    by (simp_all add: shadow_inv_def shadow_new_def shadow_list_def D_MAX_def)
  have "length (shadow_list s) = ss_depth s" if "shadow_inv s" for s
    using that by (simp add: shadow_inv_def shadow_list_def)
  then show ?thesis
    using shadow_run_refines [OF inv(1), of cs] inv(2) by metis
qed

section \<open>SysTick\<close>

text \<open>\<open>N = f_CPU * dt\<close>, in 32-bit arithmetic.\<close>

definition systick_reload :: "u32 \<Rightarrow> u32 \<Rightarrow> u32" where
  "systick_reload f_cpu_hz delta_ms = (f_cpu_hz div 1000) * delta_ms"

definition configure_systick :: "mem \<Rightarrow> u32 \<Rightarrow> u32 \<Rightarrow> u32 \<times> mem" where
  "configure_systick m f_cpu_hz delta_ms =
    (let n = systick_reload f_cpu_hz delta_ms;
         m1 = poke_u32 m 0xE000E014 n;
         m2 = poke_u32 m1 0xE000E018 0
     in (n, poke_u32 m2 0xE000E010 0x07))"

definition TOTAL_CYCLES :: nat where "TOTAL_CYCLES = 43"
definition ledger :: "nat list" where "ledger = [12, 8, 3, 8, 12]"

lemma ledger_total: "sum_list ledger = TOTAL_CYCLES"
  by (simp add: ledger_def TOTAL_CYCLES_def)

text \<open>The timer is programmed with the period, and the period is exact as long as the product fits 32
  bits.\<close>

lemma configure_systick_registers:
  assumes "configure_systick m f d = (n, m')"
  shows "peek_u32 m' 0xE000E014 = n" "peek_u32 m' 0xE000E018 = 0" "peek_u32 m' 0xE000E010 = 7"
  using assms by (auto simp: configure_systick_def Let_def peek_poke_other no_overlap_def)

lemma systick_reload_exact:
  "(unat f div 1000) * unat d < 2 ^ 32 \<Longrightarrow> unat (systick_reload f d) = unat f div 1000 * unat d"
  by (simp add: systick_reload_def unat_mult_u32 unat_div)

end
