(* ===== verification/Wcet.thy ===== *)
theory Wcet
  imports HROS_Prelude
begin

text \<open>
  The execution-time ledger of \<^verbatim>\<open>crates/hros-kernel/src/wcet.rs\<close> and its response-time analysis.
  A \<open>usize\<close> is a natural number below \<open>2 ^ 32\<close>; additions, products and sums wrap around.
\<close>

definition wrap32 :: "nat \<Rightarrow> nat" where
  "wrap32 n = n mod 2 ^ 32"

lemma wrap32_id: "n < 2 ^ 32 \<Longrightarrow> wrap32 n = n"
  by (simp add: wrap32_def)

section \<open>Ledger\<close>

definition t_jit :: "nat \<Rightarrow> nat" where
  "t_jit s_bytes = wrap32 (s_bytes * 25)"

definition t_cap :: "nat \<Rightarrow> bool \<Rightarrow> nat" where
  "t_cap n_accesses vector = wrap32 (n_accesses * (if vector then 1 else 3))"

definition T_CTX :: nat where "T_CTX = 43"

definition t_exec :: "nat list \<Rightarrow> nat list \<Rightarrow> nat" where
  "t_exec bb_costs bounds = foldl (\<lambda>acc (c, b). wrap32 (acc + wrap32 (c * b))) 0 (zip bb_costs bounds)"

definition total_wcet :: "nat \<Rightarrow> nat \<Rightarrow> bool \<Rightarrow> nat list \<Rightarrow> nat list \<Rightarrow> nat" where
  "total_wcet s_bytes n_cap vector bb_costs bounds =
    wrap32 (t_jit s_bytes + t_cap n_cap vector + t_exec bb_costs bounds + T_CTX)"

lemma t_exec_mod: "foldl (\<lambda>acc (c, b). wrap32 (acc + wrap32 (c * b))) (wrap32 a) cbs
    = wrap32 (a + (\<Sum>(c, b)\<leftarrow>cbs. c * b))"
proof (induction cbs arbitrary: a)
  case (Cons cb cbs)
  obtain c b where "cb = (c, b)"
    by (cases cb)
  moreover have "wrap32 (wrap32 a + wrap32 (c * b)) = wrap32 (a + c * b)"
    by (simp add: wrap32_def mod_simps)
  ultimately show ?case
    using Cons.IH [of "a + c * b"] by (simp add: add.assoc)
qed simp

text \<open>The ledger is the exact sum of its parts, as long as that sum fits the machine word.\<close>

lemma total_wcet_exact:
  assumes "s_bytes * 25 + n_cap * (if vector then 1 else 3) + (\<Sum>(c, b)\<leftarrow>zip bb_costs bounds. c * b) + 43 < 2 ^ 32"
  shows "total_wcet s_bytes n_cap vector bb_costs bounds =
    s_bytes * 25 + n_cap * (if vector then 1 else 3) + (\<Sum>(c, b)\<leftarrow>zip bb_costs bounds. c * b) + 43"
proof -
  have "t_exec bb_costs bounds = wrap32 (\<Sum>(c, b)\<leftarrow>zip bb_costs bounds. c * b)"
    using t_exec_mod [of 0 "zip bb_costs bounds"] by (simp add: t_exec_def wrap32_def)
  then show ?thesis
    using assms by (simp add: total_wcet_def t_jit_def t_cap_def T_CTX_def wrap32_id)
qed

section \<open>Response-time analysis\<close>

text \<open>One evaluation of the right-hand side; a period of 0 is a division by zero and panics.\<close>

fun rta_next :: "nat \<Rightarrow> (nat \<times> nat) list \<Rightarrow> nat \<Rightarrow> nat option" where
  "rta_next acc [] r = Some acc"
| "rta_next acc ((w_tj, p_j) # higher) r =
    (if p_j = 0 then None
     else rta_next (wrap32 (acc + wrap32 ((wrap32 (r + p_j - 1) div p_j) * w_tj))) higher r)"

text \<open>The loop, with the number of iterations left. \<open>None\<close> is a panic.\<close>

fun rta_iter :: "nat \<Rightarrow> nat \<Rightarrow> (nat \<times> nat) list \<Rightarrow> nat \<Rightarrow> nat \<Rightarrow> nat option option" where
  "rta_iter 0 w_ti higher deadline r = Some None"
| "rta_iter (Suc n) w_ti higher deadline r =
    (case rta_next w_ti higher r of
       None \<Rightarrow> None
     | Some x \<Rightarrow>
         if x > deadline then Some None
         else if x = r then Some (Some r)
         else rta_iter n w_ti higher deadline x)"

definition rta_response_time :: "nat \<Rightarrow> (nat \<times> nat) list \<Rightarrow> nat \<Rightarrow> nat option option" where
  "rta_response_time w_ti higher deadline = rta_iter 100 w_ti higher deadline w_ti"

text \<open>The response-time equation over the natural numbers.\<close>

definition ceil_div :: "nat \<Rightarrow> nat \<Rightarrow> nat" where
  "ceil_div r p = (r + p - 1) div p"

definition response :: "nat \<Rightarrow> (nat \<times> nat) list \<Rightarrow> nat \<Rightarrow> nat" where
  "response w higher r = w + (\<Sum>(w_j, p_j)\<leftarrow>higher. ceil_div r p_j * w_j)"

text \<open>Parameters for which no evaluation up to \<open>r\<close> overflows.\<close>

definition rta_ok :: "nat \<Rightarrow> (nat \<times> nat) list \<Rightarrow> nat \<Rightarrow> bool" where
  "rta_ok w higher r \<longleftrightarrow> list_all (\<lambda>(w_j, p_j). 0 < p_j \<and> r + p_j < 2 ^ 32) higher \<and> response w higher r < 2 ^ 32"

lemma response_Cons:
  "response w ((w_j, p_j) # higher) r = response (w + ceil_div r p_j * w_j) higher r"
  by (simp add: response_def)

lemma response_ge: "w \<le> response w higher r"
  by (simp add: response_def)

lemma ceil_div_mono: "r \<le> r' \<Longrightarrow> ceil_div r p \<le> ceil_div r' p"
  by (simp add: ceil_div_def div_le_mono diff_le_mono)

lemma response_mono: "r \<le> r' \<Longrightarrow> response w higher r \<le> response w higher r'"
  by (induction higher arbitrary: w)
    (auto simp: response_def intro!: add_mono mult_le_mono ceil_div_mono)

lemma rta_ok_mono: "rta_ok w higher r' \<Longrightarrow> r \<le> r' \<Longrightarrow> rta_ok w higher r"
  using response_mono [of r r' w higher] by (auto simp: rta_ok_def list_all_iff)

lemma rta_next_exact: "rta_ok w higher r \<Longrightarrow> rta_next w higher r = Some (response w higher r)"
proof (induction higher arbitrary: w)
  case Nil
  then show ?case
    by (simp add: response_def)
next
  case (Cons h higher)
  obtain w_j p_j where h: "h = (w_j, p_j)"
    by (cases h)
  let ?c = "ceil_div r p_j * w_j"
  have le: "w + ?c < 2 ^ 32" "0 < p_j" "r + p_j < 2 ^ 32"
    using Cons.prems response_ge [of "w + ?c" higher r] h by (auto simp: rta_ok_def response_Cons)
  have "rta_ok (w + ?c) higher r"
    using Cons.prems h by (simp add: rta_ok_def response_Cons)
  then show ?case
    using Cons.IH le h by (simp add: response_Cons wrap32_id ceil_div_def)
qed

text \<open>The iteration from below: it never passes a solution of the equation, and it grows strictly
  until it stops.\<close>

lemma rta_iter_spec:
  assumes "rta_ok w higher (max r deadline)" "r \<le> response w higher r"
    "\<And>x. response w higher x \<le> x \<Longrightarrow> r \<le> x"
  shows "(\<exists>x. rta_iter n w higher deadline r = Some (Some x) \<and> response w higher x = x \<and> x \<le> deadline
        \<and> (\<forall>y. response w higher y \<le> y \<longrightarrow> x \<le> y))
    \<or> (rta_iter n w higher deadline r = Some None \<and> (\<forall>y. response w higher y \<le> y \<longrightarrow> deadline < y))
    \<or> (rta_iter n w higher deadline r = Some None \<and> r + n \<le> max r deadline)"
  using assms
proof (induction n arbitrary: r)
  case 0
  then show ?case
    by simp
next
  case (Suc n)
  let ?x = "response w higher r"
  have nxt: "rta_next w higher r = Some ?x"
    using Suc.prems(1) by (intro rta_next_exact) (auto elim: rta_ok_mono)
  have below: "?x \<le> y" if "response w higher y \<le> y" for y
    using response_mono [OF Suc.prems(3) [OF that], of w higher] that by simp
  consider "?x > deadline" | "?x \<le> deadline" "?x = r" | "?x \<le> deadline" "?x \<noteq> r"
    by linarith
  then show ?case
  proof cases
    case 1
    then show ?thesis
      using nxt below by fastforce
  next
    case 2
    then show ?thesis
      using nxt below by auto
  next
    case 3
    have "rta_ok w higher (max ?x deadline)"
      using Suc.prems(1) 3 by (auto elim: rta_ok_mono)
    moreover have "?x \<le> response w higher ?x"
      using Suc.prems(2) by (rule response_mono)
    ultimately show ?thesis
      using Suc.IH [of ?x] below 3 nxt Suc.prems(2) by auto
  qed
qed

text \<open>Unfolding the loop at a numeral.\<close>

lemma rta_iter_numeral:
  "rta_iter (numeral k) w_ti higher deadline r =
    (case rta_next w_ti higher r of
       None \<Rightarrow> None
     | Some x \<Rightarrow>
         if x > deadline then Some None
         else if x = r then Some (Some r)
         else rta_iter (pred_numeral k) w_ti higher deadline x)"
  by (simp add: numeral_eq_Suc)

text \<open>The exact answer: the loop stops at the first fixed point of the iteration, if it meets the deadline and the rounds suffice.\<close>

lemma response_chain: "r \<le> response w higher r \<Longrightarrow> r \<le> (response w higher ^^ i) r"
proof (induction i)
  case (Suc i)
  then show ?case
    using response_mono [of r "(response w higher ^^ i) r" w higher] by simp
qed simp

lemma rta_iter_answer:
  assumes "rta_ok w higher (max r deadline)" "r \<le> response w higher r"
  shows "rta_iter n w higher deadline r = Some (Some x) \<longleftrightarrow>
    x \<le> deadline \<and> response w higher x = x \<and> (\<exists>i<n. (response w higher ^^ i) r = x)"
  using assms
proof (induction n arbitrary: r)
  case (Suc n)
  let ?f = "response w higher"
  have nxt: "rta_next w higher r = Some (?f r)"
    using Suc.prems(1) by (intro rta_next_exact) (auto elim: rta_ok_mono)
  have up: "?f r \<le> ?f (?f r)"
    using Suc.prems(2) by (rule response_mono)
  have shift: "(\<exists>i<Suc n. (?f ^^ i) r = x) \<longleftrightarrow> r = x \<or> (\<exists>i<n. (?f ^^ i) (?f r) = x)"
    by (auto simp: less_Suc_eq_0_disj funpow_swap1)
  consider "?f r > deadline" | "?f r \<le> deadline" "?f r = r" | "?f r \<le> deadline" "?f r \<noteq> r"
    by linarith
  then show ?case
  proof cases
    case 1
    then have "deadline < (?f ^^ i) (?f r)" for i
      using response_chain [OF up, of i] by simp
    then show ?thesis
      using 1 nxt unfolding shift by (auto simp: not_le)
  next
    case 2
    have "(?f ^^ i) r = r" for i
      using 2(2) by (induction i) simp_all
    then show ?thesis
      using 2 nxt unfolding shift by auto
  next
    case 3
    have "rta_ok w higher (max (?f r) deadline)"
      using Suc.prems(1) 3 by (auto elim: rta_ok_mono)
    then show ?thesis
      using Suc.IH [OF _ up] 3 nxt unfolding shift by auto
  qed
qed simp

text \<open>C34. Response-time analysis. For positive periods and values that fit the machine word, the
  analysis returns. It answers with a response time exactly if this is the least solution of the response-time
  equation, meets the deadline, and is reached from the task's own execution time in less than 100 rounds of the
  iteration; otherwise it answers \<open>None\<close>. If the deadline is less than 100 above the execution time, the rounds always suffice:
  then \<open>None\<close> means that no solution meets the deadline.\<close>

theorem rta_response_time_correct:
  assumes "rta_ok w higher (max w deadline)"
  shows "(\<exists>answer. rta_response_time w higher deadline = Some answer)
    \<and> (rta_response_time w higher deadline = Some (Some r) \<longleftrightarrow>
        r \<le> deadline \<and> response w higher r = r \<and> (\<forall>y. response w higher y = y \<longrightarrow> r \<le> y)
        \<and> (\<exists>i<100. (response w higher ^^ i) w = r))
    \<and> (deadline < w + 100 \<and> rta_response_time w higher deadline = Some None \<longrightarrow>
        (\<forall>y. response w higher y = y \<longrightarrow> deadline < y))"
proof -
  have w: "w \<le> y" if "response w higher y \<le> y" for y
    using response_ge [of w higher y] that by simp
  note spec = rta_iter_spec [OF assms response_ge w, of 100]
  have least: "r \<le> y" if "rta_iter 100 w higher deadline w = Some (Some r)" "response w higher y = y" for y
    using spec that by auto
  show ?thesis
    unfolding rta_response_time_def
    using spec least rta_iter_answer [OF assms response_ge, of 100 r] by auto
qed

text \<open>A response time of 70, reached after two rounds; and a task whose response time of 100000 meets its deadline, but is not reached in 100 rounds.\<close>

theorem rta_response_time_correct_witness:
  "rta_response_time 30 [(10, 50), (20, 100)] 200 = Some (Some 70)
    \<and> \<not> (\<exists>y<70. response 30 [(10, 50), (20, 100)] y = y)
    \<and> rta_response_time 1000 [(99, 100)] 200000 = Some None \<and> response 1000 [(99, 100)] 100000 = 100000"
proof -
  have ok: "rta_ok 30 [(10, 50), (20, 100)] (max 30 200)"
    by (simp add: rta_ok_def response_def ceil_div_def)
  have "rta_response_time 30 [(10, 50), (20, 100)] 200 = Some (Some 70)" "rta_response_time 1000 [(99, 100)] 200000 = Some None"
    "response 1000 [(99, 100)] 100000 = 100000"
    unfolding rta_response_time_def by (simp_all add: wrap32_def rta_iter_numeral response_def ceil_div_def)
  then show ?thesis
    using rta_response_time_correct [OF ok, of 70] by (auto simp: not_less)
qed

end
