(* ===== verification/Pool.thy ===== *)
theory Pool
  imports HROS_Prelude
begin

text \<open>
  The per-task bump allocator of \<^verbatim>\<open>src/kernel/pool.rs\<close>. The base of the pool is a linker symbol
  and a parameter; offsets, sizes and addresses are 32-bit and their sums wrap around.
\<close>

definition POOL_SIZE :: u32 where "POOL_SIZE = 8192"
definition NUM_POOLS :: nat where "NUM_POOLS = 4"
definition TASK_POOL_SIZE :: u32 where "TASK_POOL_SIZE = POOL_SIZE div of_nat NUM_POOLS"

datatype PoolError = BadTask | PoolFull | BadAlign

type_synonym offsets = "u32 list"

definition OFFSETS :: offsets where
  "OFFSETS = replicate NUM_POOLS 0"

definition alloc :: "u32 \<Rightarrow> offsets \<Rightarrow> nat \<Rightarrow> u32 \<Rightarrow> (PoolError + u32) \<times> offsets" where
  "alloc pool_base offs task_idx sz =
    (if task_idx \<ge> NUM_POOLS then (Inl BadTask, offs)
     else
       (let off = offs ! task_idx;
            base = pool_base + of_nat task_idx * TASK_POOL_SIZE;
            addr = base + off
        in if off + sz > TASK_POOL_SIZE then (Inl PoolFull, offs)
           else (Inr addr, offs[task_idx := off + sz])))"

definition reset :: "offsets \<Rightarrow> nat \<Rightarrow> (PoolError + unit) \<times> offsets" where
  "reset offs task_idx =
    (if task_idx \<ge> NUM_POOLS then (Inl BadTask, offs) else (Inr (), offs[task_idx := 0]))"

definition remaining :: "offsets \<Rightarrow> nat \<Rightarrow> PoolError + u32" where
  "remaining offs task_idx =
    (if task_idx \<ge> NUM_POOLS then Inl BadTask else Inr (TASK_POOL_SIZE - offs ! task_idx))"

definition stats :: "offsets \<Rightarrow> (u32 \<times> u32) list" where
  "stats offs = map (\<lambda>i. (offs ! i, TASK_POOL_SIZE - offs ! i)) [0..<NUM_POOLS]"

lemma TASK_POOL_SIZE_value [simp]: "TASK_POOL_SIZE = 2048"
  by (simp add: TASK_POOL_SIZE_def POOL_SIZE_def NUM_POOLS_def)

definition pool_inv :: "offsets \<Rightarrow> bool" where
  "pool_inv offs \<longleftrightarrow> length offs = NUM_POOLS \<and> list_all (\<lambda>off. unat off \<le> 2048) offs"

lemma pool_inv_nth: "pool_inv offs \<Longrightarrow> i < 4 \<Longrightarrow> unat (offs ! i) \<le> 2048"
  by (simp add: pool_inv_def NUM_POOLS_def list_all_length)

lemma pool_inv_update: "pool_inv offs \<Longrightarrow> unat off \<le> 2048 \<Longrightarrow> pool_inv (offs[i := off])"
  by (auto simp: pool_inv_def list_all_iff dest!: set_update_subset_insert [THEN subsetD])

text \<open>A request that cannot wrap around the 32-bit sum.\<close>

definition sane :: "u32 \<Rightarrow> bool" where
  "sane sz \<longleftrightarrow> unat sz < 2 ^ 31"

lemma alloc_sane:
  assumes "pool_inv offs" "i < 4" "sane sz"
  shows "alloc pb offs i sz =
    (if unat (offs ! i) + unat sz \<le> 2048
     then (Inr (pb + of_nat i * 2048 + offs ! i), offs[i := offs ! i + sz]) else (Inl PoolFull, offs))"
    and "unat (offs ! i + sz) = unat (offs ! i) + unat sz"
proof -
  have "unat (offs ! i) + unat sz < 2 ^ 32"
    using pool_inv_nth [OF assms(1,2)] assms(3) by (simp add: sane_def)
  then show sum: "unat (offs ! i + sz) = unat (offs ! i) + unat sz"
    by (rule unat_add_u32)
  then have "offs ! i + sz > 2048 \<longleftrightarrow> \<not> unat (offs ! i) + unat sz \<le> 2048"
    by (simp add: word_less_nat_alt not_le)
  then show "alloc pb offs i sz =
    (if unat (offs ! i) + unat sz \<le> 2048
     then (Inr (pb + of_nat i * 2048 + offs ! i), offs[i := offs ! i + sz]) else (Inl PoolFull, offs))"
    using assms(2) by (simp add: alloc_def NUM_POOLS_def Let_def)
qed

section \<open>Live blocks\<close>

text \<open>A block is its task, its first address and its size; \<open>pool_reach\<close> follows allocations and
  resets from the empty pool and keeps the blocks that have been handed out and not been reset.\<close>

type_synonym block = "nat \<times> u32 \<times> u32"

inductive pool_reach :: "u32 \<Rightarrow> offsets \<Rightarrow> block list \<Rightarrow> bool" for pb where
  start: "pool_reach pb OFFSETS []"
| alloc_ok: "pool_reach pb offs live \<Longrightarrow> sane sz \<Longrightarrow> alloc pb offs i sz = (Inr addr, offs') \<Longrightarrow>
    pool_reach pb offs' ((i, addr, sz) # live)"
| alloc_fail: "pool_reach pb offs live \<Longrightarrow> alloc pb offs i sz = (Inl e, offs') \<Longrightarrow> pool_reach pb offs' live"
| reset_ok: "pool_reach pb offs live \<Longrightarrow> reset offs i = (r, offs') \<Longrightarrow>
    pool_reach pb offs' (filter (\<lambda>(j, a, n). j \<noteq> i) live)"

text \<open>The bytes of a block, and those of a task's sub-pool up to an offset.\<close>

definition block_bytes :: "block \<Rightarrow> nat set" where
  "block_bytes b = (case b of (i, a, n) \<Rightarrow> {unat a ..< unat a + unat n})"

definition sub_pool :: "u32 \<Rightarrow> nat \<Rightarrow> nat \<Rightarrow> nat set" where
  "sub_pool pb i n = {unat pb + i * 2048 ..< unat pb + i * 2048 + n}"

fun block_task :: "block \<Rightarrow> nat" where
  "block_task (i, a, n) = i"

definition live_inv :: "u32 \<Rightarrow> offsets \<Rightarrow> block list \<Rightarrow> bool" where
  "live_inv pb offs live \<longleftrightarrow> pool_inv offs
    \<and> (\<forall>b\<in>set live. block_task b < 4 \<and> block_bytes b \<subseteq> sub_pool pb (block_task b) (unat (offs ! block_task b)))
    \<and> sorted_wrt (\<lambda>b c. block_bytes b \<inter> block_bytes c = {}) live"

lemma sub_pool_mono: "n \<le> m \<Longrightarrow> sub_pool pb i n \<subseteq> sub_pool pb i m"
  by (auto simp: sub_pool_def)

lemma sub_pool_disjoint: "i \<noteq> j \<Longrightarrow> n \<le> 2048 \<Longrightarrow> m \<le> 2048 \<Longrightarrow> sub_pool pb i n \<inter> sub_pool pb j m = {}"
proof -
  assume "i \<noteq> j" "n \<le> 2048" "m \<le> 2048"
  then have "i * 2048 + n \<le> j * 2048 \<or> j * 2048 + m \<le> i * 2048"
    by (cases "i < j") linarith+
  then show ?thesis
    by (auto simp: sub_pool_def)
qed

text \<open>The pool lies below the end of the address space.\<close>

definition pool_fits :: "u32 \<Rightarrow> bool" where
  "pool_fits pb \<longleftrightarrow> unat pb + 8192 < 2 ^ 32"

lemma block_addr:
  assumes "pool_fits pb" "i < 4" "unat off \<le> 2048"
  shows "unat (pb + of_nat i * 2048 + off) = unat pb + i * 2048 + unat off"
proof -
  have "unat (of_nat i * 2048 :: u32) = i * 2048"
    using assms(2) by (simp add: unat_word_ariths unat_of_nat)
  then have "unat (pb + of_nat i * 2048) = unat pb + i * 2048"
    using assms(1,2) by (subst unat_add_u32) (simp_all add: pool_fits_def)
  then show ?thesis
    using assms by (subst unat_add_u32) (simp_all add: pool_fits_def)
qed

lemma live_inv_alloc:
  assumes "live_inv pb offs live" "pool_fits pb" "sane sz" "alloc pb offs i sz = (Inr addr, offs')"
  shows "live_inv pb offs' ((i, addr, sz) # live)"
proof -
  have inv: "pool_inv offs"
    using assms(1) by (simp add: live_inv_def)
  have i: "i < 4"
    using assms(4) by (auto simp: alloc_def NUM_POOLS_def split: if_splits)
  have fit: "unat (offs ! i) + unat sz \<le> 2048" and addr: "addr = pb + of_nat i * 2048 + offs ! i"
    and offs': "offs' = offs[i := offs ! i + sz]"
    using alloc_sane(1) [OF inv i assms(3), of pb] assms(4) by (auto split: if_splits)
  note sum = alloc_sane(2) [OF inv i assms(3)]
  have len: "i < length offs"
    using inv i by (simp add: pool_inv_def NUM_POOLS_def)
  have new: "block_bytes (i, addr, sz) =
      {unat pb + i * 2048 + unat (offs ! i) ..< unat pb + i * 2048 + unat (offs ! i) + unat sz}"
    unfolding addr block_bytes_def prod.case
    using block_addr [OF assms(2) i, of "offs ! i"] pool_inv_nth [OF inv i] by simp
  have old: "block_task b < 4" "block_bytes b \<subseteq> sub_pool pb (block_task b) (unat (offs ! block_task b))"
    if "b \<in> set live" for b
    using assms(1) that by (auto simp: live_inv_def)
  have "block_bytes b \<inter> block_bytes (i, addr, sz) = {}" if "b \<in> set live" for b
  proof (cases "block_task b = i")
    case True
    then show ?thesis
      using old(2) [OF that] unfolding new by (auto simp: sub_pool_def)
  next
    case False
    have "block_bytes (i, addr, sz) \<subseteq> sub_pool pb i 2048"
      unfolding new using fit by (auto simp: sub_pool_def)
    then show ?thesis
      using old [OF that] sub_pool_disjoint [OF False, of "unat (offs ! block_task b)" 2048 pb]
        pool_inv_nth [OF inv, of "block_task b"] by blast
  qed
  moreover have "pool_inv offs'"
    unfolding offs' using fit sum by (intro pool_inv_update [OF inv]) simp
  moreover have "block_bytes b \<subseteq> sub_pool pb (block_task b) (unat (offs' ! block_task b))" if "b \<in> set live" for b
    using old(2) [OF that] sub_pool_mono [of "unat (offs ! i)" "unat (offs' ! i)" pb i] len sum
    unfolding offs' by (cases "block_task b = i") auto
  ultimately show ?thesis
    using assms(1) i len sum new fit unfolding live_inv_def
    by (auto simp: offs' sub_pool_def)
qed

lemma live_inv_reset:
  assumes "live_inv pb offs live" "reset offs i = (r, offs')"
  shows "live_inv pb offs' (filter (\<lambda>(j, a, n). j \<noteq> i) live)"
proof (cases "i \<ge> NUM_POOLS")
  case True
  then show ?thesis
    using assms by (auto simp: reset_def live_inv_def sorted_wrt_filter)
next
  case False
  then have "offs' = offs[i := 0]" "i < length offs"
    using assms by (auto simp: reset_def live_inv_def pool_inv_def)
  then show ?thesis
    using assms(1) pool_inv_update [of offs 0 i]
    by (fastforce simp: live_inv_def sorted_wrt_filter)
qed

text \<open>C31. Blocks of the pool never overlap. Whatever the sequence of allocations and resets, every
  block that has been handed out and not been reset lies inside the 2048 bytes of its task's
  sub-pool, no two of them share a byte, and the offsets never exceed the sub-pools; requests
  are taken to be below 2 GiB.\<close>

theorem pool_blocks_disjoint:
  assumes "pool_reach pb offs live" "pool_fits pb"
  shows "(\<forall>b\<in>set live. block_task b < 4 \<and> block_bytes b \<subseteq> sub_pool pb (block_task b) 2048)
    \<and> sorted_wrt (\<lambda>b c. block_bytes b \<inter> block_bytes c = {}) live
    \<and> (\<forall>i<4. unat (offs ! i) \<le> 2048 \<and> remaining offs i = Inr (2048 - offs ! i))"
proof -
  have inv: "live_inv pb offs live"
    using assms(1)
  proof (induction rule: pool_reach.induct)
    case start
    show ?case
      by (simp add: live_inv_def pool_inv_def OFFSETS_def list_all_iff)
  next
    case (alloc_ok offs live sz i addr offs')
    then show ?case
      using live_inv_alloc assms(2) by blast
  next
    case (alloc_fail offs live i sz e offs')
    then show ?case
      by (auto simp: alloc_def Let_def split: if_splits)
  next
    case (reset_ok offs live i r offs')
    then show ?case
      by (auto intro: live_inv_reset)
  qed
  then have "block_bytes b \<subseteq> sub_pool pb (block_task b) 2048" if "b \<in> set live" for b
    using that pool_inv_nth [of offs "block_task b"] sub_pool_mono [of "unat (offs ! block_task b)" 2048 pb "block_task b"]
    by (fastforce simp: live_inv_def)
  then show ?thesis
    using inv pool_inv_nth [of offs] by (auto simp: live_inv_def remaining_def NUM_POOLS_def)
qed

theorem pool_blocks_disjoint_witness:
  "\<exists>offs live. pool_reach 0x20005000 offs live \<and> length live = 2
    \<and> sorted_wrt (\<lambda>b c. block_bytes b \<inter> block_bytes c = {}) live"
proof -
  have offs: "OFFSETS = [0, 0, 0, 0]"
    by (simp add: OFFSETS_def NUM_POOLS_def eval_nat_numeral)
  have "pool_reach 0x20005000 [16, 0, 0, 0] [(0, 0x20005000, 16)]"
    using pool_reach.alloc_ok [OF pool_reach.start, of 16 "0x20005000" 0 "0x20005000" "[16, 0, 0, 0]"]
    by (simp add: sane_def alloc_def offs NUM_POOLS_def)
  then have r: "pool_reach 0x20005000 [16, 8, 0, 0] [(1, 0x20005800, 8), (0, 0x20005000, 16)]"
    using pool_reach.alloc_ok [of "0x20005000" "[16, 0, 0, 0]" "[(0, 0x20005000, 16)]" 8 1 "0x20005800" "[16, 8, 0, 0]"]
    by (simp add: sane_def alloc_def NUM_POOLS_def)
  show ?thesis
    using pool_blocks_disjoint [OF r] r by (intro exI) (auto simp: pool_fits_def)
qed

text \<open>A huge request wraps the offset. With \<open>off\<close> bytes in use, a request for \<open>2 ^ 32 - off\<close> bytes
  passes the check, since the 32-bit sum is 0; the next block is then handed out at the address
  of the first one.\<close>

theorem pool_alloc_wraps:
  assumes "pool_inv offs" "i < 4" "offs ! i \<noteq> 0"
  shows "\<exists>offs'. alloc pb offs i (- (offs ! i)) = (Inr (pb + of_nat i * 2048 + offs ! i), offs')
    \<and> offs' ! i = 0 \<and> fst (alloc pb offs' i 4) = Inr (pb + of_nat i * 2048)"
  using assms by (auto simp: alloc_def NUM_POOLS_def pool_inv_def Let_def)

theorem pool_alloc_wraps_witness:
  "fst (alloc 0x20005000 OFFSETS 0 16) = Inr 0x20005000
    \<and> (\<exists>offs'. alloc 0x20005000 [16, 0, 0, 0] 0 0xFFFFFFF0 = (Inr 0x20005010, offs')
      \<and> fst (alloc 0x20005000 offs' 0 4) = Inr 0x20005000)"
proof -
  have "pool_inv [16, 0, 0, 0]"
    by (simp add: pool_inv_def NUM_POOLS_def)
  from pool_alloc_wraps [OF this, of 0 "0x20005000"] show ?thesis
    by (auto simp: alloc_def OFFSETS_def NUM_POOLS_def)
qed

end
