(* ===== verification/Memory_Frames.thy ===== *)
theory Memory_Frames
  imports Byte_Memory
begin

text \<open>
  Framing on the byte memory: which bytes a store changes, and reading past them. Offsets are
  counted from a common address, so that the lemmas apply to the layouts of the program store,
  of task stacks and of the vector table.
\<close>

section \<open>Which bytes a store changes\<close>

text \<open>\<open>frame m m' a n\<close>: the two memories agree outside the \<open>n\<close> bytes from \<open>a\<close>.\<close>

definition frame :: "mem \<Rightarrow> mem \<Rightarrow> u32 \<Rightarrow> nat \<Rightarrow> bool" where
  "frame m m' a n \<longleftrightarrow> (\<forall>c. unat (c - a) \<ge> n \<longrightarrow> m' c = m c)"

lemma frame_poke: "4 \<le> n \<Longrightarrow> frame m (poke_u32 m a v) a n"
  unfolding frame_def
proof (intro allI impI)
  fix c :: u32
  assume "4 \<le> n" "n \<le> unat (c - a)"
  then have "c - a \<notin> {0, 1, 2, 3}"
    by auto
  then show "poke_u32 m a v c = m c"
    by (rule poke_u32_byte)
qed

lemma frame_trans: "frame m m' a n \<Longrightarrow> frame m' m'' a n \<Longrightarrow> frame m m'' a n"
  by (simp add: frame_def)

text \<open>A frame at a later address is a frame at an earlier one.\<close>

lemma frame_shift:
  assumes "frame m m' (a + of_nat k) n" "k + n \<le> N" "N < 2 ^ 32"
  shows "frame m m' a N"
  unfolding frame_def
proof (intro allI impI)
  fix c
  assume c: "N \<le> unat (c - a)"
  have k: "unat (of_nat k :: u32) = k"
    using assms(2,3) by (simp add: unat_of_nat take_bit_nat_eq_self_iff)
  then have "of_nat k \<le> c - a"
    using c assms(2) by (simp add: word_le_nat_alt)
  then have "unat (c - (a + of_nat k)) = unat (c - a) - k"
    using k unat_sub [of "of_nat k" "c - a"] by (simp add: diff_diff_eq)
  then show "m' c = m c"
    using assms(1,2) c by (simp add: frame_def)
qed

text \<open>Reading outside a frame. Offsets are counted from a common address \<open>a\<close>.\<close>

lemma unat_offset:
  assumes "j < 2 ^ 31" "k < 2 ^ 31"
  shows "unat (a + of_nat k - (a + of_nat j :: u32)) = (if j \<le> k then k - j else k + 2 ^ 32 - j)"
proof -
  have u: "unat (of_nat k :: u32) = k" "unat (of_nat j :: u32) = j"
    using assms by (simp_all add: unat_of_nat take_bit_nat_eq_self_iff)
  have "a + of_nat k - (a + of_nat j) = of_nat k - (of_nat j :: u32)"
    by simp
  then show ?thesis
    using u assms by (simp add: unat_sub_if' word_le_nat_alt)
qed

lemma frame_byte:
  assumes "frame m m' (a + of_nat j) n" "j < 2 ^ 31" "k < 2 ^ 31" "n < 2 ^ 31" "k < j \<or> j + n \<le> k"
  shows "m' (a + of_nat k) = m (a + of_nat k)"
proof -
  have "n \<le> unat (a + of_nat k - (a + of_nat j))"
    unfolding unat_offset [OF assms(2,3)] using assms(2-) by auto
  then show ?thesis
    using assms(1) by (simp add: frame_def)
qed

lemma peek_bytes:
  "peek_u32 m (a + of_nat k) = ucast (m (a + of_nat k)) OR push_bit 8 (ucast (m (a + of_nat (k + 1))))
    OR push_bit 16 (ucast (m (a + of_nat (k + 2)))) OR push_bit 24 (ucast (m (a + of_nat (k + 3))))"
  by (simp add: peek_u32_def algebra_simps)

lemma frame_peek:
  assumes "frame m m' (a + of_nat j) n" "j < 2 ^ 31" "k + 4 \<le> 2 ^ 31" "n < 2 ^ 31" "k + 4 \<le> j \<or> j + n \<le> k"
  shows "peek_u32 m' (a + of_nat k) = peek_u32 m (a + of_nat k)"
proof -
  have "m' (a + of_nat (k + i)) = m (a + of_nat (k + i))" if "i < 4" for i
    using assms that by (intro frame_byte [OF assms(1)]) auto
  from this [of 0] this [of 1] this [of 2] this [of 3] show ?thesis
    unfolding peek_bytes by simp
qed

section \<open>Writing consecutive words\<close>

fun poke_words :: "mem \<Rightarrow> u32 \<Rightarrow> u32 list \<Rightarrow> mem" where
  "poke_words m a [] = m"
| "poke_words m a (w # ws) = poke_words (poke_u32 m a w) (a + 4) ws"

lemma frame_poke_words: "4 * length ws < 2 ^ 32 \<Longrightarrow> frame m (poke_words m a ws) a (4 * length ws)"
proof (induction ws arbitrary: m a)
  case (Cons w ws)
  have "frame (poke_u32 m a w) (poke_words m a (w # ws)) (a + of_nat 4) (4 * length ws)"
    using Cons by simp
  then have "frame (poke_u32 m a w) (poke_words m a (w # ws)) a (4 * length (w # ws))"
    using Cons.prems by (intro frame_shift [of _ _ a 4 "4 * length ws"]) auto
  then show ?case
    using frame_trans [OF frame_poke [of "4 * length (w # ws)" m a w]] by simp
qed (simp add: frame_def)

lemma poke_words_peek:
  assumes "i < length ws" "j + 4 * length ws < 2 ^ 20"
  shows "peek_u32 (poke_words m (a + of_nat j) ws) (a + of_nat (j + i * 4)) = ws ! i"
  using assms
proof (induction ws arbitrary: m j i)
  case (Cons w ws)
  let ?m = "poke_u32 m (a + of_nat j) w"
  have step: "poke_words m (a + of_nat j) (w # ws) = poke_words ?m (a + of_nat (j + 4)) ws"
    by (simp add: algebra_simps)
  show ?case
  proof (cases i)
    case 0
    have "frame ?m (poke_words ?m (a + of_nat (j + 4)) ws) (a + of_nat (j + 4)) (4 * length ws)"
      using Cons.prems by (intro frame_poke_words) simp
    then have "peek_u32 (poke_words ?m (a + of_nat (j + 4)) ws) (a + of_nat j) = peek_u32 ?m (a + of_nat j)"
      using Cons.prems by (intro frame_peek) auto
    then show ?thesis
      unfolding step using 0 by simp
  next
    case (Suc k)
    then show ?thesis
      unfolding step using Cons.IH [of k "j + 4" ?m] Cons.prems by (simp add: algebra_simps)
  qed
qed simp

lemma poke_words_at:
  assumes "j + 4 * length ws < 2 ^ 20"
  shows "frame m (poke_words m (b + of_nat j) ws) (b + of_nat j) (4 * length ws)"
    and "\<forall>i<length ws. peek_u32 (poke_words m (b + of_nat j) ws) (b + of_nat (j + i * 4)) = ws ! i"
  using assms by (auto intro!: frame_poke_words poke_words_peek simp del: of_nat_add of_nat_mult)

end
