(* ===== verification/Pstore.thy ===== *)
theory Pstore
  imports Memory_Frames
begin

text \<open>
  The program store of \<^verbatim>\<open>src/drivers/pstore.rs\<close>: named programs in a window of SRAM whose bounds
  are linker symbols, here the parameters \<open>base\<close> and \<open>ptop\<close>. Each byte of a name is written with
  a four-byte store, so that the stores of a slot overlap and their order matters; the model is
  on the byte memory for this reason.
\<close>

definition MAX_PROGRAMS :: nat where "MAX_PROGRAMS = 8"
definition NAME_MAX :: nat where "NAME_MAX = 16"
definition SLOT_WORDS :: nat where "SLOT_WORDS = 64"

datatype StoreError = NoStore | NotFound | StoreFull | TooLarge

definition slot_addr :: "u32 \<Rightarrow> u32 \<Rightarrow> nat \<Rightarrow> u32 option" where
  "slot_addr base ptop idx =
    (if base = 0 \<or> ptop = 0 \<or> ptop \<le> base then None
     else Some (base + of_nat (idx * (NAME_MAX + 1 + 4 + SLOT_WORDS * 4))))"

text \<open>The loop of \<open>save\<close> over the name, from the address of the next store.\<close>

fun poke_name :: "mem \<Rightarrow> u32 \<Rightarrow> string \<Rightarrow> mem" where
  "poke_name m a [] = m"
| "poke_name m a (b # bs) = poke_name (poke_u32 m a (of_char b)) (a + 1) bs"

definition save :: "u32 \<Rightarrow> u32 \<Rightarrow> mem \<Rightarrow> nat \<Rightarrow> string \<Rightarrow> u32 list \<Rightarrow> (StoreError + unit) \<times> mem" where
  "save base ptop m idx name words =
    (case slot_addr base ptop idx of
       None \<Rightarrow> (Inl NoStore, m)
     | Some addr \<Rightarrow>
         if length name > NAME_MAX \<or> length words > SLOT_WORDS then (Inl TooLarge, m)
         else
           (let m1 = poke_u32 m addr (of_nat (length name));
                m2 = poke_name m1 (addr + 4) name;
                m3 = poke_u32 m2 (addr + 4 + of_nat NAME_MAX) (of_nat (length words))
            in (Inr (), poke_words m3 (addr + 4 + of_nat NAME_MAX + 4) words)))"

text \<open>\<open>load\<close>: the result, the name buffer and the word buffer afterwards.\<close>

definition peek_name :: "mem \<Rightarrow> u32 \<Rightarrow> nat \<Rightarrow> string \<Rightarrow> string" where
  "peek_name m a n name_out =
    map (\<lambda>i. char_of (unat (ucast (peek_u32 m (a + of_nat i)) :: u8))) [0..<min n (length name_out)] @ drop n name_out"

definition peek_words :: "mem \<Rightarrow> u32 \<Rightarrow> nat \<Rightarrow> u32 list \<Rightarrow> u32 list" where
  "peek_words m a n words_out =
    map (\<lambda>i. peek_u32 m (a + of_nat (i * 4))) [0..<min n (length words_out)] @ drop n words_out"

definition load :: "u32 \<Rightarrow> u32 \<Rightarrow> mem \<Rightarrow> nat \<Rightarrow> string \<Rightarrow> u32 list
    \<Rightarrow> (StoreError + nat) \<times> string \<times> u32 list" where
  "load base ptop m idx name_out words_out =
    (case slot_addr base ptop idx of
       None \<Rightarrow> (Inl NoStore, name_out, words_out)
     | Some addr \<Rightarrow>
         (let name_len = unat (peek_u32 m addr)
          in if name_len = 0 \<or> name_len > NAME_MAX then (Inl NotFound, name_out, words_out)
             else
               (let name' = peek_name m (addr + 4) name_len name_out;
                    count = unat (peek_u32 m (addr + 4 + of_nat NAME_MAX))
                in if count > SLOT_WORDS \<or> count > length words_out then (Inl TooLarge, name', words_out)
                   else (Inr count, name', peek_words m (addr + 4 + of_nat NAME_MAX + 4) count words_out))))"

section \<open>What the loops write\<close>

lemma frame_poke_name: "length bs + 3 < 2 ^ 32 \<Longrightarrow> frame m (poke_name m a bs) a (length bs + 3)"
proof (induction bs arbitrary: m a)
  case (Cons b bs)
  have "frame (poke_u32 m a (of_char b)) (poke_name m a (b # bs)) (a + of_nat 1) (length bs + 3)"
    using Cons by simp
  then have "frame (poke_u32 m a (of_char b)) (poke_name m a (b # bs)) a (length (b # bs) + 3)"
    using Cons.prems by (intro frame_shift [of _ _ a 1 "length bs + 3"]) auto
  then show ?case
    using frame_trans [OF frame_poke [of "length (b # bs) + 3" m a "of_char b"]] by simp
qed (simp add: frame_def)

lemma poke_byte0: "poke_u32 m a v a = ucast v"
proof -
  have "a + 1 \<noteq> a" "a + 2 \<noteq> a" "a + 3 \<noteq> a"
    by simp_all
  then show ?thesis
    by (simp add: poke_u32_def)
qed

text \<open>After the overlapping stores, each byte of the name is where it belongs.\<close>

lemma poke_name_byte:
  assumes "i < length bs" "length bs \<le> 16"
  shows "poke_name m (a + of_nat j) bs (a + of_nat (j + i)) = (of_char (bs ! i) :: u8)"
  using assms
proof (induction bs arbitrary: m j i)
  case (Cons b bs)
  let ?m = "poke_u32 m (a + of_nat j) (of_char b)"
  have step: "poke_name m (a + of_nat j) (b # bs) = poke_name ?m (a + of_nat (j + 1)) bs"
    by (simp add: algebra_simps)
  show ?case
  proof (cases i)
    case 0
    have "frame ?m (poke_name ?m (a + of_nat j + of_nat 1) bs) (a + of_nat j + of_nat 1) (length bs + 3)"
      using Cons.prems by (intro frame_poke_name) simp
    from frame_byte [OF this, of 0]
    have "poke_name ?m (a + of_nat j + of_nat 1) bs (a + of_nat j + of_nat 0) = ?m (a + of_nat j + of_nat 0)"
      using Cons.prems by simp
    moreover have "(ucast (of_char b :: u32) :: u8) = of_char b"
      by (simp add: of_char_def)
    ultimately show ?thesis
      using 0 by (simp add: poke_byte0 algebra_simps)
  next
    case (Suc k)
    then show ?thesis
      unfolding step using Cons.IH [of k ?m "j + 1"] Cons.prems by simp
  qed
qed simp

section \<open>Slots\<close>

text \<open>The slot at offset \<open>s\<close> from \<open>b\<close> holds a program.\<close>

definition slot_holds :: "mem \<Rightarrow> u32 \<Rightarrow> nat \<Rightarrow> string \<Rightarrow> u32 list \<Rightarrow> bool" where
  "slot_holds m b s name words \<longleftrightarrow>
    peek_u32 m (b + of_nat s) = of_nat (length name)
    \<and> (\<forall>i<length name. m (b + of_nat (s + 4 + i)) = of_char (name ! i))
    \<and> peek_u32 m (b + of_nat (s + 20)) = of_nat (length words)
    \<and> (\<forall>i<length words. peek_u32 m (b + of_nat (s + 24 + i * 4)) = words ! i)"

lemma slot_holds_frame:
  assumes "slot_holds m b s name words" "frame m m' (b + of_nat t) n"
    "length name \<le> 16" "s + 24 + 4 * length words < 2 ^ 20" "t < 2 ^ 20" "n < 2 ^ 20"
    "s + 24 + 4 * length words \<le> t \<or> t + n \<le> s"
  shows "slot_holds m' b s name words"
proof -
  have p: "peek_u32 m' (b + of_nat k) = peek_u32 m (b + of_nat k)" if "s \<le> k" "k + 4 \<le> s + 24 + 4 * length words" for k
    using assms(4-) that by (intro frame_peek [OF assms(2)]) auto
  have "m' (b + of_nat k) = m (b + of_nat k)" if "s \<le> k" "k < s + 24" for k
    using assms(4-) that by (intro frame_byte [OF assms(2)]) auto
  then show ?thesis
    using assms(1,3) p unfolding slot_holds_def by (auto simp del: of_nat_add of_nat_mult)
qed

text \<open>What \<open>save\<close> leaves in memory, and which bytes it changes.\<close>

lemma save_holds:
  assumes "slot_addr base ptop idx = Some (base + of_nat s)" "length name \<le> 16" "length words \<le> 64" "s < 2 ^ 16"
  shows "fst (save base ptop m idx name words) = Inr ()"
    and "slot_holds (snd (save base ptop m idx name words)) base s name words"
    and "frame m (snd (save base ptop m idx name words)) (base + of_nat s) (24 + 4 * length words)"
proof -
  let ?b = "base"
  define m1 where "m1 = poke_u32 m (?b + of_nat s) (of_nat (length name))"
  define m2 where "m2 = poke_name m1 (?b + of_nat (s + 4)) name"
  define m3 where "m3 = poke_u32 m2 (?b + of_nat (s + 20)) (of_nat (length words))"
  define m4 where "m4 = poke_words m3 (?b + of_nat (s + 24)) words"
  have save: "save base ptop m idx name words = (Inr (), m4)"
    using assms by (simp add: save_def NAME_MAX_def SLOT_WORDS_def m1_def m2_def m3_def m4_def Let_def algebra_simps)
  have f1: "frame m m1 (?b + of_nat s) 4"
    unfolding m1_def by (rule frame_poke) simp
  have f2: "frame m1 m2 (?b + of_nat (s + 4)) (length name + 3)"
    unfolding m2_def using assms by (intro frame_poke_name) simp
  have f3: "frame m2 m3 (?b + of_nat (s + 20)) 4"
    unfolding m3_def by (rule frame_poke) simp
  have f4: "frame m3 m4 (?b + of_nat (s + 24)) (4 * length words)"
    and w4: "\<forall>i<length words. peek_u32 m4 (?b + of_nat (s + 24 + i * 4)) = words ! i"
    unfolding m4_def using poke_words_at [of "s + 24" words] assms by auto
  have lens: "peek_u32 m4 (?b + of_nat s) = of_nat (length name)"
    using frame_peek [OF f4, of s] frame_peek [OF f3, of s] frame_peek [OF f2, of s] assms
    by (simp add: m1_def)
  have count: "peek_u32 m4 (?b + of_nat (s + 20)) = of_nat (length words)"
    using frame_peek [OF f4, of "s + 20"] assms by (simp add: m3_def)
  have bytes: "m4 (?b + of_nat (s + 4 + i)) = of_char (name ! i)" if "i < length name" for i
    using frame_byte [OF f4, of "s + 4 + i"] frame_byte [OF f3, of "s + 4 + i"]
      poke_name_byte [of i name m1 ?b "s + 4"] that assms by (simp add: m2_def)
  show "fst (save base ptop m idx name words) = Inr ()"
    by (simp add: save)
  show "slot_holds (snd (save base ptop m idx name words)) base s name words"
    using lens count bytes w4 by (simp add: save slot_holds_def)
  let ?N = "24 + 4 * length words"
  have "frame m m1 (?b + of_nat s) ?N"
    using f1 frame_shift [of m m1 "?b + of_nat s" 0 4 ?N] assms(3) by simp
  moreover have "frame m1 m2 (?b + of_nat s) ?N"
    using f2 frame_shift [of m1 m2 "?b + of_nat s" 4 "length name + 3" ?N] assms(2,3) by (simp add: add.assoc)
  moreover have "frame m2 m3 (?b + of_nat s) ?N"
    using f3 frame_shift [of m2 m3 "?b + of_nat s" 20 4 ?N] assms(3) by (simp add: add.assoc)
  moreover have "frame m3 m4 (?b + of_nat s) ?N"
    using f4 frame_shift [of m3 m4 "?b + of_nat s" 24 "4 * length words" ?N] assms(3) by (simp add: add.assoc)
  ultimately show "frame m (snd (save base ptop m idx name words)) (base + of_nat s) (24 + 4 * length words)"
    unfolding save snd_conv by (meson frame_trans)
qed

lemma peek_low_byte: "(ucast (peek_u32 m a) :: u8) = m a"
  by (rule bit_word_eqI) (auto simp: peek_u32_def bit_simps)

lemma char_of_byte: "char_of (unat (of_char c :: u8)) = c"
proof -
  have "unat (of_char c :: u8) = take_bit 8 (of_char c)"
    unfolding of_nat_of_char [symmetric, where 'a = "8 word"] by (simp add: unat_of_nat take_bit_eq_mod)
  then show ?thesis
    by (simp add: take_bit_eq_mod)
qed

lemma load_holds:
  assumes "slot_addr base ptop idx = Some (base + of_nat s)" "slot_holds m base s name words"
    "name \<noteq> []" "length name \<le> 16" "length words \<le> 64" "length name \<le> length name_out" "length words \<le> length words_out"
  shows "load base ptop m idx name_out words_out =
    (Inr (length words), name @ drop (length name) name_out, words @ drop (length words) words_out)"
proof -
  have u: "unat (of_nat (length name) :: u32) = length name" "unat (of_nat (length words) :: u32) = length words"
    using assms(4,5) by (simp_all add: unat_of_nat take_bit_nat_eq_self_iff)
  have off: "base + of_nat s + 4 + of_nat i = base + of_nat (s + 4 + i)"
    "base + of_nat s + 4 + 16 = base + of_nat (s + 20)"
    "base + of_nat s + 4 + 16 + 4 = base + of_nat (s + 24)"
    "base + of_nat (s + 24) + of_nat (i * 4) = base + of_nat (s + 24 + i * 4)" for i
    by (simp_all add: algebra_simps)
  have "peek_name m (base + of_nat s + 4) (length name) name_out = name @ drop (length name) name_out"
    using assms(2,6) by (auto simp: peek_name_def slot_holds_def peek_low_byte char_of_byte off(1) intro!: nth_equalityI simp del: of_nat_add of_nat_mult)
  moreover have "peek_words m (base + of_nat s + 4 + 16 + 4) (length words) words_out = words @ drop (length words) words_out"
    unfolding peek_words_def off(3) off(4)
    using assms(2,7) by (auto simp: slot_holds_def intro!: nth_equalityI simp del: of_nat_add of_nat_mult)
  ultimately show ?thesis
    using assms u by (simp add: load_def slot_holds_def NAME_MAX_def SLOT_WORDS_def off(2) Let_def)
qed

text \<open>Single bytes of a word in memory.\<close>

lemma peek_high_byte: "m (b + of_nat (s + 3)) = ucast (drop_bit 24 (peek_u32 m (b + of_nat s)))"
  unfolding peek_bytes by (rule bit_word_eqI) (auto simp: bit_simps simp del: of_nat_add dest: bit_word_bound)

lemma drop_bit_small: "unat w < 2 ^ n \<Longrightarrow> drop_bit n w = 0" for w :: u32
proof -
  assume "unat w < 2 ^ n"
  then have "take_bit n w = w"
    by (simp add: word_unat_eq_iff unsigned_take_bit_eq take_bit_nat_eq_self_iff)
  then show ?thesis
    by (metis drop_bit_take_bit diff_self_eq_0 take_bit_0)
qed

text \<open>The word one byte further on, if its last byte is 0.\<close>

lemma drop_byte:
  fixes b0 b1 b2 b3 :: u8
  shows "drop_bit 8 (ucast b0 OR push_bit 8 (ucast b1) OR push_bit 16 (ucast b2) OR push_bit 24 (ucast b3) :: u32)
    = ucast b1 OR push_bit 8 (ucast b2) OR push_bit 16 (ucast b3)"
proof -
  have high: "\<not> bit b n" if "8 \<le> n" for b :: u8 and n
    using that bit_word_bound [of b n] by auto
  show ?thesis
    unfolding word_bits_eq_iff by (simp add: bit_simps; simp add: high numeral_eq_Suc All_less_Suc)
qed

lemma peek_shifted:
  assumes "peek_u32 m (b + of_nat s) = w" "m (b + of_nat (s + 4)) = 0"
  shows "unat (peek_u32 m (b + of_nat (s + 1))) = unat w div 256"
proof -
  have "s + 1 + 3 = s + 4" "s + 1 + 2 = s + 3" "s + 1 + 1 = s + 2"
    by simp_all
  then have "peek_u32 m (b + of_nat (s + 1)) = drop_bit 8 w"
    unfolding assms(1) [symmetric] peek_bytes [of m b s] peek_bytes [of m b "s + 1"] drop_byte by (simp only: assms(2)) simp
  then have "unat (peek_u32 m (b + of_nat (s + 1))) = drop_bit 8 (unat w)"
    using take_bit_nat_eq_self [OF unat_less_u32 [of w]] by (simp add: unsigned_drop_bit_eq)
  then show ?thesis
    by (simp add: drop_bit_eq_div)
qed

text \<open>The window exists.\<close>

definition has_store :: "u32 \<Rightarrow> u32 \<Rightarrow> bool" where
  "has_store base ptop \<longleftrightarrow> base \<noteq> 0 \<and> base < ptop"

lemma slot_addr_store: "has_store base ptop \<Longrightarrow> slot_addr base ptop i = Some (base + of_nat (i * 277))"
  by (auto simp: has_store_def slot_addr_def NAME_MAX_def SLOT_WORDS_def)

section \<open>Correctness of the store\<close>

text \<open>C32. Saving and loading a program. A program with a name of 1 to 16 bytes and at most 64 words
  that is saved in a slot is loaded from it unchanged, although the stores of the name overlap
  each other and the length field. Programs of at most 63 words in different slots do not
  disturb each other.\<close>

theorem store_roundtrip:
  assumes "has_store base ptop" "i < 8" "j < 8" "i \<noteq> j"
    and "name \<noteq> []" "length name \<le> 16" "length words \<le> 64"
    and "name' \<noteq> []" "length name' \<le> 16" "length words' \<le> 63"
    and "length name \<le> length name_out" "length words \<le> length words_out"
  shows "load base ptop (snd (save base ptop m i name words)) i name_out words_out =
      (Inr (length words), name @ drop (length name) name_out, words @ drop (length words) words_out)
    \<and> (length words \<le> 63 \<longrightarrow>
        load base ptop (snd (save base ptop (snd (save base ptop m i name words)) j name' words')) i name_out words_out =
        (Inr (length words), name @ drop (length name) name_out, words @ drop (length words) words_out))"
proof -
  note slot = slot_addr_store [OF assms(1)]
  let ?m1 = "snd (save base ptop m i name words)"
  let ?m2 = "snd (save base ptop ?m1 j name' words')"
  have h: "slot_holds ?m1 base (i * 277) name words"
    using assms by (intro save_holds [OF slot]) auto
  have "slot_holds ?m2 base (i * 277) name words" if "length words \<le> 63"
  proof (rule slot_holds_frame [OF h])
    show "frame ?m1 ?m2 (base + of_nat (j * 277)) (24 + 4 * length words')"
      using assms by (intro save_holds [OF slot]) auto
    have "i * 277 + 277 \<le> j * 277 \<or> j * 277 + 277 \<le> i * 277"
      using assms(4) by linarith
    then show "i * 277 + 24 + 4 * length words \<le> j * 277 \<or> j * 277 + (24 + 4 * length words') \<le> i * 277"
      using that assms(10) by linarith
  qed (use assms in auto)
  then show ?thesis
    using load_holds [OF slot h assms(5-7,11,12)] load_holds [OF slot _ assms(5-7,11,12)] by blast
qed

theorem store_roundtrip_witness:
  "fst (load 0x2001F000 0x20020000
      (snd (save 0x2001F000 0x20020000 (snd (save 0x2001F000 0x20020000 (\<lambda>a. 0) 0 ''blink'' [7, 9])) 1 ''x'' [1])) 0
      (replicate 16 CHR 0x00) (replicate 64 0)) = Inr 2"
  using store_roundtrip [of "0x2001F000" "0x20020000" 0 1 "''blink''" "[7, 9]" "''x''" "[1]"
      "replicate 16 CHR 0x00" "replicate 64 0" "\<lambda>a. 0"]
  by (simp add: has_store_def)

text \<open>A full slot destroys its neighbour. The slots are 277 bytes apart, but a program of 64 words
  takes 280 bytes: its last three bytes replace the low bytes of the name length of the next
  slot, and a program that was saved there is no longer found, unless those bytes happen to be
  a length from 1 to 16.\<close>

theorem full_slot_destroys_next:
  assumes "has_store base ptop" "i < 7"
    and "name \<noteq> []" "length name \<le> 16" "length words \<le> 64"
    and "name' \<noteq> []" "length name' \<le> 16" "length words' = 64" "last words' < 0x100 \<or> last words' \<ge> 0x1100"
  shows "load base ptop (snd (save base ptop (snd (save base ptop m (i + 1) name words)) i name' words')) (i + 1) name_out words_out
    = (Inl NotFound, name_out, words_out)"
proof -
  note slot = slot_addr_store [OF assms(1)]
  let ?s = "i * 277 + 277"
  let ?m1 = "snd (save base ptop m (i + 1) name words)"
  let ?m2 = "snd (save base ptop ?m1 i name' words')"
  have slot': "slot_addr base ptop (i + 1) = Some (base + of_nat ?s)"
    using slot [of "i + 1"] by (simp add: algebra_simps)
  have h1: "slot_holds ?m1 base ?s name words"
    using assms by (intro save_holds [OF slot']) auto
  have h2: "slot_holds ?m2 base (i * 277) name' words'"
    by (rule save_holds(2) [OF slot]) (use assms in auto)
  have f2: "frame ?m1 ?m2 (base + of_nat (i * 277)) (24 + 4 * length words')"
    by (rule save_holds(3) [OF slot]) (use assms in auto)
  have "\<forall>k<64. peek_u32 ?m2 (base + of_nat (i * 277 + 24 + k * 4)) = words' ! k"
    using h2 assms(8) by (simp add: slot_holds_def del: of_nat_add of_nat_mult)
  moreover have "(63 :: nat) < 64"
    by simp
  ultimately have "peek_u32 ?m2 (base + of_nat (i * 277 + 24 + 63 * 4)) = words' ! 63"
    by blast
  moreover have "words' ! 63 = last words'"
    using assms(8) last_conv_nth [of words'] by force
  moreover have "i * 277 + 24 + 63 * 4 = i * 277 + 276"
    by simp
  ultimately have w: "peek_u32 ?m2 (base + of_nat (i * 277 + 276)) = last words'"
    by metis
  have top: "?m2 (base + of_nat (i * 277 + 280)) = ?m1 (base + of_nat (i * 277 + 280))"
    using assms(2,8) by (intro frame_byte [OF f2]) auto
  have "peek_u32 ?m1 (base + of_nat ?s) = of_nat (length name)"
    using h1 by (simp add: slot_holds_def)
  then have "?m1 (base + of_nat (?s + 3)) = ucast (drop_bit 24 (of_nat (length name) :: u32))"
    using peek_high_byte [of ?m1 base ?s] by simp
  then have hi: "?m2 (base + of_nat (?s + 3)) = 0"
    using top assms(4) drop_bit_small [of "of_nat (length name)" 24] by (simp add: add.assoc unat_of_nat take_bit_nat_eq_self_iff)
  have "unat (peek_u32 ?m2 (base + of_nat ?s)) = unat (last words') div 256"
  proof -
    have off: "i * 277 + 276 + 4 = ?s + 3" "i * 277 + 276 + 1 = ?s"
      by simp_all
    show ?thesis
      using peek_shifted [OF w] hi unfolding off by blast
  qed
  then have "unat (peek_u32 ?m2 (base + of_nat ?s)) = 0 \<or> unat (peek_u32 ?m2 (base + of_nat ?s)) > 16"
    using assms(9) by (auto simp: word_less_nat_alt word_le_nat_alt)
  then show ?thesis
    unfolding load_def slot' option.case Let_def NAME_MAX_def by auto
qed

theorem full_slot_destroys_next_witness:
  "load 0x2001F000 0x20020000 (snd (save 0x2001F000 0x20020000 (snd (save 0x2001F000 0x20020000 (\<lambda>a. 0) 1 ''blink'' [7]))
      0 ''x'' (replicate 64 0x08000121))) 1 (replicate 16 CHR 0x00) (replicate 64 0)
    = (Inl NotFound, replicate 16 CHR 0x00, replicate 64 0)"
  using full_slot_destroys_next [of "0x2001F000" "0x20020000" 0 "''blink''" "[7]" "''x''" "replicate 64 0x08000121"
      "\<lambda>a. 0" "replicate 16 CHR 0x00" "replicate 64 0"]
  by (simp add: has_store_def)

end
