(* ===== verification/Multitask.thy ===== *)
theory Multitask
  imports Memory_Frames
begin

text \<open>
  Preemptive multitasking on ARM, \<^verbatim>\<open>src/kernel/multitask.rs\<close>: the task table, the PendSV handler in
  assembly, and the functions that create tasks.

  The handler is modelled with the registers r4 to r11, which it has to save and restore itself;
  r0 to r3 and r12 are stacked and restored by the exception hardware, so that its use of them has
  no effect on the tasks. The table is a list of records (the offsets 0, 8 and 12 of the assembly
  are the fields \<open>sp\<close>, \<open>state\<close> and \<open>counter\<close> of the \<open>repr(C)\<close> structure, 16 bytes each). Stack tops and
  the addresses of the task bodies come from the linker and are parameters.
\<close>

section \<open>Task table\<close>

definition NUM_TASKS :: nat where "NUM_TASKS = 4"

datatype TaskState = TDead | TReady | TRunning

fun task_state_num :: "TaskState \<Rightarrow> u32" where
  "task_state_num TDead = 0"
| "task_state_num TReady = 1"
| "task_state_num TRunning = 2"

record Tcb =
  tcb_sp :: u32
  tcb_pc :: u32
  tcb_state :: u32
  tcb_counter :: u32

definition tcb_dead :: Tcb where
  "tcb_dead = \<lparr>tcb_sp = 0, tcb_pc = 0, tcb_state = 0, tcb_counter = 0\<rparr>"

record Machine =
  rg :: "nat \<Rightarrow> u32"
  psp :: u32
  mmem :: mem
  tcbs :: "Tcb list"
  cur :: nat

definition TCBS :: "Tcb list" where
  "TCBS = replicate (NUM_TASKS + 1) tcb_dead"

section \<open>PendSV handler\<close>

text \<open>Labels 8 and 9: the search, with r6 as the index. Every entry that is examined overwrites r4
  and r5.\<close>

function pendsv_scan :: "nat \<Rightarrow> Machine \<Rightarrow> nat option \<times> Machine" where
  "pendsv_scan r6 s =
    (if r6 < 5 then
       (let s0 = s\<lparr>rg := (rg s)(6 := of_nat r6)\<rparr>
        in if r6 = cur s then pendsv_scan (r6 + 1) s0
           else
             (let st = tcb_state (tcbs s ! r6); s1 = s0\<lparr>rg := (rg s0)(4 := 16, 5 := st)\<rparr>
              in if st = 1 then (Some r6, s1) else pendsv_scan (r6 + 1) s1))
     else (None, s\<lparr>rg := (rg s)(6 := of_nat r6)\<rparr>))"
  by pat_completeness auto
termination
  by (relation "measure (\<lambda>(r6, s). 5 - r6)") auto

declare pendsv_scan.simps [simp del]

text \<open>\<open>stmdb r0!, {r4-r11}\<close> and \<open>ldmia r0!, {r4-r11}\<close>.\<close>

definition stmdb :: "mem \<Rightarrow> u32 \<Rightarrow> (nat \<Rightarrow> u32) \<Rightarrow> u32 \<times> mem" where
  "stmdb m r0 r = (r0 - 32, poke_words m (r0 - 32) (map r [4..<12]))"

definition ldmia :: "mem \<Rightarrow> u32 \<Rightarrow> (nat \<Rightarrow> u32) \<Rightarrow> u32 \<times> (nat \<Rightarrow> u32)" where
  "ldmia m r0 r = (r0 + 32, \<lambda>k. if 4 \<le> k \<and> k < 12 then peek_u32 m (r0 + of_nat ((k - 4) * 4)) else r k)"

text \<open>Label 1: save the current task, load task \<open>n\<close>.\<close>

definition pendsv_switch :: "nat \<Rightarrow> Machine \<Rightarrow> Machine" where
  "pendsv_switch n s =
    (let (r0, m) = stmdb (mmem s) (psp s) (rg s);
         old = (tcbs s ! cur s)\<lparr>tcb_sp := r0, tcb_state := 1\<rparr>;
         ts = (tcbs s)[cur s := old];
         (sp', r) = ldmia m (tcb_sp (ts ! n)) (rg s);
         count = tcb_counter (ts ! n) + 1;
         new = (ts ! n)\<lparr>tcb_state := 2, tcb_counter := count\<rparr>
     in \<lparr>rg = r(5 := 2, 6 := count), psp = sp', mmem = m, tcbs = ts[n := new], cur = n\<rparr>)"

definition PendSV_Handler :: "Machine \<Rightarrow> Machine" where
  "PendSV_Handler s =
    (case pendsv_scan 0 s of
       (None, s') \<Rightarrow> s'
     | (Some n, s') \<Rightarrow> pendsv_switch n s')"

section \<open>Task creation\<close>

definition task_stack_top :: "(nat \<Rightarrow> u32) \<Rightarrow> nat \<Rightarrow> u32" where
  "task_stack_top stk idx = (if idx \<in> {1, 2, 3} then stk idx else stk 1)"

text \<open>The frame that the exception return unstacks, and the table entry.\<close>

definition init_task :: "u32 \<Rightarrow> u32 \<Rightarrow> nat \<Rightarrow> Machine \<Rightarrow> Machine" where
  "init_task sp body_addr idx s =
    (let m1 = poke_u32 (mmem s) (sp - 4) 0x01000000;
         m2 = poke_u32 m1 (sp - 8) (body_addr OR 1);
         m3 = fold (\<lambda>off m. poke_u32 m (sp - off) 0) [12, 16, 20, 24, 28, 32] m2;
         t = (tcbs s ! idx)\<lparr>tcb_sp := sp - 64, tcb_pc := body_addr, tcb_state := task_state_num TReady\<rparr>
     in s\<lparr>mmem := m3, tcbs := (tcbs s)[idx := t]\<rparr>)"

definition spawn_counter_task :: "(nat \<Rightarrow> u32) \<Rightarrow> (nat \<Rightarrow> u32) \<Rightarrow> nat \<Rightarrow> Machine \<Rightarrow> bool \<times> Machine" where
  "spawn_counter_task stk bodies task_idx s =
    (if task_idx \<ge> NUM_TASKS - 1 then (False, s)
     else
       (let stack_top = task_stack_top stk (task_idx + 1);
            body_addr = (if task_idx = 0 then bodies 1 else bodies 2)
        in (True, init_task stack_top body_addr (task_idx + 1) s)))"

definition spawn_jit_task :: "(nat \<Rightarrow> u32) \<Rightarrow> (nat \<Rightarrow> u32) \<Rightarrow> nat \<Rightarrow> Machine \<Rightarrow> bool \<times> Machine" where
  "spawn_jit_task stk bodies slot_idx s =
    (if slot_idx \<ge> NUM_TASKS - 1 then (False, s)
     else
       (let stack_top = task_stack_top stk (slot_idx + 1);
            body_addr = (if slot_idx = 0 then bodies 1 else bodies 2)
        in (True, init_task stack_top body_addr (slot_idx + 1) s)))"

definition jit_slot_base_addr :: "nat \<Rightarrow> u32" where
  "jit_slot_base_addr slot_idx =
    (if slot_idx = 0 then 0x20002000 else if slot_idx = 1 then 0x20002400
     else if slot_idx = 2 then 0x20002800 else 0x20002C00)"

definition emit_fn_into_slot :: "nat \<Rightarrow> u32 list \<Rightarrow> mem \<Rightarrow> (unit + unit) \<times> mem" where
  "emit_fn_into_slot slot_idx words m =
    (if slot_idx \<ge> NUM_TASKS - 1 \<or> length words > 256 then (Inl (), m)
     else
       (let base = [0x20002000, 0x20002400, 0x20002800, 0x20002C00] ! slot_idx
        in (Inr (), poke_words m base words)))"

text \<open>Entries 14 and 15 of the vector table at \<open>vt\<close>, and a system control register.\<close>

definition install_task_handlers :: "u32 \<Rightarrow> u32 \<Rightarrow> u32 \<Rightarrow> mem \<Rightarrow> mem" where
  "install_task_handlers vt pendsv systick m =
    (let m1 = poke_u32 m (vt + 4 * 14) pendsv;
         m2 = poke_u32 m1 (vt + 4 * 15) systick
     in poke_u32 m2 (0xE000ED20 + 12) 0xFF000000)"

definition sys_tick_pend :: "mem \<Rightarrow> mem" where
  "sys_tick_pend m = poke_u32 m 0xE000ED04 (push_bit 28 1)"


section \<open>The search and the switch\<close>

lemma pendsv_scan_find: "fst (pendsv_scan i s) = find (\<lambda>k. k \<noteq> cur s \<and> tcb_state (tcbs s ! k) = 1) [i..<5]"
  by (induction i s rule: pendsv_scan.induct) (subst pendsv_scan.simps, simp add: Let_def upt_conv_Cons)

lemma pendsv_scan_frame:
  "psp (snd (pendsv_scan i s)) = psp s \<and> mmem (snd (pendsv_scan i s)) = mmem s
   \<and> tcbs (snd (pendsv_scan i s)) = tcbs s \<and> cur (snd (pendsv_scan i s)) = cur s
   \<and> (\<forall>k. k \<notin> {4, 5, 6} \<longrightarrow> rg (snd (pendsv_scan i s)) k = rg s k)"
  by (induction i s rule: pendsv_scan.induct) (subst (1 2 3 4 5) pendsv_scan.simps, simp add: Let_def)

lemma pendsv_scan_regs:
  "pendsv_scan i s = (Some n, s') \<Longrightarrow> rg s' 4 = 16 \<and> rg s' 5 = 1 \<and> rg s' 6 = of_nat n"
proof (induction i s rule: pendsv_scan.induct)
  case (1 i s)
  then show ?case
    by (subst (asm) (3) pendsv_scan.simps) (auto simp: Let_def split: if_splits)
qed

text \<open>The handler, by the task it selects: the first index other than the current one that is
  ready.\<close>

definition next_task :: "Machine \<Rightarrow> nat option" where
  "next_task s = find (\<lambda>k. k \<noteq> cur s \<and> tcb_state (tcbs s ! k) = 1) [0..<5]"

lemma next_task_Some:
  "next_task s = Some n \<longleftrightarrow> n < 5 \<and> n \<noteq> cur s \<and> tcb_state (tcbs s ! n) = 1
    \<and> (\<forall>k<n. k \<noteq> cur s \<longrightarrow> tcb_state (tcbs s ! k) \<noteq> 1)"
  by (auto simp: next_task_def find_Some_iff intro!: exI [of _ n])

lemma next_task_None: "next_task s = None \<longleftrightarrow> (\<forall>k<5. k \<noteq> cur s \<longrightarrow> tcb_state (tcbs s ! k) \<noteq> 1)"
  by (auto simp: next_task_def find_None_iff)

lemma PendSV_none:
  assumes "next_task s = None"
  shows "tcbs (PendSV_Handler s) = tcbs s" "cur (PendSV_Handler s) = cur s"
    "psp (PendSV_Handler s) = psp s" "mmem (PendSV_Handler s) = mmem s"
  using assms pendsv_scan_find [of 0 s] pendsv_scan_frame [of 0 s]
  by (auto simp: PendSV_Handler_def next_task_def split: prod.splits option.splits)

text \<open>What the switch leaves, in terms of the state before the handler: the eight words it
  stores, the table, and the registers it loads.\<close>

definition saved_words :: "Machine \<Rightarrow> nat \<Rightarrow> u32 list" where
  "saved_words s n = [16, 1, of_nat n, rg s 7, rg s 8, rg s 9, rg s 10, rg s 11]"

lemma PendSV_some:
  assumes "next_task s = Some n" "length (tcbs s) = 5" "cur s < 5"
  defines "m \<equiv> poke_words (mmem s) (psp s - 32) (saved_words s n)"
  shows "cur (PendSV_Handler s) = n" "mmem (PendSV_Handler s) = m"
    "psp (PendSV_Handler s) = tcb_sp (tcbs s ! n) + 32"
    "tcbs (PendSV_Handler s) = (tcbs s)[cur s := (tcbs s ! cur s)\<lparr>tcb_sp := psp s - 32, tcb_state := 1\<rparr>,
       n := (tcbs s ! n)\<lparr>tcb_state := 2, tcb_counter := tcb_counter (tcbs s ! n) + 1\<rparr>]"
    "rg (PendSV_Handler s) 4 = peek_u32 m (tcb_sp (tcbs s ! n))"
    "rg (PendSV_Handler s) 5 = 2" "rg (PendSV_Handler s) 6 = tcb_counter (tcbs s ! n) + 1"
    "7 \<le> k \<Longrightarrow> k < 12 \<Longrightarrow> rg (PendSV_Handler s) k = peek_u32 m (tcb_sp (tcbs s ! n) + of_nat ((k - 4) * 4))"
proof -
  obtain s' where sc: "pendsv_scan 0 s = (Some n, s')"
    using assms(1) pendsv_scan_find [of 0 s] by (cases "pendsv_scan 0 s") (simp add: next_task_def)
  have fr: "psp s' = psp s" "mmem s' = mmem s" "tcbs s' = tcbs s" "cur s' = cur s"
    "\<forall>k. k \<notin> {4, 5, 6} \<longrightarrow> rg s' k = rg s k"
    using pendsv_scan_frame [of 0 s] sc by auto
  have "map (rg s') [4..<12] = saved_words s n"
    using pendsv_scan_regs [OF sc] fr(5) by (simp add: upt_conv_Cons saved_words_def)
  moreover have "cur s \<noteq> n"
    using assms(1) by (auto simp: next_task_Some)
  ultimately have h: "PendSV_Handler s = pendsv_switch n s'"
    "map (rg s') [4..<12] = saved_words s n" "cur s \<noteq> n"
    by (simp_all add: PendSV_Handler_def sc)
  note defs = pendsv_switch_def stmdb_def ldmia_def Let_def h fr m_def
  show "cur (PendSV_Handler s) = n" "mmem (PendSV_Handler s) = m"
    "psp (PendSV_Handler s) = tcb_sp (tcbs s ! n) + 32"
    "tcbs (PendSV_Handler s) = (tcbs s)[cur s := (tcbs s ! cur s)\<lparr>tcb_sp := psp s - 32, tcb_state := 1\<rparr>,
       n := (tcbs s ! n)\<lparr>tcb_state := 2, tcb_counter := tcb_counter (tcbs s ! n) + 1\<rparr>]"
    "rg (PendSV_Handler s) 4 = peek_u32 m (tcb_sp (tcbs s ! n))"
    "rg (PendSV_Handler s) 5 = 2" "rg (PendSV_Handler s) 6 = tcb_counter (tcbs s ! n) + 1"
    using h(3) by (simp_all add: defs del: upt_rec_numeral)
  show "rg (PendSV_Handler s) k = peek_u32 m (tcb_sp (tcbs s ! n) + of_nat ((k - 4) * 4))"
    if "7 \<le> k" "k < 12"
    using h(3) that by (simp add: defs del: upt_rec_numeral of_nat_mult)
qed

section \<open>Scheduling\<close>

definition tasks_ok :: "Machine \<Rightarrow> bool" where
  "tasks_ok s \<longleftrightarrow> length (tcbs s) = 5 \<and> cur s < 5
    \<and> (\<forall>k<5. k \<noteq> cur s \<longrightarrow> tcb_state (tcbs s ! k) \<in> {0, 1})"

text \<open>What the code of a running task may do between two ticks: anything to registers and memory, but
  the table of tasks is changed only in the counters.\<close>

definition task_code :: "(Machine \<Rightarrow> Machine) \<Rightarrow> bool" where
  "task_code f \<longleftrightarrow> (\<forall>s. cur (f s) = cur s \<and> map tcb_state (tcbs (f s)) = map tcb_state (tcbs s))"

lemma task_code_keeps:
  assumes "task_code f"
  shows "cur (f s) = cur s" "length (tcbs (f s)) = length (tcbs s)"
    "k < length (tcbs s) \<Longrightarrow> tcb_state (tcbs (f s) ! k) = tcb_state (tcbs s ! k)"
proof -
  have m: "cur (f s) = cur s" "map tcb_state (tcbs (f s)) = map tcb_state (tcbs s)"
    using assms by (auto simp: task_code_def)
  then show "cur (f s) = cur s" and len: "length (tcbs (f s)) = length (tcbs s)"
    by (auto dest: map_eq_imp_length_eq)
  show "tcb_state (tcbs (f s) ! k) = tcb_state (tcbs s ! k)" if "k < length (tcbs s)"
    using m(2) that len by (metis nth_map)
qed

inductive task_step :: "(nat \<Rightarrow> u32) \<Rightarrow> (nat \<Rightarrow> u32) \<Rightarrow> Machine \<Rightarrow> Machine \<Rightarrow> bool"
  for stk bodies where
  run: "task_code f \<Longrightarrow> task_step stk bodies s (f s)"
| tick: "task_step stk bodies s (PendSV_Handler s)"
| spawn: "spawn_counter_task stk bodies i s = (r, s') \<Longrightarrow> task_step stk bodies s s'"
| spawn_jit: "spawn_jit_task stk bodies i s = (r, s') \<Longrightarrow> task_step stk bodies s s'"

lemma PendSV_tasks_ok: "tasks_ok s \<Longrightarrow> tasks_ok (PendSV_Handler s)"
proof (cases "next_task s")
  case None
  then show "tasks_ok s \<Longrightarrow> ?thesis"
    using PendSV_none [OF None] by (simp add: tasks_ok_def)
next
  case (Some n)
  then show "tasks_ok s \<Longrightarrow> ?thesis"
    using PendSV_some(1,4) [OF Some] by (auto simp: tasks_ok_def next_task_Some nth_list_update)
qed

lemma init_task_tasks_ok: "tasks_ok s \<Longrightarrow> tasks_ok (init_task sp b i s)"
  by (cases "i < length (tcbs s)") (auto simp: tasks_ok_def init_task_def Let_def nth_list_update list_update_beyond)

lemma task_step_ok: "task_step stk bodies s s' \<Longrightarrow> tasks_ok s \<Longrightarrow> tasks_ok s'"
proof (induction rule: task_step.induct)
  case (run f s)
  then show ?case
    using task_code_keeps [OF run(1), where s = s] by (auto simp: tasks_ok_def)
qed (auto simp: spawn_counter_task_def spawn_jit_task_def Let_def init_task_tasks_ok PendSV_tasks_ok
    split: if_splits)

text \<open>C35. At most one task is ever marked as running, and it is the current one: in every state that
  task code, PendSV exceptions and spawned tasks lead to from the boot state, the table has its five
  entries, the current index is one of them, and every other task is dead or ready. A PendSV then
  runs the first ready task other than the current one, and leaves the table alone exactly if there
  is none.\<close>

theorem single_running_task:
  assumes "(task_step stk bodies)\<^sup>*\<^sup>* s0 s" "tcbs s0 = TCBS" "cur s0 = 0"
  shows "length (tcbs s) = NUM_TASKS + 1 \<and> cur s \<le> NUM_TASKS
    \<and> (\<forall>k\<le>NUM_TASKS. k \<noteq> cur s \<longrightarrow> tcb_state (tcbs s ! k) \<in> {task_state_num TDead, task_state_num TReady})
    \<and> (case next_task s of
         None \<Rightarrow> tcbs (PendSV_Handler s) = tcbs s \<and> cur (PendSV_Handler s) = cur s
       | Some n \<Rightarrow> cur (PendSV_Handler s) = n
           \<and> tcb_state (tcbs (PendSV_Handler s) ! n) = task_state_num TRunning
           \<and> tcb_state (tcbs (PendSV_Handler s) ! cur s) = task_state_num TReady)"
proof -
  have "tasks_ok s0"
    using assms(2,3) by (simp add: tasks_ok_def TCBS_def NUM_TASKS_def tcb_dead_def)
  with assms(1) have ok: "tasks_ok s"
    by (induction rule: rtranclp_induct) (auto intro: task_step_ok)
  have "case next_task s of
         None \<Rightarrow> tcbs (PendSV_Handler s) = tcbs s \<and> cur (PendSV_Handler s) = cur s
       | Some n \<Rightarrow> cur (PendSV_Handler s) = n
           \<and> tcb_state (tcbs (PendSV_Handler s) ! n) = task_state_num TRunning
           \<and> tcb_state (tcbs (PendSV_Handler s) ! cur s) = task_state_num TReady"
  proof (cases "next_task s")
    case None
    then show ?thesis
      by (simp add: PendSV_none)
  next
    case (Some n)
    then show ?thesis
      using ok PendSV_some(1,4) [OF Some] next_task_Some [of s n] by (simp add: tasks_ok_def nth_list_update)
  qed
  then show ?thesis
    using ok unfolding tasks_ok_def NUM_TASKS_def by (auto simp: less_Suc_eq_le)
qed

text \<open>The ticks of the timer, with the code of the running task before each of them.\<close>

definition ticks :: "(Machine \<Rightarrow> Machine) list \<Rightarrow> Machine \<Rightarrow> Machine" where
  "ticks fs s = foldl (\<lambda>t f. PendSV_Handler (f t)) s fs"

definition pair_alternates :: "nat \<Rightarrow> Machine \<Rightarrow> Machine \<Rightarrow> bool" where
  "pair_alternates n s t \<longleftrightarrow> length (tcbs t) = 5 \<and> cur t = n mod 2
    \<and> tcb_state (tcbs t ! (1 - n mod 2)) = 1
    \<and> (\<forall>k\<in>{2, 3, 4}. tcb_state (tcbs t ! k) = tcb_state (tcbs s ! k))"

lemma pair_tick:
  assumes "pair_alternates n s t" "task_code f"
  shows "pair_alternates (Suc n) s (PendSV_Handler (f t))"
proof -
  let ?t = "f t"
  have t: "length (tcbs ?t) = 5" "cur ?t = n mod 2" "tcb_state (tcbs ?t ! (1 - n mod 2)) = 1"
    "\<forall>k\<in>{2, 3, 4}. tcb_state (tcbs ?t ! k) = tcb_state (tcbs s ! k)"
    using assms(1) task_code_keeps [OF assms(2), where s = t] by (auto simp: pair_alternates_def)
  have n: "next_task ?t = Some (1 - n mod 2)"
    using t by (cases "n mod 2 = 0") (auto simp: next_task_Some less_Suc_eq)
  have "Suc n mod 2 = 1 - n mod 2"
    by (simp add: mod_Suc)
  moreover have "cur ?t < 5"
    using t(2) mod_less_divisor [of 2 n] by simp
  moreover have "n mod 2 = 0 \<or> n mod 2 = 1"
    by auto
  ultimately show ?thesis
    using t PendSV_some(1,4) [OF n t(1)] by (elim disjE) (simp_all add: pair_alternates_def)
qed

lemma ticks_pair:
  assumes "pair_alternates n s t" "\<forall>f\<in>set fs. task_code f"
  shows "pair_alternates (n + length fs) s (ticks fs t)"
  using assms
proof (induction fs arbitrary: n t)
  case (Cons f fs)
  then show ?case
    using Cons.IH [OF pair_tick [of n s t f]] by (simp add: ticks_def)
qed (simp add: ticks_def)

text \<open>C36. The scheduler is not fair. With the interactive task 0 running and task 1 ready, the two
  alternate for ever whatever code the tasks run: after \<open>n\<close> ticks task \<open>n mod 2\<close> is the current one. So
  each of them runs at every second tick, and tasks 2, 3 and 4 never run, even when they are ready:
  their entries keep their state.\<close>

theorem pendsv_alternates_and_starves:
  assumes "length (tcbs s) = NUM_TASKS + 1" "cur s = 0" "tcb_state (tcbs s ! 1) = task_state_num TReady"
    and "\<forall>f\<in>set fs. task_code f"
  shows "cur (ticks fs s) = length fs mod 2
    \<and> (\<forall>k\<in>{2, 3, 4}. cur (ticks fs s) \<noteq> k \<and> tcb_state (tcbs (ticks fs s) ! k) = tcb_state (tcbs s ! k))"
proof -
  have "pair_alternates 0 s s"
    using assms(1-3) by (simp add: pair_alternates_def NUM_TASKS_def)
  then have "pair_alternates (length fs) s (ticks fs s)"
    using ticks_pair [of 0 s s fs] assms(4) by simp
  moreover have "length fs mod 2 \<notin> {2, 3, 4}"
    using mod_less_divisor [of 2 "length fs"] by auto
  ultimately show ?thesis
    by (auto simp: pair_alternates_def)
qed

section \<open>Saving and restoring a context\<close>

lemma frame_peek_far:
  assumes "frame m m' a n" "\<And>i. i < 4 \<Longrightarrow> n \<le> unat (b + of_nat i - a)"
  shows "peek_u32 m' b = peek_u32 m b"
  using assms(1) assms(2) [of 0] assms(2) [of 1] assms(2) [of 2] assms(2) [of 3]
  by (simp add: frame_def peek_u32_def)

text \<open>Two 32-byte areas that end at \<open>p\<close> and \<open>q\<close> share no byte.\<close>

definition areas_apart :: "u32 \<Rightarrow> u32 \<Rightarrow> bool" where
  "areas_apart p q \<longleftrightarrow> 32 \<le> unat (q - p) \<and> 32 \<le> unat (p - q)"

lemma area_kept:
  assumes "frame m m' (q - 32) 32" "areas_apart p q" "i < 8"
  shows "peek_u32 m' (p - 32 + of_nat (i * 4)) = peek_u32 m (p - 32 + of_nat (i * 4))"
  using assms(1)
proof (rule frame_peek_far)
  fix j :: nat
  assume j: "j < 4"
  define x :: u32 where "x = of_nat (i * 4 + j)"
  define d where "d = q - p"
  have x: "unat x = i * 4 + j"
    using assms(3) j by (simp add: x_def unat_of_nat take_bit_nat_eq_self_iff del: of_nat_add of_nat_mult)
  have apart: "32 \<le> unat d" "32 \<le> unat (0 - d)"
    using assms(2) by (simp_all add: areas_apart_def d_def)
  then have "d \<noteq> 0"
    by auto
  then have "unat (0 - d) = 2 ^ 32 - unat d"
    using unat_sub_if' [of 0 d] by (simp add: word_le_nat_alt unat_eq_zero)
  moreover have "\<not> d \<le> x"
    using apart(1) assms(3) j x by (simp add: word_le_nat_alt)
  then have "unat (x - d) = i * 4 + j + 2 ^ 32 - unat d"
    using unat_sub_if' [of x d] x by (simp add: word_le_nat_alt)
  moreover have "p - 32 + of_nat (i * 4) + of_nat j - (q - 32) = x - d"
    by (simp add: x_def d_def)
  ultimately show "32 \<le> unat (p - 32 + of_nat (i * 4) + of_nat j - (q - 32))"
    using apart(2) by simp
qed

lemma PendSV_saves:
  assumes "next_task s = Some n" "tasks_ok s"
  shows "frame (mmem s) (mmem (PendSV_Handler s)) (psp s - 32) 32"
    and "i < 8 \<Longrightarrow> peek_u32 (mmem (PendSV_Handler s)) (psp s - 32 + of_nat (i * 4)) = saved_words s n ! i"
proof -
  have m: "mmem (PendSV_Handler s) = poke_words (mmem s) (psp s - 32 + of_nat 0) (saved_words s n)"
    using PendSV_some(2) [OF assms(1)] assms(2) by (simp add: tasks_ok_def)
  show "frame (mmem s) (mmem (PendSV_Handler s)) (psp s - 32) 32"
    using poke_words_at(1) [where j = 0 and ws = "saved_words s n" and m = "mmem s" and b = "psp s - 32"] m
    by (simp add: saved_words_def)
  show "i < 8 \<Longrightarrow> peek_u32 (mmem (PendSV_Handler s)) (psp s - 32 + of_nat (i * 4)) = saved_words s n ! i"
    using poke_words_at(2) [where j = 0 and ws = "saved_words s n" and m = "mmem s" and b = "psp s - 32"]
    unfolding m by (simp add: saved_words_def del: of_nat_mult)
qed

text \<open>C37. A context switch keeps the interrupted task's stack pointer and registers r7 to r11, and
  destroys r4, r5 and r6: let a PendSV in state \<open>s\<close> switch away from a task, and a PendSV in some later
  state \<open>u\<close> switch back to it, where the saved area and its recorded address have been kept and the
  area of the task interrupted in \<open>u\<close> does not overlap it. Then the task resumes with its stack pointer and
  its r7 to r11, but with 16 in r4, 2 in r5 and its own switch count in r6, the scratch values of the
  handler.\<close>

theorem context_switch_clobbers:
  assumes "tasks_ok s" "next_task s = Some n" "t = PendSV_Handler s"
    and "tasks_ok u" "next_task u = Some (cur s)" "tcb_sp (tcbs u ! cur s) = tcb_sp (tcbs t ! cur s)"
    and "\<forall>i<8. peek_u32 (mmem u) (psp s - 32 + of_nat (i * 4)) = peek_u32 (mmem t) (psp s - 32 + of_nat (i * 4))"
    and "areas_apart (psp s) (psp u)"
  shows "psp (PendSV_Handler u) = psp s \<and> (\<forall>k\<in>{7, 8, 9, 10, 11}. rg (PendSV_Handler u) k = rg s k)
    \<and> rg (PendSV_Handler u) 4 = 16 \<and> rg (PendSV_Handler u) 5 = 2
    \<and> rg (PendSV_Handler u) 6 = tcb_counter (tcbs u ! cur s) + 1"
proof -
  have u: "length (tcbs u) = 5" "cur u < 5" and s: "length (tcbs s) = 5" "cur s < 5" "cur s \<noteq> n"
    using assms(1,2,4) by (auto simp: tasks_ok_def next_task_Some)
  have sp: "tcb_sp (tcbs u ! cur s) = psp s - 32"
    using assms(3,6) s PendSV_some(4) [OF assms(2) s(1,2)] by simp
  note res = PendSV_some [OF assms(5) u, unfolded sp]
  have words: "peek_u32 (mmem (PendSV_Handler u)) (psp s - 32 + of_nat (i * 4)) = saved_words s n ! i"
    if "i < 8" for i
    using area_kept [OF PendSV_saves(1) [OF assms(5,4)] assms(8) that] assms(3,7)
      PendSV_saves(2) [OF assms(2,1) that] that by (simp del: of_nat_mult)
  have "rg (PendSV_Handler u) k = saved_words s n ! (k - 4)" if "7 \<le> k" "k < 12" for k
    using res(8) [OF that] words [of "k - 4"] res(2) that by (simp del: of_nat_mult)
  then have "\<forall>k\<in>{7, 8, 9, 10, 11}. rg (PendSV_Handler u) k = rg s k"
    by (simp add: saved_words_def)
  moreover have "rg (PendSV_Handler u) 4 = 16"
    using res(5) words [of 0] res(2) by (simp add: saved_words_def)
  ultimately show ?thesis
    using res(3,6,7) by simp
qed

section \<open>New tasks\<close>

lemma init_task_words:
  assumes "i < 8"
  shows "peek_u32 (mmem (init_task sp b idx s)) (sp - 32 + of_nat (i * 4)) = [0, 0, 0, 0, 0, 0, b OR 1, 0x01000000] ! i"
proof -
  have "i = 0 \<or> i = 1 \<or> i = 2 \<or> i = 3 \<or> i = 4 \<or> i = 5 \<or> i = 6 \<or> i = 7"
    using assms by arith
  then show ?thesis
    by (elim disjE) (simp_all add: init_task_def Let_def peek_poke_other no_overlap_def)
qed

lemma init_task_table:
  "tcbs (init_task sp b idx s) = (tcbs s)[idx := (tcbs s ! idx)\<lparr>tcb_sp := sp - 64, tcb_pc := b, tcb_state := 1\<rparr>]"
  "cur (init_task sp b idx s) = cur s" "psp (init_task sp b idx s) = psp s" "rg (init_task sp b idx s) = rg s"
  by (simp_all add: init_task_def Let_def)

lemma spawn_is_init:
  assumes "i < 3"
  shows "spawn_counter_task stk bodies i s
    = (True, init_task (stk (i + 1)) (if i = 0 then bodies 1 else bodies 2) (i + 1) s)"
  using assms by (auto simp: spawn_counter_task_def task_stack_top_def NUM_TASKS_def)

text \<open>A spawned task starts at its body: spawning slot \<open>i < 3\<close> succeeds, and when the next PendSV
  selects the new task (and the area of the interrupted task is not the new task's frame), the process stack
  pointer is 32 below the top of the task's stack and the eight words there, which the exception
  return loads into r0 to r3, r12, lr, pc and xPSR, are six zeros, the address of the body with the Thumb bit
  and an xPSR with only the Thumb bit. Other slots are refused with no change.\<close>

theorem spawned_task_starts:
  assumes "tasks_ok s" "i < 3" "sp = stk (i + 1)" "body = (if i = 0 then bodies 1 else bodies 2)"
    and "spawn_counter_task stk bodies i s = (r, s')" "next_task s' = Some (i + 1)" "areas_apart sp (psp s)"
  shows "r \<and> psp (PendSV_Handler s') = sp - 32
    \<and> (\<forall>k<8. peek_u32 (mmem (PendSV_Handler s')) (sp - 32 + of_nat (k * 4))
          = [0, 0, 0, 0, 0, 0, body OR 1, 0x01000000] ! k)
    \<and> spawn_jit_task stk bodies i s = (r, s')
    \<and> (\<forall>j\<ge>3. spawn_counter_task stk bodies j s = (False, s) \<and> spawn_jit_task stk bodies j s = (False, s))"
proof -
  have s': "r" "s' = init_task sp body (i + 1) s"
    using assms(3-5) by (simp_all add: spawn_is_init [OF assms(2)] split: if_splits)
  then have ok: "tasks_ok s'" and psp: "psp s' = psp s"
    using init_task_tasks_ok [OF assms(1)] by (simp_all add: init_task_table)
  have len: "length (tcbs s') = 5" "cur s' < 5" "length (tcbs s) = 5"
    using ok assms(1) by (simp_all add: tasks_ok_def)
  have "tcb_sp (tcbs s' ! (i + 1)) = sp - 64"
    using s'(2) len(3) assms(2) by (simp add: init_task_table)
  then have "psp (PendSV_Handler s') = sp - 32"
    using PendSV_some(3) [OF assms(6) len(1,2)] by simp
  moreover have "peek_u32 (mmem (PendSV_Handler s')) (sp - 32 + of_nat (k * 4))
      = [0, 0, 0, 0, 0, 0, body OR 1, 0x01000000] ! k" if "k < 8" for k
    using area_kept [OF PendSV_saves(1) [OF assms(6) ok, unfolded psp] assms(7) that]
      init_task_words [OF that, of sp body "i + 1" s] s'(2) by (simp del: of_nat_mult)
  moreover have "spawn_jit_task stk bodies i s = (r, s')"
    using assms(5) by (simp add: spawn_counter_task_def spawn_jit_task_def)
  ultimately show ?thesis
    using s'(1) by (auto simp: spawn_counter_task_def spawn_jit_task_def NUM_TASKS_def simp del: of_nat_mult)
qed

text \<open>The 1 KiB slots for emitted bodies do not overlap: the words of one are read back, and the
  words of another stay.\<close>

lemma slot_base: "i < 3 \<Longrightarrow> [0x20002000, 0x20002400, 0x20002800, 0x20002C00] ! i = (0x20002000 :: u32) + of_nat (i * 1024)"
  by (auto simp: less_Suc_eq numeral_3_eq_3)

lemma jit_slot_base_agrees: "i < 3 \<Longrightarrow> jit_slot_base_addr i = 0x20002000 + of_nat (i * 1024)"
  by (auto simp: jit_slot_base_addr_def less_Suc_eq numeral_3_eq_3)

lemma emit_fn_into_slot_disjoint:
  assumes "i < 3" "length ws \<le> 256" "emit_fn_into_slot i ws m = (r, m')"
  shows "r = Inr () \<and> (\<forall>j<length ws. peek_u32 m' (jit_slot_base_addr i + of_nat (j * 4)) = ws ! j)
    \<and> (\<forall>k<3. k \<noteq> i \<longrightarrow> (\<forall>j<256. peek_u32 m' (jit_slot_base_addr k + of_nat (j * 4))
         = peek_u32 m (jit_slot_base_addr k + of_nat (j * 4))))"
proof -
  have r: "r = Inr ()" "m' = poke_words m (0x20002000 + of_nat (i * 1024)) ws"
    using assms by (simp_all add: emit_fn_into_slot_def NUM_TASKS_def slot_base del: of_nat_mult)
  have bnd: "i * 1024 + 4 * length ws < 2 ^ 20"
    using assms(1,2) by simp
  note w = poke_words_at [OF bnd, where b = "0x20002000" and m = m, folded r(2)]
  have "peek_u32 m' (0x20002000 + of_nat (k * 1024 + j * 4)) = peek_u32 m (0x20002000 + of_nat (k * 1024 + j * 4))"
    if "k < 3" "k \<noteq> i" "j < 256" for k j
  proof (rule frame_peek [OF w(1)])
    show "k * 1024 + j * 4 + 4 \<le> i * 1024 \<or> i * 1024 + 4 * length ws \<le> k * 1024 + j * 4"
      using that assms(1,2) by (cases "k < i") auto
  qed (use that assms in auto)
  then show ?thesis
    using w(2) r(1) assms(1) by (simp add: jit_slot_base_agrees add.assoc)
qed

section \<open>Witnesses\<close>

definition demo_machine :: Machine where
  "demo_machine = \<lparr>rg = (\<lambda>k. of_nat (100 + k)), psp = 0x20008000, mmem = (\<lambda>_. 0),
    tcbs = [tcb_dead, \<lparr>tcb_sp = 0x20006000, tcb_pc = 0, tcb_state = 1, tcb_counter = 0\<rparr>, tcb_dead,
      \<lparr>tcb_sp = 0x20004000, tcb_pc = 0, tcb_state = 1, tcb_counter = 0\<rparr>, tcb_dead], cur = 0\<rparr>"

lemma demo_next: "next_task demo_machine = Some 1"
  by code_simp

lemma demo_ok: "tasks_ok demo_machine"
  by code_simp

lemma demo_switched: "next_task (PendSV_Handler demo_machine) = Some 0" "psp (PendSV_Handler demo_machine) = 0x20006020"
  by code_simp+

definition demo_boot :: Machine where
  "demo_boot = demo_machine\<lparr>tcbs := TCBS\<rparr>"

abbreviation demo_spawned :: "Machine \<Rightarrow> Machine" where
  "demo_spawned s \<equiv> snd (spawn_counter_task (\<lambda>k. 0x20006000) (\<lambda>k. 0x400) 0 s)"

lemma demo_spawned_step: "task_step (\<lambda>k. 0x20006000) (\<lambda>k. 0x400) s (demo_spawned s)"
  by (rule task_step.spawn [where i = 0 and r = "fst (spawn_counter_task (\<lambda>k. 0x20006000) (\<lambda>k. 0x400) 0 s)"]) simp

lemma demo_spawned_next: "next_task (demo_spawned demo_boot) = Some 1" "next_task (demo_spawned demo_machine) = Some 1"
  by code_simp+

theorem single_running_task_witness:
  "tcbs demo_boot = TCBS \<and> cur demo_boot = 0 \<and> length (tcbs (demo_spawned demo_boot)) = NUM_TASKS + 1
   \<and> cur (PendSV_Handler (demo_spawned demo_boot)) = 1
   \<and> tcb_state (tcbs (PendSV_Handler (demo_spawned demo_boot)) ! 1) = task_state_num TRunning"
proof -
  have boot: "tcbs demo_boot = TCBS" "cur demo_boot = 0"
    by (simp_all add: demo_boot_def demo_machine_def)
  show ?thesis
    using single_running_task [OF r_into_rtranclp [of "task_step _ _", OF demo_spawned_step [of demo_boot]] boot] boot
    by (simp add: demo_spawned_next)
qed

theorem pendsv_alternates_and_starves_witness:
  "tcb_state (tcbs demo_machine ! 3) = task_state_num TReady
   \<and> cur (ticks [id, id, id, id, id] demo_machine) = 1
   \<and> tcb_state (tcbs (ticks [id, id, id, id, id] demo_machine) ! 3) = task_state_num TReady"
proof -
  have "task_code id"
    by (simp add: task_code_def)
  then show ?thesis
    using pendsv_alternates_and_starves [of demo_machine "[id, id, id, id, id]"]
    by (simp add: demo_machine_def NUM_TASKS_def)
qed

theorem context_switch_clobbers_witness:
  "next_task demo_machine = Some 1 \<and> rg demo_machine 4 = 104
   \<and> rg (PendSV_Handler (PendSV_Handler demo_machine)) 4 = 16
   \<and> rg (PendSV_Handler (PendSV_Handler demo_machine)) 5 = 2
   \<and> rg (PendSV_Handler (PendSV_Handler demo_machine)) 7 = rg demo_machine 7"
proof -
  have demo: "psp demo_machine = 0x20008000" "cur demo_machine = 0" "rg demo_machine 4 = 104"
    by (simp_all add: demo_machine_def)
  then have "areas_apart (psp demo_machine) (psp (PendSV_Handler demo_machine))"
    "next_task (PendSV_Handler demo_machine) = Some (cur demo_machine)" "rg demo_machine 4 = 104"
    by (simp_all add: demo_switched areas_apart_def)
  then show ?thesis
    using context_switch_clobbers [OF demo_ok demo_next refl PendSV_tasks_ok [OF demo_ok]] demo_next by simp
qed

theorem spawned_task_starts_witness:
  "next_task (demo_spawned demo_machine) = Some 1
   \<and> psp (PendSV_Handler (demo_spawned demo_machine)) = 0x20006000 - 32
   \<and> peek_u32 (mmem (PendSV_Handler (demo_spawned demo_machine))) (0x20006000 - 8) = 0x401"
proof -
  have "areas_apart 0x20006000 (psp demo_machine)"
    by (simp add: areas_apart_def demo_machine_def)
  then have "psp (PendSV_Handler (demo_spawned demo_machine)) = 0x20006000 - 32
   \<and> (\<forall>k<8. peek_u32 (mmem (PendSV_Handler (demo_spawned demo_machine))) (0x20006000 - 32 + of_nat (k * 4))
      = [0, 0, 0, 0, 0, 0, 0x400 OR 1, 0x01000000] ! k)"
    using spawned_task_starts [OF demo_ok, of 0 "0x20006000" "\<lambda>k. 0x20006000" "0x400" "\<lambda>k. 0x400"] demo_spawned_next(2)
    by (simp add: prod_eq_iff del: of_nat_mult)
  then show ?thesis
    by (auto simp: demo_spawned_next dest: spec [of _ 6])
qed

end
