(* ===== verification/Interrupt.thy ===== *)
theory Interrupt
  imports Multitask
begin

text \<open>
  The relocatable vector table, \<^verbatim>\<open>src/kernel/interrupt.rs\<close>.

  The table is the 1 KiB of memory at \<open>vt\<close>, the address the linker gives \<open>RAM_VECTOR_TABLE\<close>. Word \<open>k\<close> is
  exception \<open>k\<close> of the Cortex-M table, and the \<open>repr(C)\<close> structure puts its 32 \<open>irq_handlers\<close> at
  words 16 to 47; its alignment of 1024 makes its size 1024 bytes, that is 256 words. An
  \<open>Option<fn()>\<close> is a word with 0 for \<open>None\<close>. What a handler does when it is called is a parameter.
\<close>

section \<open>Table and registers\<close>

definition VECTOR_SLOTS :: nat where "VECTOR_SLOTS = 256"
definition VTOR :: u32 where "VTOR = 0xE000ED08"

text \<open>The fields of \<open>VectorTable\<close>, as word indices.\<close>

datatype VectorTable = InitialSp | ResetHandler | NmiHandler | HardFault | MemManage | BusFault
  | UsageFault | SvCall | DebugMon | PendSv | SysTick | IrqHandlers nat

fun vector_index :: "VectorTable \<Rightarrow> nat" where
  "vector_index InitialSp = 0"
| "vector_index ResetHandler = 1"
| "vector_index NmiHandler = 2"
| "vector_index HardFault = 3"
| "vector_index MemManage = 4"
| "vector_index BusFault = 5"
| "vector_index UsageFault = 6"
| "vector_index SvCall = 11"
| "vector_index DebugMon = 12"
| "vector_index PendSv = 14"
| "vector_index SysTick = 15"
| "vector_index (IrqHandlers i) = 16 + i"

definition vector_addr :: "u32 \<Rightarrow> VectorTable \<Rightarrow> u32" where
  "vector_addr vt v = vt + of_nat (vector_index v * 4)"

definition irq_handler_of :: "mem \<Rightarrow> u32 \<Rightarrow> nat \<Rightarrow> u32 option" where
  "irq_handler_of m vt i =
    (let w = peek_u32 m (vector_addr vt (IrqHandlers i)) in if w = 0 then None else Some w)"

definition relocate_vector_table :: "arch \<Rightarrow> u32 \<Rightarrow> mem \<Rightarrow> mem" where
  "relocate_vector_table a vt m = (if a = Arm then poke_u32 m 0xE000ED08 vt else m)"

definition attach_jit_irq :: "u32 \<Rightarrow> nat \<Rightarrow> u32 \<Rightarrow> mem \<Rightarrow> mem" where
  "attach_jit_irq vt irq_index jit_fn m =
    (if irq_index < 32 then poke_u32 m (vector_addr vt (IrqHandlers irq_index)) jit_fn else m)"

section \<open>Boot and dispatch\<close>

fun copy_vectors :: "mem \<Rightarrow> u32 \<Rightarrow> u32 \<Rightarrow> nat \<Rightarrow> mem" where
  "copy_vectors m src dst 0 = m"
| "copy_vectors m src dst (Suc n) = copy_vectors (poke_u32 m dst (peek_u32 m src)) (src + 4) (dst + 4) n"

text \<open>On RISC-V, \<open>mtvec\<close> is a control register and not part of memory: the second component.\<close>

definition boot_relocate_vectors ::
    "arch \<Rightarrow> u32 \<Rightarrow> u32 \<Rightarrow> u32 \<Rightarrow> u32 \<Rightarrow> mem \<times> u32 option \<Rightarrow> mem \<times> u32 option" where
  "boot_relocate_vectors a vector_start vector_end vt trap_hang s =
    (case a of
       Arm \<Rightarrow>
         (let words = min (unat ((vector_end - vector_start) div 4)) VECTOR_SLOTS
          in (poke_u32 (copy_vectors (fst s) vector_start vt words) VTOR vt, snd s))
     | Riscv32 \<Rightarrow> (fst s, Some (trap_hang AND NOT 3))
     | Host \<Rightarrow> s)"

definition configure_riscv_interrupts :: "u32 \<Rightarrow> u32" where
  "configure_riscv_interrupts table_base_address = (table_base_address AND NOT 3) OR 1"

definition generic_irq_trampoline_ch16 :: "(u32 \<Rightarrow> mem \<Rightarrow> mem) \<Rightarrow> u32 \<Rightarrow> mem \<Rightarrow> mem" where
  "generic_irq_trampoline_ch16 call vt m =
    (let m1 = poke_u32 m 0x40010004 (peek_u32 m 0x40010004 AND NOT (push_bit 16 1))
     in case irq_handler_of m1 vt 16 of None \<Rightarrow> m1 | Some handler \<Rightarrow> call handler m1)"

section \<open>Copying the table\<close>

lemma copy_vectors_poke_words:
  assumes "4 * n \<le> d" "d + 4 * n < 2 ^ 31"
  shows "copy_vectors m a (a + of_nat d) n
    = poke_words m (a + of_nat d) (map (\<lambda>k. peek_u32 m (a + of_nat (k * 4))) [0..<n])"
  using assms
proof (induction n arbitrary: m a)
  case (Suc n)
  let ?m = "poke_u32 m (a + of_nat d) (peek_u32 m a)"
  have "peek_u32 ?m (a + of_nat (Suc k * 4)) = peek_u32 m (a + of_nat (Suc k * 4))" if "k < n" for k
    using Suc.prems that by (intro frame_peek [OF frame_poke [of 4]]) auto
  then have keep: "map (\<lambda>k. peek_u32 ?m (a + 4 + of_nat (k * 4))) [0..<n]
      = map (\<lambda>k. peek_u32 m (a + of_nat (Suc k * 4))) [0..<n]"
    by (auto simp: add.assoc)
  have "copy_vectors ?m (a + 4) (a + 4 + of_nat d) n
      = poke_words ?m (a + 4 + of_nat d) (map (\<lambda>k. peek_u32 ?m (a + 4 + of_nat (k * 4))) [0..<n])"
    using Suc.prems by (intro Suc.IH) auto
  moreover have "a + 4 + of_nat d = a + of_nat d + 4"
    by simp
  moreover have "[0..<Suc n] = 0 # map Suc [0..<n]"
    by (simp add: map_Suc_upt upt_conv_Cons)
  ultimately show ?case
    unfolding keep by (simp del: of_nat_mult of_nat_Suc mult_Suc upt_Suc add: comp_def)
qed simp

lemma vector_addr_other:
  assumes "i < 256" "j < 256" "i \<noteq> j"
  shows "no_overlap (vt + of_nat (i * 4)) (vt + of_nat (j * 4) :: u32)"
proof -
  have "4 \<le> unat (vt + of_nat (j * 4) - (vt + of_nat (i * 4)))"
    "4 \<le> unat (vt + of_nat (i * 4) - (vt + of_nat (j * 4)))"
    using assms by (subst unat_offset; simp; linarith)+
  then show ?thesis
    by (auto simp: no_overlap_def simp del: of_nat_mult)
qed

text \<open>Addresses below 2 GiB, as on the targets: the table does not meet the registers above it.\<close>

lemma table_below:
  assumes "unat vt + 1024 \<le> unat r" "unat r + 4 \<le> 2 ^ 32" "k < 256"
  shows "no_overlap (vt + of_nat (k * 4)) r"
proof (rule no_overlapI)
  have k: "unat (of_nat (k * 4) :: u32) = k * 4"
    using assms(3) by (simp add: unat_of_nat take_bit_nat_eq_self_iff del: of_nat_mult)
  have "unat (vt + of_nat (k * 4)) = unat vt + k * 4"
    using unat_add_u32 [of vt "of_nat (k * 4)"] assms unfolding k by simp
  then show "unat (vt + of_nat (k * 4)) + 4 \<le> unat r"
    using assms by simp
qed (rule assms)

lemma boot_table:
  assumes "unat vs + 1024 \<le> unat vt" "unat vt + 1024 < 2 ^ 31"
    and "words = min (unat ((ve - vs) div 4)) VECTOR_SLOTS"
    and "m' = fst (boot_relocate_vectors Arm vs ve vt th (m, c))" "k < 256"
  shows "peek_u32 m' (vt + of_nat (k * 4))
      = (if k < words then peek_u32 m (vs + of_nat (k * 4)) else peek_u32 m (vt + of_nat (k * 4)))"
proof -
  define d where "d = unat vt - unat vs"
  have d: "1024 \<le> d" "d + 1024 < 2 ^ 31"
    using assms(1,2) by (auto simp: d_def)
  have "of_nat d = vt - vs"
    using assms(1) by (simp add: d_def)
  then have vt: "vt = vs + of_nat d"
    by simp
  have w: "words \<le> 256"
    using assms(3) by (simp add: VECTOR_SLOTS_def)
  define ws where "ws = map (\<lambda>k. peek_u32 m (vs + of_nat (k * 4))) [0..<words]"
  have "copy_vectors m vs vt words = poke_words m vt ws"
    unfolding vt ws_def using d w by (intro copy_vectors_poke_words) auto
  then have m': "m' = poke_u32 (poke_words m (vt + of_nat 0) ws) VTOR vt"
    using assms(3,4) by (simp add: boot_relocate_vectors_def)
  have "no_overlap VTOR (vt + of_nat (k * 4))"
    using table_below [of vt VTOR k] assms(2,5) unfolding no_overlap_sym [of VTOR] by (simp add: VTOR_def)
  then have "peek_u32 m' (vt + of_nat (k * 4)) = peek_u32 (poke_words m (vt + of_nat 0) ws) (vt + of_nat (k * 4))"
    unfolding m' by (rule peek_poke_other)
  moreover have "0 + 4 * length ws < 2 ^ 20"
    using w by (simp add: ws_def)
  note at = poke_words_at [OF this, where b = vt and m = m]
  have "peek_u32 (poke_words m (vt + of_nat 0) ws) (vt + of_nat (k * 4)) = peek_u32 m (vt + of_nat (k * 4))"
    if "\<not> k < words"
    using that assms(5) w by (intro frame_peek [OF at(1)]) (auto simp: ws_def)
  ultimately show ?thesis
    using at(2) by (auto simp: ws_def simp del: of_nat_mult)
qed

text \<open>C40. Interrupts reach the handler that was attached last: the linker places the flash table and the
  SRAM table below 2 GiB and apart. After the boot-time relocation on ARM and the attachment of
  \<open>f\<close> to interrupt line \<open>i\<close>, the vector base register points to the SRAM table, its slot
  \<open>16 + i\<close> holds \<open>f\<close>, and each of its other 255 slots holds the entry of the flash table, or what it held
  before where the flash table has no such entry. The trampoline of line 16 clears exactly bit 16 of the
  pending register and calls the handler of the slot. A line above 31 is ignored.\<close>

theorem attached_irq_dispatched:
  assumes "unat vs + 1024 \<le> unat vt" "unat vt + 1024 \<le> 0x40010004" "i < 32" "f \<noteq> 0"
    and "words = min (unat ((ve - vs) div 4)) VECTOR_SLOTS"
    and "m1 = fst (boot_relocate_vectors Arm vs ve vt th (m, c))" "m2 = attach_jit_irq vt i f m1"
  shows "peek_u32 m2 VTOR = vt \<and> irq_handler_of m2 vt i = Some f
    \<and> (\<forall>k<VECTOR_SLOTS. k \<noteq> vector_index (IrqHandlers i) \<longrightarrow> peek_u32 m2 (vt + of_nat (k * 4))
          = (if k < words then peek_u32 m (vs + of_nat (k * 4)) else peek_u32 m (vt + of_nat (k * 4))))
    \<and> (i = 16 \<longrightarrow> (\<exists>m3. generic_irq_trampoline_ch16 call vt m2 = call f m3
          \<and> (\<forall>b. bit (peek_u32 m3 0x40010004) b \<longleftrightarrow> b \<noteq> 16 \<and> bit (peek_u32 m2 0x40010004) b)))
    \<and> (\<forall>j\<ge>32. attach_jit_irq vt j f m1 = m1)"
proof -
  let ?a = "vt + of_nat ((16 + i) * 4)"
  have m2: "m2 = poke_u32 m1 ?a f"
    using assms(3,7) by (simp add: attach_jit_irq_def vector_addr_def)
  have vt: "unat vt + 1024 < 2 ^ 31"
    using assms(2) by simp
  have at: "peek_u32 m2 (vt + of_nat (k * 4)) = (if k = 16 + i then f else peek_u32 m1 (vt + of_nat (k * 4)))"
    if "k < 256" for k
    using that assms(3) vector_addr_other [of "16 + i" k vt] unfolding m2
    by (auto simp: peek_poke_other simp del: of_nat_mult of_nat_add)
  have "no_overlap ?a VTOR"
    using assms(2,3) by (intro table_below) (auto simp: VTOR_def)
  then have v: "peek_u32 m2 VTOR = vt"
    unfolding m2 using assms(6) by (simp add: peek_poke_other boot_relocate_vectors_def Let_def)
  have h: "irq_handler_of m2 vt i = Some f"
    using at [of "16 + i"] assms(3,4) by (simp add: irq_handler_of_def vector_addr_def)
  define m3 where "m3 = poke_u32 m2 0x40010004 (peek_u32 m2 0x40010004 AND NOT (push_bit 16 1))"
  have "no_overlap 0x40010004 (vt + of_nat ((16 + 16) * 4))"
    using table_below [of vt "0x40010004" "16 + 16"] assms(2) unfolding no_overlap_sym [of "0x40010004"] by simp
  then have "irq_handler_of m3 vt 16 = irq_handler_of m2 vt 16"
    unfolding irq_handler_of_def vector_addr_def m3_def
    by (simp add: peek_poke_other)
  then have t: "i = 16 \<longrightarrow> generic_irq_trampoline_ch16 call vt m2 = call f m3"
    using h unfolding generic_irq_trampoline_ch16_def Let_def m3_def [symmetric] by auto
  have "bit (peek_u32 m3 0x40010004) b \<longleftrightarrow> b \<noteq> 16 \<and> bit (peek_u32 m2 0x40010004) b" for b
  proof -
    have "push_bit 16 1 = shl1 16"
      by (simp add: shl1_def)
    then show ?thesis
      unfolding m3_def peek_poke_same by (auto simp only: bits_simps dest: bit_u32_bound) (simp_all add: bit_u32_bound)
  qed
  with t have "i = 16 \<longrightarrow> (\<exists>m3. generic_irq_trampoline_ch16 call vt m2 = call f m3
          \<and> (\<forall>b. bit (peek_u32 m3 0x40010004) b \<longleftrightarrow> b \<noteq> 16 \<and> bit (peek_u32 m2 0x40010004) b))"
    by blast
  with v h show ?thesis
    using at boot_table [OF assms(1) vt assms(5,6)]
    by (simp add: VECTOR_SLOTS_def attach_jit_irq_def del: of_nat_mult)
qed

theorem attached_irq_dispatched_witness:
  "\<exists>m2. m2 = attach_jit_irq 0x20000400 16 0x20002001
      (fst (boot_relocate_vectors Arm 0 192 0x20000400 0 ((\<lambda>a. ucast a), None)))
   \<and> irq_handler_of m2 0x20000400 16 = Some 0x20002001
   \<and> peek_u32 m2 (0x20000400 + of_nat (2 * 4)) = peek_u32 (\<lambda>a. ucast a) (0 + of_nat (2 * 4))
   \<and> (\<exists>m3. generic_irq_trampoline_ch16 (\<lambda>f m. m(f := 1)) 0x20000400 m2 = m3(0x20002001 := 1))"
proof -
  let ?m2 = "attach_jit_irq 0x20000400 16 0x20002001
      (fst (boot_relocate_vectors Arm 0 192 0x20000400 0 ((\<lambda>a. ucast a), None)))"
  have pre: "unat (0 :: u32) + 1024 \<le> unat (0x20000400 :: u32)" "unat (0x20000400 :: u32) + 1024 \<le> 0x40010004"
    "(16 :: nat) < 32" "(0x20002001 :: u32) \<noteq> 0" "(2 :: nat) < VECTOR_SLOTS" "2 \<noteq> vector_index (IrqHandlers 16)"
    "2 < min (unat ((192 - 0 :: u32) div 4)) VECTOR_SLOTS"
    by (simp_all add: VECTOR_SLOTS_def)
  note w = attached_irq_dispatched [OF pre(1-4) refl refl refl, of 192 0 "\<lambda>a. ucast a" None "\<lambda>f m. m(f := 1)"]
  have "irq_handler_of ?m2 0x20000400 16 = Some 0x20002001"
    using w by (rule conjE) (elim conjE)
  moreover have "peek_u32 ?m2 (0x20000400 + of_nat (2 * 4)) = peek_u32 (\<lambda>a. ucast a) (0 + of_nat (2 * 4))"
    using w [THEN conjunct2, THEN conjunct2, THEN conjunct1, THEN spec [of _ 2]] pre(5-7) by (simp only: if_True simp_thms)
  moreover have "\<exists>m3. generic_irq_trampoline_ch16 (\<lambda>f m. m(f := 1)) 0x20000400 ?m2 = m3(0x20002001 := 1)"
    using w by blast
  ultimately show ?thesis
    by blast
qed

text \<open>The entries that \<open>install_task_handlers\<close> writes are those of PendSV and SysTick, and its last write
  goes to another word than the vector base register.\<close>

lemma task_handlers_installed:
  assumes "unat vt + 1024 \<le> 0x40010004" "m' = install_task_handlers vt pendsv systick m"
  shows "peek_u32 m' (vector_addr vt PendSv) = pendsv" "peek_u32 m' (vector_addr vt SysTick) = systick"
    "peek_u32 m' VTOR = peek_u32 m VTOR"
proof -
  have low: "no_overlap (vt + of_nat (k * 4)) r" if "k < 256" "0x40010004 \<le> unat r" "unat r + 4 \<le> 2 ^ 32" for k r
    using assms(1) that by (intro table_below) auto
  have "no_overlap (vt + of_nat (14 * 4)) (vt + of_nat (15 * 4))"
    by (rule vector_addr_other) simp_all
  moreover have "no_overlap (vt + of_nat (14 * 4)) VTOR" "no_overlap (vt + of_nat (15 * 4)) VTOR"
    "no_overlap (vt + of_nat (14 * 4)) 0xE000ED2C" "no_overlap (vt + of_nat (15 * 4)) 0xE000ED2C"
    by (intro low; simp add: VTOR_def)+
  moreover have "no_overlap 0xE000ED2C VTOR"
    by (simp add: no_overlap_def VTOR_def)
  ultimately show "peek_u32 m' (vector_addr vt PendSv) = pendsv" "peek_u32 m' (vector_addr vt SysTick) = systick"
    "peek_u32 m' VTOR = peek_u32 m VTOR"
    by (simp_all add: assms(2) install_task_handlers_def Let_def vector_addr_def peek_poke_other no_overlap_sym)
qed

end
