(* ===== verification/Pcie.thy ===== *)
theory Pcie
  imports Ring_Buffers Byte_Memory
begin

text \<open>
  The PCIe driver, \<^verbatim>\<open>src/drivers/pcie.rs\<close>: configuration space addresses, the size of a base
  address register, the sweep over all functions of all buses, and the DMA descriptor ring.

  Configuration space is read through the byte memory. A base address register answers a write with
  another value than was written, so the device's response is a parameter of \<open>bar_size\<close>. The
  consumer of the descriptor ring is hardware; \<open>dma_complete\<close> is the step it is documented to make.
\<close>

section \<open>Configuration space\<close>

definition ecam_addr :: "u32 \<Rightarrow> u8 \<Rightarrow> u8 \<Rightarrow> u8 \<Rightarrow> u32 \<Rightarrow> u32" where
  "ecam_addr base bus dev func reg =
    base + push_bit 20 (ucast bus) + push_bit 15 (ucast dev) + push_bit 12 (ucast func) + reg"

record PcieHeader =
  vendor_device :: u32
  command_status :: u32
  class_revision :: u32
  bist_header_latency_cache :: u32
  bar0 :: u32
  bar1 :: u32
  bar2 :: u32
  bar3 :: u32
  bar4 :: u32
  bar5 :: u32

text \<open>\<open>answer old v\<close> is the content of the register after \<open>v\<close> was written over \<open>old\<close>. The result is the
  size and the final content.\<close>

definition bar_size :: "(u32 \<Rightarrow> u32 \<Rightarrow> u32) \<Rightarrow> u32 \<Rightarrow> u32 \<times> u32" where
  "bar_size answer bar =
    (let orig = bar;
         bar1 = answer bar 0xFFFFFFFF;
         mask = bar1;
         bar2 = answer bar1 orig
     in (NOT (mask AND NOT 0xF) + 1, bar2))"

definition vendor_of :: "mem \<Rightarrow> u32 \<Rightarrow> u32" where
  "vendor_of m addr = peek_u32 m addr AND 0xFFFF"

definition single_function :: "mem \<Rightarrow> u32 \<Rightarrow> bool" where
  "single_function m addr \<longleftrightarrow> ((peek_u32 m (addr + 0x0E) AND 0xFF) AND 0x80) = 0"

definition record_header :: "mem \<Rightarrow> u32 \<Rightarrow> nat \<times> PcieHeader list \<Rightarrow> nat \<times> PcieHeader list" where
  "record_header m addr st =
    (let (found, out) = st
     in if found < length out then
          (found + 1, out[found := (out ! found)\<lparr>vendor_device := peek_u32 m addr,
             command_status := peek_u32 m (addr + 0x04), class_revision := peek_u32 m (addr + 0x08),
             bar0 := peek_u32 m (addr + 0x10)\<rparr>])
        else st)"

text \<open>The three nested loops, innermost first, over the remaining indices. The state is the number of
  headers found and the output array.\<close>

fun scan_funcs :: "mem \<Rightarrow> u32 \<Rightarrow> u8 \<Rightarrow> u8 \<Rightarrow> u8 list \<Rightarrow> nat \<times> PcieHeader list \<Rightarrow> nat \<times> PcieHeader list" where
  "scan_funcs m base bus dev [] st = st"
| "scan_funcs m base bus dev (func # funcs) st =
    (let addr = ecam_addr base bus dev func 0; vendor = vendor_of m addr
     in if vendor = 0xFFFF \<or> vendor = 0x0000 then
          (if func = 0 \<and> single_function m addr then st
           else scan_funcs m base bus dev funcs st)
        else
          (let st' = record_header m addr st
           in if func = 0 \<and> single_function m addr then st'
              else scan_funcs m base bus dev funcs st'))"

fun scan_devs :: "mem \<Rightarrow> u32 \<Rightarrow> u8 \<Rightarrow> u8 list \<Rightarrow> nat \<times> PcieHeader list \<Rightarrow> nat \<times> PcieHeader list" where
  "scan_devs m base bus [] st = st"
| "scan_devs m base bus (dev # devs) st =
    scan_devs m base bus devs (scan_funcs m base bus dev (map of_nat [0..<8]) st)"

fun scan_buses :: "mem \<Rightarrow> u32 \<Rightarrow> u16 list \<Rightarrow> nat \<times> PcieHeader list \<Rightarrow> nat \<times> PcieHeader list" where
  "scan_buses m base [] st = st"
| "scan_buses m base (bus # buses) st =
    (let st' = scan_devs m base (ucast bus) (map of_nat [0..<32]) st
     in if fst st' \<ge> length (snd st') then st'
        else if bus = 0 \<and> fst st' = 0 then st'
        else scan_buses m base buses st')"

definition enumerate_ecam :: "mem \<Rightarrow> u32 \<Rightarrow> PcieHeader list \<Rightarrow> nat \<times> PcieHeader list" where
  "enumerate_ecam m base out = scan_buses m base (map of_nat [0..<256]) (0, out)"

section \<open>Descriptor ring\<close>

record DmaDescriptor =
  src_addr :: u64
  dest_addr :: u64
  dma_length :: u32
  flags :: u32

record AutonomousDmaRing =
  descriptors :: "DmaDescriptor list"
  dma_head :: nat
  dma_tail :: nat

definition dma_ring_new :: AutonomousDmaRing where
  "dma_ring_new = \<lparr>descriptors = replicate 128 \<lparr>src_addr = 0, dest_addr = 0, dma_length = 0, flags = 0\<rparr>,
    dma_head = 0, dma_tail = 0\<rparr>"

definition submit_transfer :: "AutonomousDmaRing \<Rightarrow> u64 \<Rightarrow> u64 \<Rightarrow> u32 \<Rightarrow> bool \<times> AutonomousDmaRing" where
  "submit_transfer q src dest len =
    (let cur_tail = dma_tail q; next_tail = (cur_tail + 1) mod 128
     in if next_tail = dma_head q then (False, q)
        else (True, q\<lparr>descriptors := (descriptors q)[cur_tail :=
            \<lparr>src_addr = src, dest_addr = dest, dma_length = len, flags = 1\<rparr>], dma_tail := next_tail\<rparr>))"

definition has_completed :: "AutonomousDmaRing \<Rightarrow> bool" where
  "has_completed q \<longleftrightarrow> dma_head q \<noteq> dma_tail q"

definition capacity :: "AutonomousDmaRing \<Rightarrow> nat" where
  "capacity q = (dma_head q + 128 - dma_tail q - 1) mod 128"

text \<open>The hardware takes the descriptor at its head and advances it.\<close>

definition dma_complete :: "AutonomousDmaRing \<Rightarrow> DmaDescriptor option \<times> AutonomousDmaRing" where
  "dma_complete q =
    (if dma_head q = dma_tail q then (None, q)
     else (Some (descriptors q ! dma_head q), q\<lparr>dma_head := (dma_head q + 1) mod 128\<rparr>))"

section \<open>Addresses and sizes\<close>

lemma ecam_addr_offset:
  assumes "unat dev < 32" "unat func < 8" "unat reg < 4096"
  shows "unat (ecam_addr base bus dev func reg - base)
    = unat bus * 2 ^ 20 + unat dev * 2 ^ 15 + unat func * 2 ^ 12 + unat reg"
proof -
  have b: "unat bus < 256"
    using unsigned_less [of bus, where 'a = nat] by simp
  have p: "unat (push_bit n (ucast x :: u32)) = unat x * 2 ^ n" if "unat x * 2 ^ n < 2 ^ 32" for x :: u8 and n
  proof -
    have "unat (ucast x :: u32) = unat x"
      using unsigned_less [of x, where 'a = nat] by (simp add: unsigned_ucast_eq take_bit_nat_eq_self_iff)
    then show ?thesis
      using that unfolding unsigned_push_bit_eq by (simp add: take_bit_nat_eq_self_iff push_bit_eq_mult)
  qed
  have "ecam_addr base bus dev func reg - base
      = push_bit 20 (ucast bus) + push_bit 15 (ucast dev) + push_bit 12 (ucast func) + reg"
    by (simp add: ecam_addr_def)
  then show ?thesis
    using assms b p [of bus 20] p [of dev 15] p [of func 12]
    by (simp add: unat_add_u32)
qed

lemma digits_eq: "a * n + r = b * n + s \<Longrightarrow> r < n \<Longrightarrow> s < n \<Longrightarrow> a = b \<and> r = s" for a b n r s :: nat
  by (metis add.commute add_right_cancel div_less div_mult_self3 gr_implies_not0 less_nat_zero_code plus_nat.add_0)

text \<open>Different functions have different configuration space, whatever the base.\<close>

lemma ecam_addr_inj:
  assumes "ecam_addr base bus dev func reg = ecam_addr base bus' dev' func' reg'"
    and "unat dev < 32" "unat func < 8" "unat reg < 4096" "unat dev' < 32" "unat func' < 8" "unat reg' < 4096"
  shows "bus = bus' \<and> dev = dev' \<and> func = func' \<and> reg = reg'"
proof -
  have "unat bus * 2 ^ 20 + unat dev * 2 ^ 15 + unat func * 2 ^ 12 + unat reg
      = unat bus' * 2 ^ 20 + unat dev' * 2 ^ 15 + unat func' * 2 ^ 12 + unat reg'"
    using ecam_addr_offset [of dev func reg base bus] ecam_addr_offset [of dev' func' reg' base bus'] assms by simp
  then have "unat bus = unat bus' \<and> unat dev = unat dev' \<and> unat func = unat func' \<and> unat reg = unat reg'"
    using assms(2-) digits_eq [of "(unat bus * 32 + unat dev) * 8 + unat func" 4096 "unat reg"
        "(unat bus' * 32 + unat dev') * 8 + unat func'" "unat reg'"]
      digits_eq [of "unat bus * 32 + unat dev" 8 "unat func" "unat bus' * 32 + unat dev'" "unat func'"]
      digits_eq [of "unat bus" 32 "unat dev" "unat bus'" "unat dev'"]
    by (simp add: algebra_simps)
  then show ?thesis
    by (simp add: word_unat_eq_iff)
qed

text \<open>A register whose lowest writable bit is \<open>k\<close> and whose low four bits are read-only: the size is
  found, and a register that held an address keeps it.\<close>

lemma bar_size_correct:
  assumes "4 \<le> k" "k < 32" "ro < 16"
    and "\<And>old v. answer old v = (v AND NOT (mask k)) OR ro" "bar = (a AND NOT (mask k)) OR ro"
  shows "bar_size answer bar = (2 ^ k, bar)"
proof -
  have "take_bit 4 ro = ro"
    using assms(3) by (simp add: word_unat_eq_iff unsigned_take_bit_eq take_bit_nat_eq_self_iff word_less_nat_alt)
  then have ro: "bit ro n \<Longrightarrow> n < 4" for n
    by (metis bit_take_bit_iff)
  have low: "(15 :: u32) = mask 4"
    by (simp add: mask_eq_exp_minus_1)
  have "bit ((NOT (mask k) OR ro) AND NOT 15) n = bit (NOT (mask k :: u32)) n" for n
    using assms(1) ro [of n] unfolding low bit_and_iff bit_or_iff bit_not_iff bit_mask_iff by auto
  then have "(NOT (mask k) OR ro) AND NOT 15 = NOT (mask k :: u32)"
    by (simp only: word_bits_eq_iff) simp
  then have "NOT ((NOT (mask k) OR ro) AND NOT 15) + 1 = (2 ^ k :: u32)"
    by (simp add: mask_eq_exp_minus_1)
  moreover have "(bar AND NOT (mask k)) OR ro = bar"
    unfolding assms(5) word_bits_eq_iff by (auto simp: bit_simps)
  moreover have "answer bar 0xFFFFFFFF = NOT (mask k) OR ro"
  proof -
    have "(0xFFFFFFFF :: u32) = - 1"
      by simp
    then show ?thesis
      unfolding assms(4) by (simp only: and.left_neutral)
  qed
  ultimately show ?thesis
    unfolding bar_size_def Let_def assms(4) by simp
qed

section \<open>The sweep finds the functions in order\<close>

text \<open>Reference: the functions of a device that the bus answers for, in ascending order; a device
  whose function 0 is marked as single-function has no other.\<close>

definition funcs_of :: "mem \<Rightarrow> u32 \<Rightarrow> u8 \<Rightarrow> u8 \<Rightarrow> u8 list" where
  "funcs_of m base bus dev =
    filter (\<lambda>f. vendor_of m (ecam_addr base bus dev f 0) \<notin> {0, 0xFFFF})
      (if single_function m (ecam_addr base bus dev 0 0) then [0] else map of_nat [0..<8])"

definition addrs_of_bus :: "mem \<Rightarrow> u32 \<Rightarrow> u8 \<Rightarrow> u32 list" where
  "addrs_of_bus m base bus =
    concat (map (\<lambda>dev. map (\<lambda>f. ecam_addr base bus dev f 0) (funcs_of m base bus dev)) (map of_nat [0..<32]))"

definition present :: "mem \<Rightarrow> u32 \<Rightarrow> u32 list" where
  "present m base =
    (if addrs_of_bus m base 0 = [] then [] else concat (map (addrs_of_bus m base) (map of_nat [0..<256])))"

lemma scan_funcs_other:
  "0 \<notin> set fs \<Longrightarrow> scan_funcs m base bus dev fs st = fold (record_header m)
    (map (\<lambda>f. ecam_addr base bus dev f 0) (filter (\<lambda>f. vendor_of m (ecam_addr base bus dev f 0) \<notin> {0, 0xFFFF}) fs)) st"
  by (induction m base bus dev fs st rule: scan_funcs.induct) (auto simp: Let_def)

lemma scan_funcs_fold:
  "scan_funcs m base bus dev (map of_nat [0..<8]) st
    = fold (record_header m) (map (\<lambda>f. ecam_addr base bus dev f 0) (funcs_of m base bus dev)) st"
proof -
  let ?fs = "map of_nat [Suc 0..<8] :: u8 list"
  have fs: "map of_nat [0..<8] = 0 # ?fs" "0 \<notin> set ?fs"
    by (simp_all add: upt_conv_Cons)
  show ?thesis
    unfolding funcs_of_def fs(1) by (auto simp: Let_def scan_funcs_other [OF fs(2)] simp del: upt_rec_numeral)
qed

lemma scan_devs_fold:
  "scan_devs m base bus devs st = fold (record_header m)
    (concat (map (\<lambda>dev. map (\<lambda>f. ecam_addr base bus dev f 0) (funcs_of m base bus dev)) devs)) st"
  by (induction devs arbitrary: st) (simp_all add: scan_funcs_fold)

lemma scan_bus_fold:
  "scan_devs m base bus (map of_nat [0..<32]) st = fold (record_header m) (addrs_of_bus m base bus) st"
  by (simp add: scan_devs_fold addrs_of_bus_def)

text \<open>What recording a list of headers leaves.\<close>

definition filled :: "mem \<Rightarrow> u32 list \<Rightarrow> PcieHeader list \<Rightarrow> PcieHeader list" where
  "filled m as out = map (\<lambda>i. if i < length as then (out ! i)\<lparr>vendor_device := peek_u32 m (as ! i),
      command_status := peek_u32 m (as ! i + 0x04), class_revision := peek_u32 m (as ! i + 0x08),
      bar0 := peek_u32 m (as ! i + 0x10)\<rparr> else out ! i) [0..<length out]"

lemma length_filled [simp]: "length (filled m as out) = length out"
  by (simp add: filled_def)

lemma record_header_filled:
  assumes "st = (min (length as) (length out), filled m as out)"
  shows "record_header m a st = (min (length (as @ [a])) (length out), filled m (as @ [a]) out)"
  using assms by (auto simp: record_header_def filled_def Let_def nth_append min_def nth_list_update less_Suc_eq
      intro!: nth_equalityI)

lemma fold_record_header:
  "fold (record_header m) bs (min (length as) (length out), filled m as out)
    = (min (length (as @ bs)) (length out), filled m (as @ bs) out)"
proof (induction bs arbitrary: as)
  case (Cons b bs)
  show ?case
    using Cons [of "as @ [b]"] record_header_filled [OF refl, of m b as out] by simp
qed simp

lemma scan_buses_fold:
  assumes "0 \<notin> set buses" "st = (min (length as) (length out), filled m as out)"
  shows "scan_buses m base buses st = (let bs = as @ concat (map (\<lambda>b. addrs_of_bus m base (ucast b)) buses)
      in (min (length bs) (length out), filled m bs out))"
  using assms
proof (induction buses arbitrary: as st)
  case Nil
  then show ?case
    by simp
next
  case (Cons b buses)
  let ?as = "as @ addrs_of_bus m base (ucast b)"
  let ?st = "(min (length ?as) (length out), filled m ?as out)"
  have st: "scan_devs m base (ucast b) (map of_nat [0..<32]) st = ?st"
    unfolding scan_bus_fold Cons.prems(2) by (rule fold_record_header)
  have full: "(min (length (?as @ bs)) (length out), filled m (?as @ bs) out) = ?st"
    if "length out \<le> min (length ?as) (length out)" for bs
    using that by (auto simp: filled_def nth_append)
  show ?case
  proof (cases "length out \<le> length ?as")
    case True
    then show ?thesis
      using full by (simp add: st Let_def)
  next
    case False
    then have "scan_buses m base (b # buses) st = scan_buses m base buses ?st"
      using Cons.prems(1) by (simp add: st Let_def)
    then show ?thesis
      using Cons.IH [of ?st ?as] Cons.prems(1) by (simp add: Let_def)
  qed
qed

lemma enumerate_fold:
  assumes False: "out \<noteq> []"
  shows "enumerate_ecam m base out = (min (length (present m base)) (length out), filled m (present m base) out)"
proof -
  let ?as = "addrs_of_bus m base 0"
  have upt: "[0..<256] = 0 # [Suc 0..<256]"
    by (rule upt_conv_Cons) simp
  then have buses: "map of_nat [0..<256] = (0 :: u16) # map of_nat [Suc 0..<256]"
    by (simp only: list.map of_nat_simps)
  have nz: "(0 :: u16) \<notin> set (map of_nat [Suc 0..<256])"
  proof
    assume "(0 :: u16) \<in> set (map of_nat [Suc 0..<256])"
    then obtain k :: nat where "Suc 0 \<le> k" "k < 256" "of_nat k = (0 :: u16)"
      unfolding set_map set_upt by force
    then show False
      using unat_of_nat [of k, where 'a = 16] by (simp add: take_bit_nat_eq_self)
  qed
  have empty: "filled m [] out = out"
    by (auto simp: filled_def intro!: nth_equalityI)
  have st: "scan_devs m base (ucast (0 :: u16)) (map of_nat [0..<32]) (0, out)
      = (min (length ?as) (length out), filled m ?as out)"
    unfolding scan_bus_fold using fold_record_header [of m ?as "[]" out] by (simp add: empty)
  have rest: "concat (map (addrs_of_bus m base) (map of_nat [0..<256]))
      = ?as @ concat (map (\<lambda>b. addrs_of_bus m base (ucast b)) (map of_nat [Suc 0..<256] :: u16 list))"
  proof -
    have "ucast (of_nat k :: u16) = (of_nat k :: u8)" for k
      by (simp add: word_unat_eq_iff unsigned_ucast_eq unat_of_nat take_bit_eq_mod mod_mod_cancel)
    then show ?thesis
      unfolding upt by (simp only: list.map concat.simps of_nat_simps map_map comp_def)
  qed
  show ?thesis
  proof (cases "?as = []")
    case True
    then show ?thesis
      unfolding enumerate_ecam_def buses scan_buses.simps Let_def st using False
      by (simp add: present_def filled_def)
  next
    case ne: False
    define bs where "bs = concat (map (\<lambda>b. addrs_of_bus m base (ucast b)) (map of_nat [Suc 0..<256] :: u16 list))"
    have pr: "present m base = ?as @ bs"
      unfolding present_def rest bs_def using ne by (rule if_not_P)
    have "enumerate_ecam m base out
        = (if length out \<le> length ?as then (min (length ?as) (length out), filled m ?as out)
           else scan_buses m base (map of_nat [Suc 0..<256]) (min (length ?as) (length out), filled m ?as out))"
      unfolding enumerate_ecam_def buses scan_buses.simps Let_def st using ne False
      by (simp only: fst_conv snd_conv length_filled) auto
    moreover have "filled m (?as @ bs) out = filled m ?as out" if "length out \<le> length ?as"
      using that by (auto simp: filled_def nth_append)
    ultimately show ?thesis
      using scan_buses_fold [OF nz refl, of m base ?as out] unfolding pr bs_def [symmetric] Let_def
      by (simp only: length_append min_def split: if_split) auto
  qed
qed

text \<open>Enumeration finds the functions on the bus in order: with the 32-entry output array, the sweep
  reports as many functions as answer (at most 32), and the first entries of the array hold their
  vendor, command, class and first base address register words, in ascending order of bus, device and
  function number, the other entries being kept. The functions that answer are those with a vendor number
  other than 0 and 0xFFFF, only function 0 being asked on a single-function device; when bus 0 has none, no
  other bus is tried.\<close>

theorem enumerate_ecam_finds:
  assumes "length out = 32" "enumerate_ecam m base out = (found, out')" "as = present m base"
  shows "found = min (length as) 32 \<and> length out' = 32
    \<and> (\<forall>i<found. vendor_device (out' ! i) = peek_u32 m (as ! i)
         \<and> command_status (out' ! i) = peek_u32 m (as ! i + 4)
         \<and> class_revision (out' ! i) = peek_u32 m (as ! i + 8) \<and> bar0 (out' ! i) = peek_u32 m (as ! i + 16))
    \<and> (\<forall>i. found \<le> i \<and> i < 32 \<longrightarrow> out' ! i = out ! i)
    \<and> (\<forall>a\<in>set as. vendor_of m a \<notin> {0, 0xFFFF}
         \<and> (\<exists>bus dev func. a = ecam_addr base bus dev func 0 \<and> unat dev < 32 \<and> unat func < 8))"
proof -
  have "out \<noteq> []"
    using assms(1) by auto
  then have r: "found = min (length as) 32" "out' = filled m as out"
    using enumerate_fold [of out m base] assms by simp_all
  have addr: "vendor_of m a \<notin> {0, 0xFFFF} \<and> (\<exists>bus dev func. a = ecam_addr base bus dev func 0 \<and> unat dev < 32 \<and> unat func < 8)"
    if mem: "a \<in> set (addrs_of_bus m base bus)" for a bus
  proof -
    obtain dev f where a: "dev < 32" "a = ecam_addr base bus (of_nat dev) f 0" "f \<in> set (funcs_of m base bus (of_nat dev))"
      using mem unfolding addrs_of_bus_def by (auto simp del: upt_rec_numeral)
    then have "vendor_of m a \<notin> {0, 0xFFFF}" "f = 0 \<or> (\<exists>k<8. f = of_nat k)"
      by (auto simp: funcs_of_def split: if_splits)
    moreover have "unat (of_nat k :: u8) = k" if "k < 32" for k
      using that by (simp add: unat_of_nat take_bit_nat_eq_self)
    ultimately show ?thesis
      using a(1,2) by fastforce
  qed
  have "set as \<subseteq> (\<Union>bus. set (addrs_of_bus m base bus))"
    unfolding assms(3) present_def set_map set_concat by (auto split: if_splits)
  then show ?thesis
    using addr r assms(1) by (auto simp: filled_def)
qed

theorem enumerate_ecam_finds_witness:
  "fst (enumerate_ecam (\<lambda>a. 0x11) 0x40000000 (replicate 32 \<lparr>vendor_device = 0, command_status = 0,
      class_revision = 0, bist_header_latency_cache = 0, bar0 = 0, bar1 = 0, bar2 = 0, bar3 = 0, bar4 = 0, bar5 = 0\<rparr>)) = 32"
proof -
  let ?m = "\<lambda>a :: u32. 0x11 :: u8"
  let ?out = "replicate 32 \<lparr>vendor_device = 0, command_status = 0,
      class_revision = 0, bist_header_latency_cache = 0, bar0 = 0, bar1 = 0, bar2 = 0, bar3 = 0, bar4 = 0, bar5 = 0\<rparr>"
  have v: "vendor_of ?m a = 0x1111" "single_function ?m a" for a
    by (simp_all add: vendor_of_def single_function_def peek_u32_def)
  have "funcs_of ?m 0x40000000 bus dev = [0]" for bus dev
    by (simp add: funcs_of_def v)
  then have len: "length (addrs_of_bus ?m 0x40000000 bus) = 32" for bus
    by (simp add: addrs_of_bus_def length_concat comp_def sum_list_triv del: upt_rec_numeral)
  have "addrs_of_bus ?m 0x40000000 0 \<noteq> []"
    using len [of 0] by auto
  then have "length (present ?m 0x40000000) = 256 * 32"
    by (auto simp: present_def length_concat comp_def sum_list_triv len simp del: upt_rec_numeral)
  then show ?thesis
    using enumerate_ecam_finds [OF _ _ refl, of ?out ?m "0x40000000" "fst (enumerate_ecam ?m 0x40000000 ?out)"
      "snd (enumerate_ecam ?m 0x40000000 ?out)"] by simp
qed

section \<open>The descriptor ring is a bounded queue\<close>

definition dma_inv :: "AutonomousDmaRing \<Rightarrow> bool" where
  "dma_inv q \<longleftrightarrow> length (descriptors q) = 128 \<and> dma_head q < 128 \<and> dma_tail q < 128"

definition transfer_of :: "DmaDescriptor \<Rightarrow> u64 \<times> u64 \<times> u32" where
  "transfer_of d = (src_addr d, dest_addr d, dma_length d)"

definition dma_contents :: "AutonomousDmaRing \<Rightarrow> (u64 \<times> u64 \<times> u32) list" where
  "dma_contents q = map transfer_of (ring_contents (descriptors q) (dma_head q) (dma_tail q))"

definition dma_push :: "AutonomousDmaRing \<Rightarrow> u64 \<times> u64 \<times> u32 \<Rightarrow> bool \<times> AutonomousDmaRing" where
  "dma_push q t = (case t of (src, dest, len) \<Rightarrow> submit_transfer q src dest len)"

definition dma_pop :: "AutonomousDmaRing \<Rightarrow> (u64 \<times> u64 \<times> u32) option \<times> AutonomousDmaRing" where
  "dma_pop q = map_prod (map_option transfer_of) id (dma_complete q)"

lemmas dma_defs = dma_push_def submit_transfer_def dma_pop_def dma_complete_def dma_contents_def dma_inv_def
  transfer_of_def Let_def

lemma dma_invD:
  assumes "dma_inv q"
  shows "length (descriptors q) = 128" "dma_head q < 128" "dma_tail q < 128"
    "length (dma_contents q) = ring_len 128 (dma_head q) (dma_tail q)"
    "Suc (dma_tail q) mod 128 = dma_head q \<longleftrightarrow> \<not> ring_len 128 (dma_head q) (dma_tail q) < 127"
  using assms ring_full_iff [of "dma_head q" 128 "dma_tail q"] by (simp_all add: dma_inv_def dma_contents_def)

interpretation dma_queue: bounded_fifo dma_push dma_pop dma_inv dma_contents 127
proof unfold_locales
  fix q t assume "dma_inv q"
  note q = dma_invD [OF this]
  note push = ring_contents_push [of "dma_head q" "descriptors q" "dma_tail q"]
  note pop = ring_contents_pop [of "dma_head q" "descriptors q" "dma_tail q"]
    ring_contents_Nil [of "dma_head q" "descriptors q" "dma_tail q"]
  show "fst (dma_push q t) \<longleftrightarrow> length (dma_contents q) < 127"
    using q by (cases t) (simp add: dma_push_def submit_transfer_def Let_def)
  show "dma_contents (snd (dma_push q t)) =
      (if length (dma_contents q) < 127 then dma_contents q @ [t] else dma_contents q)"
    using q push by (cases t) (simp add: dma_defs)
  show "dma_inv (snd (dma_push q t))"
    using q by (cases t) (simp add: dma_defs)
  show "fst (dma_pop q) = (case dma_contents q of [] \<Rightarrow> None | x # xs \<Rightarrow> Some x)"
    using q pop by (auto simp: dma_defs split: list.split)
  show "dma_contents (snd (dma_pop q)) = tl (dma_contents q)"
    using q pop by (auto simp: dma_defs)
  show "dma_inv (snd (dma_pop q))"
    using q by (simp add: dma_defs)
qed

text \<open>The diagnostics: \<open>capacity\<close> counts the free descriptors, and \<open>has_completed\<close> holds while transfers
  are still outstanding.\<close>

lemma dma_diagnostics:
  assumes "dma_inv q"
  shows "capacity q = 127 - length (dma_contents q)" "has_completed q \<longleftrightarrow> dma_contents q \<noteq> []"
    "fst (submit_transfer q src dest len) \<longleftrightarrow> capacity q \<noteq> 0"
proof -
  note q = dma_invD [OF assms]
  show c: "capacity q = 127 - length (dma_contents q)"
    using q(2-4) ring_len_cases [of "dma_head q" 128 "dma_tail q"] by (auto simp: capacity_def mod_if)
  show "has_completed q \<longleftrightarrow> dma_contents q \<noteq> []"
    using q ring_contents_Nil [of "dma_head q" "descriptors q" "dma_tail q"]
    by (auto simp: has_completed_def dma_contents_def)
  show "fst (submit_transfer q src dest len) \<longleftrightarrow> capacity q \<noteq> 0"
    using dma_queue.push_fst [OF assms, of "(src, dest, len)"] unfolding c dma_push_def by auto
qed

end
