(* ===== verification/Drivers.thy ===== *)
theory Drivers
  imports Cap_Registry Memory_Frames
begin

text \<open>
  The smaller peripheral drivers: PWM (\<^verbatim>\<open>src/drivers/pwm.rs\<close>), SPI (\<^verbatim>\<open>src/drivers/spi.rs\<close>), the system
  timer (\<^verbatim>\<open>src/drivers/timer.rs\<close>) and flash programming (\<^verbatim>\<open>src/drivers/flash.rs\<close>).

  The timer and PWM registers hold what is written to them and are part of the byte memory. The
  status and data registers of the SPI change on their own: the words that successive reads of them return are
  inputs. The flash controller reacts to writes (the key sequence, the start bit), so the whole
  device is a parameter with a read and a write function. Busy-waiting loops return \<open>None\<close> when they never end.
\<close>

section \<open>System timer\<close>

definition systick_reload :: "u32 \<Rightarrow> u32 \<Rightarrow> u32" where
  "systick_reload f_cpu_hz delta_ms = (f_cpu_hz div 1000) * delta_ms"

definition STK_CTRL :: u32 where "STK_CTRL = 0xE000E010"
definition STK_LOAD :: u32 where "STK_LOAD = 0xE000E014"
definition STK_VAL :: u32 where "STK_VAL = 0xE000E018"
definition CTRL_BITS :: u32 where "CTRL_BITS = 0x01 OR 0x02 OR 0x04"

definition timer_configure :: "u32 \<Rightarrow> mem \<Rightarrow> mem" where
  "timer_configure ticks m = poke_u32 (poke_u32 (poke_u32 m STK_LOAD ticks) STK_VAL 0) STK_CTRL CTRL_BITS"

lemma timer_configured:
  "peek_u32 (timer_configure ticks m) STK_LOAD = ticks" "peek_u32 (timer_configure ticks m) STK_VAL = 0"
  "peek_u32 (timer_configure ticks m) STK_CTRL = 7"
  by (simp_all add: timer_configure_def STK_LOAD_def STK_VAL_def STK_CTRL_def CTRL_BITS_def peek_poke_other
      no_overlap_def)

text \<open>The tick that the command loop asks for fits the 24 bits of the reload register.\<close>

lemma systick_1ms: "systick_reload 168000000 1 = 168000" "(168000 :: u32) < 2 ^ 24"
  by (simp_all add: systick_reload_def)

section \<open>PWM\<close>

definition TIM2_BASE :: "arch \<Rightarrow> u32" where
  "TIM2_BASE a = (if a = Riscv32 then 0x10015000 else 0x40000000)"

definition pwm_CR1 :: "arch \<Rightarrow> u32" where "pwm_CR1 a = TIM2_BASE a"
definition pwm_DIER :: "arch \<Rightarrow> u32" where "pwm_DIER a = TIM2_BASE a + 0x0C"
definition pwm_SR :: "arch \<Rightarrow> u32" where "pwm_SR a = TIM2_BASE a + 0x10"
definition pwm_PSC :: "arch \<Rightarrow> u32" where "pwm_PSC a = TIM2_BASE a + 0x28"
definition pwm_ARR :: "arch \<Rightarrow> u32" where "pwm_ARR a = TIM2_BASE a + 0x2C"
definition pwm_CCMR1 :: "arch \<Rightarrow> u32" where "pwm_CCMR1 a = TIM2_BASE a + 0x18"
definition pwm_CCER :: "arch \<Rightarrow> u32" where "pwm_CCER a = TIM2_BASE a + 0x20"
definition pwm_CCR1 :: "arch \<Rightarrow> u32" where "pwm_CCR1 a = TIM2_BASE a + 0x34"
definition APB1ENR :: u32 where "APB1ENR = 0x40023800 + 0x40"
definition TIM2EN :: u32 where "TIM2EN = push_bit 0 1"

definition pwm_enable_clock :: "arch \<Rightarrow> mem \<Rightarrow> mem" where
  "pwm_enable_clock a m = (if a = Riscv32 then m else poke_u32 m APB1ENR (peek_u32 m APB1ENR OR TIM2EN))"

definition pwm_configure :: "arch \<Rightarrow> u32 \<Rightarrow> u32 \<Rightarrow> mem \<Rightarrow> (u32 \<times> u32) \<times> mem" where
  "pwm_configure a period_ticks duty_ticks m =
    (let m0 = pwm_enable_clock a m;
         m1 = poke_u32 m0 (pwm_CR1 a) 0;
         m2 = poke_u32 m1 (pwm_PSC a) 0;
         m3 = poke_u32 m2 (pwm_ARR a) period_ticks;
         ccmr = peek_u32 m3 (pwm_CCMR1 a);
         m4 = poke_u32 m3 (pwm_CCMR1 a) ((ccmr AND NOT 0x7F) OR push_bit 4 6);
         ccer = peek_u32 m4 (pwm_CCER a);
         m5 = poke_u32 m4 (pwm_CCER a) (ccer OR push_bit 0 1);
         m6 = poke_u32 m5 (pwm_CCR1 a) duty_ticks;
         m7 = poke_u32 m6 (pwm_CR1 a) 1
     in ((period_ticks, duty_ticks), m7))"

definition pwm_set_duty :: "arch \<Rightarrow> u32 \<Rightarrow> mem \<Rightarrow> mem" where
  "pwm_set_duty a duty_ticks m = poke_u32 m (pwm_CCR1 a) duty_ticks"

definition pwm_snapshot :: "arch \<Rightarrow> mem \<Rightarrow> u32 \<times> u32 \<times> u32" where
  "pwm_snapshot a m = (peek_u32 m (pwm_ARR a), peek_u32 m (pwm_CCR1 a), peek_u32 m (pwm_CR1 a))"

lemmas pwm_regs = pwm_CR1_def pwm_DIER_def pwm_SR_def pwm_PSC_def pwm_ARR_def pwm_CCMR1_def pwm_CCER_def
  pwm_CCR1_def TIM2_BASE_def APB1ENR_def

lemma pwm_enable_clock_other:
  "r \<in> {pwm_CR1 a, pwm_PSC a, pwm_ARR a, pwm_CCMR1 a, pwm_CCER a, pwm_CCR1 a} \<Longrightarrow>
    peek_u32 (pwm_enable_clock a m) r = peek_u32 m r"
  by (auto simp: pwm_enable_clock_def pwm_regs peek_poke_other no_overlap_def)

text \<open>After a configuration the registers read back: period, duty cycle, the counter enabled; the mode
  bits select PWM mode 1 and the other bits of the mode and output registers are kept.\<close>

lemma pwm_configured:
  assumes "pwm_configure a p d m = (r, m')"
  shows "r = (p, d)" "pwm_snapshot a m' = (p, d, 1)" "peek_u32 m' (pwm_PSC a) = 0"
    "peek_u32 m' (pwm_CCMR1 a) = (peek_u32 m (pwm_CCMR1 a) AND NOT 0x7F) OR 0x60"
    "peek_u32 m' (pwm_CCER a) = peek_u32 m (pwm_CCER a) OR 1"
proof -
  have ov: "no_overlap (pwm_CR1 a) (pwm_PSC a)" "no_overlap (pwm_CR1 a) (pwm_ARR a)" "no_overlap (pwm_CR1 a) (pwm_CCMR1 a)"
    "no_overlap (pwm_CR1 a) (pwm_CCER a)" "no_overlap (pwm_CR1 a) (pwm_CCR1 a)" "no_overlap (pwm_PSC a) (pwm_ARR a)"
    "no_overlap (pwm_PSC a) (pwm_CCMR1 a)" "no_overlap (pwm_PSC a) (pwm_CCER a)" "no_overlap (pwm_PSC a) (pwm_CCR1 a)"
    "no_overlap (pwm_ARR a) (pwm_CCMR1 a)" "no_overlap (pwm_ARR a) (pwm_CCER a)" "no_overlap (pwm_ARR a) (pwm_CCR1 a)"
    "no_overlap (pwm_CCMR1 a) (pwm_CCER a)" "no_overlap (pwm_CCMR1 a) (pwm_CCR1 a)" "no_overlap (pwm_CCER a) (pwm_CCR1 a)"
    by (simp_all add: pwm_regs no_overlap_def)
  note ov' = ov ov [THEN no_overlap_sym [THEN iffD1]]
  note keep = peek_poke_other [OF ov'(1)] peek_poke_other
  show "r = (p, d)"
    using assms by (simp add: pwm_configure_def Let_def)
  show "pwm_snapshot a m' = (p, d, 1)" "peek_u32 m' (pwm_PSC a) = 0"
    "peek_u32 m' (pwm_CCMR1 a) = (peek_u32 m (pwm_CCMR1 a) AND NOT 0x7F) OR 0x60"
    "peek_u32 m' (pwm_CCER a) = peek_u32 m (pwm_CCER a) OR 1"
    using assms by (auto simp: pwm_configure_def Let_def pwm_snapshot_def peek_poke_other ov' pwm_enable_clock_other)
qed

lemma pwm_duty_updated:
  "pwm_snapshot a (pwm_set_duty a d m) = (peek_u32 m (pwm_ARR a), d, peek_u32 m (pwm_CR1 a))"
  by (simp add: pwm_snapshot_def pwm_set_duty_def pwm_regs peek_poke_other no_overlap_def)

section \<open>SPI\<close>

definition SPI1_BASE :: "arch \<Rightarrow> u32" where
  "SPI1_BASE a = (if a = Riscv32 then 0x10014000 else 0x40013000)"

definition spi_CTRL :: u32 where "spi_CTRL = SPI1_BASE Riscv32"
definition spi_TXDATA :: u32 where "spi_TXDATA = SPI1_BASE Riscv32 + 0x18"
definition spi_RXDATA :: u32 where "spi_RXDATA = SPI1_BASE Riscv32 + 0x20"
definition spi_CR1 :: u32 where "spi_CR1 = SPI1_BASE Arm"
definition spi_SR :: u32 where "spi_SR = SPI1_BASE Arm + 0x08"
definition spi_DR :: u32 where "spi_DR = SPI1_BASE Arm + 0x0C"
definition APB2ENR :: u32 where "APB2ENR = 0x40023800 + 0x44"
definition SPI1EN :: u32 where "SPI1EN = push_bit 12 1"
definition spi_SR_TXE :: u32 where "spi_SR_TXE = push_bit 1 1"
definition spi_SR_RXNE :: u32 where "spi_SR_RXNE = push_bit 0 1"

definition spi_enable_clock :: "arch \<Rightarrow> mem \<Rightarrow> mem" where
  "spi_enable_clock a m = (if a = Riscv32 then m else poke_u32 m APB2ENR (peek_u32 m APB2ENR OR SPI1EN))"

definition spi_configure :: "arch \<Rightarrow> u8 \<Rightarrow> mem \<Rightarrow> mem" where
  "spi_configure a br_div_log2 m =
    (let m0 = spi_enable_clock a m
     in if a = Riscv32 then poke_u32 m0 spi_CTRL (push_bit 16 (ucast br_div_log2 AND 7))
        else
          (let cr1 = push_bit 2 1 OR push_bit 3 (ucast br_div_log2 AND 7);
               m1 = poke_u32 m0 spi_CR1 cr1
           in poke_u32 m1 spi_CR1 (cr1 OR push_bit 6 1)))"

text \<open>Busy waiting on successive reads \<open>reg t\<close>, \<open>reg (t + 1)\<close>, ... until the read satisfies \<open>p\<close>; the result is
  the index of the next read.\<close>

partial_function (option) spin_until :: "(nat \<Rightarrow> u32) \<Rightarrow> (u32 \<Rightarrow> bool) \<Rightarrow> nat \<Rightarrow> nat option" where
  "spin_until reg p t = (if \<not> p (reg t) then spin_until reg p (t + 1) else Some (t + 1))"

text \<open>The inputs are the reads of the status and of the receive register, by the number of the read; the
  result has the received byte, the number of reads and the memory.\<close>

definition spi_transfer_byte ::
    "arch \<Rightarrow> (nat \<Rightarrow> u32) \<Rightarrow> (nat \<Rightarrow> u32) \<Rightarrow> nat \<Rightarrow> mem \<Rightarrow> u8 \<Rightarrow> (u8 \<times> nat \<times> mem) option" where
  "spi_transfer_byte a sr rx t m byte =
    (if a = Riscv32 then
       (let m1 = poke_u32 m spi_TXDATA (ucast byte)
        in case spin_until rx (\<lambda>w. w AND push_bit 31 1 = 0) t of
             None \<Rightarrow> None
           | Some t' \<Rightarrow> Some (ucast (rx (t' - 1) AND 0xFF), t', m1))
     else
       (case spin_until sr (\<lambda>w. w AND spi_SR_TXE \<noteq> 0) t of
          None \<Rightarrow> None
        | Some t1 \<Rightarrow>
            (let m1 = poke_u32 m spi_DR (ucast byte)
             in case spin_until sr (\<lambda>w. w AND spi_SR_RXNE \<noteq> 0) t1 of
                  None \<Rightarrow> None
                | Some t2 \<Rightarrow> Some (ucast (rx t2 AND 0xFF), t2, m1))))"

definition spi_snapshot :: "arch \<Rightarrow> u32 \<Rightarrow> mem \<Rightarrow> u32 \<times> u32" where
  "spi_snapshot a sr m =
    (if a = Riscv32 then (peek_u32 m spi_CTRL, peek_u32 m spi_TXDATA) else (peek_u32 m spi_CR1, sr))"

text \<open>A wait ends exactly if some read satisfies the condition, with the first one that does.\<close>

lemma spin_until_least: "p (reg k) \<Longrightarrow> t \<le> k \<Longrightarrow> (\<And>j. t \<le> j \<Longrightarrow> j < k \<Longrightarrow> \<not> p (reg j)) \<Longrightarrow> spin_until reg p t = Some (k + 1)"
proof (induction "k - t" arbitrary: t)
  case 0
  then show ?case
    by (subst spin_until.simps) simp
next
  case (Suc n)
  then have "\<not> p (reg t)" "spin_until reg p (t + 1) = Some (k + 1)"
    by (simp_all add: Suc_le_eq)
  then show ?case
    by (subst spin_until.simps) simp
qed

text \<open>A transfer completes when the device becomes ready, and sends the byte.\<close>

lemma spi_transfer_arm:
  assumes "t \<le> k1" "sr k1 AND spi_SR_TXE \<noteq> 0" "\<And>j. t \<le> j \<Longrightarrow> j < k1 \<Longrightarrow> sr j AND spi_SR_TXE = 0"
    and "k1 < k2" "sr k2 AND spi_SR_RXNE \<noteq> 0" "\<And>j. k1 < j \<Longrightarrow> j < k2 \<Longrightarrow> sr j AND spi_SR_RXNE = 0"
  shows "spi_transfer_byte Arm sr rx t m b = Some (ucast (rx (k2 + 1) AND 0xFF), k2 + 1, poke_u32 m spi_DR (ucast b))"
proof -
  have "spin_until sr (\<lambda>w. w AND spi_SR_TXE \<noteq> 0) t = Some (k1 + 1)"
    using assms(1-3) by (intro spin_until_least) auto
  moreover have "spin_until sr (\<lambda>w. w AND spi_SR_RXNE \<noteq> 0) (k1 + 1) = Some (k2 + 1)"
    using assms(4-6) by (intro spin_until_least) auto
  ultimately show ?thesis
    by (simp add: spi_transfer_byte_def)
qed

section \<open>Flash\<close>

definition FLASH_BASE :: u32 where "FLASH_BASE = 0x08000000"
definition STORE_BASE :: u32 where "STORE_BASE = FLASH_BASE + 0x1C000"
definition flash_KEYR :: u32 where "flash_KEYR = 0x40023C04"
definition flash_SR :: u32 where "flash_SR = 0x40023C0C"
definition flash_CR :: u32 where "flash_CR = 0x40023C10"
definition KEY1 :: u32 where "KEY1 = 0x45670123"
definition KEY2 :: u32 where "KEY2 = 0xCDEF89AB"
definition CR_LOCK :: u32 where "CR_LOCK = push_bit 31 1"
definition CR_PG :: u32 where "CR_PG = push_bit 0 1"
definition CR_SER :: u32 where "CR_SER = push_bit 1 1"
definition CR_STRT :: u32 where "CR_STRT = push_bit 16 1"
definition flash_SR_BSY :: u32 where "flash_SR_BSY = push_bit 16 1"

text \<open>The device: what a read of an address returns, and how accesses change it.\<close>

record 'f flash_dev =
  fd_read :: "'f \<Rightarrow> u32 \<Rightarrow> u32 \<times> 'f"
  fd_write :: "'f \<Rightarrow> u32 \<Rightarrow> u32 \<Rightarrow> 'f"

partial_function (option) wait_not_busy :: "'f flash_dev \<Rightarrow> 'f \<Rightarrow> 'f option" where
  "wait_not_busy D f =
    (case fd_read D f flash_SR of (v, f') \<Rightarrow> if v AND flash_SR_BSY \<noteq> 0 then wait_not_busy D f' else Some f')"

definition flash_unlock :: "'f flash_dev \<Rightarrow> 'f \<Rightarrow> 'f" where
  "flash_unlock D f =
    (let (v, f1) = fd_read D f flash_CR
     in if v AND CR_LOCK \<noteq> 0 then fd_write D (fd_write D f1 flash_KEYR KEY1) flash_KEYR KEY2 else f1)"

definition flash_lock :: "'f flash_dev \<Rightarrow> 'f \<Rightarrow> 'f" where
  "flash_lock D f = (let (v, f1) = fd_read D f flash_CR in fd_write D f1 flash_CR (v OR CR_LOCK))"

definition erase_store_sector :: "'f flash_dev \<Rightarrow> 'f \<Rightarrow> u8 \<Rightarrow> (bool \<times> 'f) option" where
  "erase_store_sector D f sector_index =
    (case wait_not_busy D (flash_unlock D f) of
       None \<Rightarrow> None
     | Some f1 \<Rightarrow>
         (let (cr, f2) = fd_read D f1 flash_CR;
              f3 = fd_write D f2 flash_CR
                ((cr AND NOT (push_bit 3 0xF)) OR CR_SER OR push_bit 3 (ucast sector_index AND 0xF));
              (v, f4) = fd_read D f3 flash_CR;
              f5 = fd_write D f4 flash_CR (v OR CR_STRT)
          in case wait_not_busy D f5 of
               None \<Rightarrow> None
             | Some f6 \<Rightarrow>
                 (let (sr, f7) = fd_read D f6 flash_SR;
                      ok = (sr AND (push_bit 4 1 OR push_bit 5 1) = 0)
                  in Some (ok, fd_write D f7 flash_CR (cr AND NOT CR_SER)))))"

definition program_word :: "'f flash_dev \<Rightarrow> 'f \<Rightarrow> u32 \<Rightarrow> u32 \<Rightarrow> 'f option" where
  "program_word D f byte_off word =
    (case wait_not_busy D (flash_unlock D f) of
       None \<Rightarrow> None
     | Some f1 \<Rightarrow>
         (let (v, f2) = fd_read D f1 flash_CR;
              f3 = fd_write D f2 flash_CR (v OR CR_PG);
              f4 = fd_write D f3 (STORE_BASE + byte_off) word
          in case wait_not_busy D f4 of
               None \<Rightarrow> None
             | Some f5 \<Rightarrow>
                 (let (v', f6) = fd_read D f5 flash_CR in Some (fd_write D f6 flash_CR (v' AND NOT CR_PG)))))"

definition flash_self_test :: "'f flash_dev \<Rightarrow> 'f \<Rightarrow> (bool \<times> 'f) option" where
  "flash_self_test D f =
    (case erase_store_sector D (flash_unlock D f) 11 of
       None \<Rightarrow> None
     | Some (_, f1) \<Rightarrow>
         (case program_word D f1 0 0xCAFEF00D of
            None \<Rightarrow> None
          | Some f2 \<Rightarrow>
              (let (v, f3) = fd_read D f2 STORE_BASE; f4 = flash_lock D f3 in Some (v = 0xCAFEF00D, f4))))"

section \<open>Which addresses the drivers write\<close>

lemma word_bytes: "c - r \<in> {0, 1, 2, 3} \<Longrightarrow> c \<in> {r, r + 1, r + 2, r + 3}" for c r :: u32
  by (auto simp: diff_eq_eq)

lemma timer_bytes:
  assumes "a = Arm \<or> a = Riscv32" "c - r \<in> {0, 1, 2, 3}"
    and "r \<in> {pwm_CR1 a, pwm_PSC a, pwm_ARR a, pwm_CCMR1 a, pwm_CCER a, pwm_CCR1 a}"
  shows "addr_to_cap_id a c = Some Timer0"
  using assms(1,3) word_bytes [OF assms(2)]
  by (auto simp: pwm_regs addr_to_cap_id_def arm_addr_to_cap_def riscv_addr_to_cap_def within_def)

lemma spi_bytes:
  assumes "c - r \<in> {0, 1, 2, 3}" "a = Arm \<and> r \<in> {spi_CR1, spi_DR} \<or> a = Riscv32 \<and> r \<in> {spi_CTRL, spi_TXDATA}"
  shows "addr_to_cap_id a c = Some Spi0"
  using assms(2) word_bytes [OF assms(1)]
  by (auto simp: spi_CR1_def spi_DR_def spi_CTRL_def spi_TXDATA_def SPI1_BASE_def addr_to_cap_id_def
      arm_addr_to_cap_def riscv_addr_to_cap_def within_def)

lemma pwm_configure_bytes:
  assumes "\<forall>r\<in>{pwm_CR1 a, pwm_PSC a, pwm_ARR a, pwm_CCMR1 a, pwm_CCER a, pwm_CCR1 a}. c - r \<notin> {0, 1, 2, 3}"
    and "a = Riscv32 \<or> c - APB1ENR \<notin> {0, 1, 2, 3}"
  shows "snd (pwm_configure a p d m) c = m c"
  using assms by (auto simp: pwm_configure_def pwm_enable_clock_def Let_def poke_u32_byte)

lemma spi_transfer_mem:
  "spi_transfer_byte a sr rx t m x = Some (rxb, t', m') \<Longrightarrow>
    m' = poke_u32 m (if a = Riscv32 then spi_TXDATA else spi_DR) (ucast x)"
  by (auto simp: spi_transfer_byte_def Let_def split: if_splits option.splits)

text \<open>A driver only writes registers of the peripheral whose capability the language asks for, apart
  from the clock gates: every byte that \<open>pwm_configure\<close> and \<open>pwm_set_duty\<close> change belongs to the timer, and
  every byte that an SPI configuration or transfer changes to the SPI. The exceptions, on ARM, are the
  words of the clock control that the set-up functions write, which belong to no capability and which the
  registry denies to everybody but the superuser.\<close>

theorem driver_writes_guarded:
  assumes "a = Arm \<or> a = Riscv32"
  shows "(\<forall>c. snd (pwm_configure a p d m) c \<noteq> m c \<longrightarrow>
        addr_to_cap_id a c = Some Timer0 \<or> a = Arm \<and> c - APB1ENR \<in> {0, 1, 2, 3})
    \<and> (\<forall>c. pwm_set_duty a d m c \<noteq> m c \<longrightarrow> addr_to_cap_id a c = Some Timer0)
    \<and> (\<forall>c. spi_configure a b m c \<noteq> m c \<longrightarrow>
        addr_to_cap_id a c = Some Spi0 \<or> a = Arm \<and> c - APB2ENR \<in> {0, 1, 2, 3})
    \<and> (\<forall>c rxb t' m'. spi_transfer_byte a sr rx t m x = Some (rxb, t', m') \<and> m' c \<noteq> m c \<longrightarrow>
        addr_to_cap_id a c = Some Spi0)
    \<and> check_access Arm REGISTRY_BITS APB1ENR = Inl SuperUser \<and> check_access Arm REGISTRY_BITS APB2ENR = Inl SuperUser"
proof -
  let ?t = "{pwm_CR1 a, pwm_PSC a, pwm_ARR a, pwm_CCMR1 a, pwm_CCER a, pwm_CCR1 a}"
  have "addr_to_cap_id a c = Some Timer0 \<or> a = Arm \<and> c - APB1ENR \<in> {0, 1, 2, 3}"
    if "snd (pwm_configure a p d m) c \<noteq> m c" for c
    using pwm_configure_bytes [of a c p d m] that timer_bytes [OF assms, of c] assms by fast
  moreover have "addr_to_cap_id a c = Some Timer0" if "pwm_set_duty a d m c \<noteq> m c" for c
  proof -
    have "c - pwm_CCR1 a \<in> {0, 1, 2, 3}"
      using that poke_u32_byte [of c "pwm_CCR1 a" m d] unfolding pwm_set_duty_def by blast
    then show ?thesis
      by (rule timer_bytes [OF assms]) simp
  qed
  moreover have "addr_to_cap_id a c = Some Spi0 \<or> a = Arm \<and> c - APB2ENR \<in> {0, 1, 2, 3}"
    if "spi_configure a b m c \<noteq> m c" for c
  proof (rule ccontr)
    assume "\<not> ?thesis"
    then have "a = Riscv32 \<and> c - spi_CTRL \<notin> {0, 1, 2, 3} \<or> a = Arm \<and> c - spi_CR1 \<notin> {0, 1, 2, 3} \<and> c - APB2ENR \<notin> {0, 1, 2, 3}"
      using assms spi_bytes [of c _ a] by blast
    then have "spi_configure a b m c = m c"
      by (auto simp: spi_configure_def spi_enable_clock_def Let_def poke_u32_byte)
    with that show False
      by simp
  qed
  moreover have "addr_to_cap_id a c = Some Spi0"
    if "spi_transfer_byte a sr rx t m x = Some (rxb, t', m') \<and> m' c \<noteq> m c" for c rxb t' m'
  proof -
    have "c - (if a = Riscv32 then spi_TXDATA else spi_DR) \<in> {0, 1, 2, 3}"
      using that spi_transfer_mem [of a sr rx t m x rxb t' m'] poke_u32_byte [of c _ m "ucast x"] by blast
    then show ?thesis
      using assms by (intro spi_bytes) auto
  qed
  moreover have "check_access Arm REGISTRY_BITS APB1ENR = Inl SuperUser" "check_access Arm REGISTRY_BITS APB2ENR = Inl SuperUser"
    unfolding APB1ENR_def APB2ENR_def by code_simp+
  ultimately show ?thesis
    by blast
qed

theorem driver_writes_guarded_witness:
  "snd (pwm_configure Arm 1000 250 (\<lambda>c. 0)) 0x4000002D = 3
   \<and> addr_to_cap_id Arm 0x4000002D = Some Timer0"
proof -
  have "snd (pwm_configure Arm 1000 250 (\<lambda>c. 0)) 0x4000002D = 3"
    by code_simp
  moreover have "addr_to_cap_id Arm 0x4000002D = Some Timer0"
    using calculation driver_writes_guarded [of Arm 1000 250 "\<lambda>c. 0" 0 "\<lambda>t. 0" "\<lambda>t. 0" 0 0,
        THEN conjunct1, THEN spec [of _ "0x4000002D"]]
    by (simp add: APB1ENR_def)
  ultimately show ?thesis
    by blast
qed

end
