(* ===== verification/Repl.thy ===== *)
theory Repl
  imports Parser_Safety Native Uart Kernel_Memory Cap_Tokens Pool Pstore Multitask Drivers Bench
begin

text \<open>
  The interactive command loop, \<^verbatim>\<open>src/drivers/repl.rs\<close>, which is the program's main loop: it reads bytes
  from the console into a line, compiles the line, executes the outcome and prints a result.

  The statics of all components are one record \<open>System\<close>; the memory is the one of the task
  machine. What the hardware and the linker determine is a record \<open>World\<close>: the words that reads of device
  registers return, the cycle counter (as seen by the audit log and by the benchmark), the placement of
  the primitives and of the memory regions, and the flash controller. An action is a function from states to an optional
  state; \<open>None\<close> means that it does not return (a device that never becomes ready, or a fault).
\<close>

section \<open>State\<close>

definition LINE_MAX :: nat where "LINE_MAX = 128"

datatype State = Idle | Reading | Evaluating | Printing

record 'f World =
  w_arch :: arch
  w_uart_sr :: "nat \<Rightarrow> u32"
  w_word :: "prim \<Rightarrow> u32"
  w_cycles :: "nat \<Rightarrow> u32"
  w_regs :: "u8 \<Rightarrow> u32"
  w_stacks :: "nat \<Rightarrow> u32"
  w_bodies :: "nat \<Rightarrow> u32"
  w_pool_base :: u32
  w_pstore_base :: u32
  w_pstore_top :: u32
  w_spi_sr :: "nat \<Rightarrow> u32"
  w_spi_rx :: "nat \<Rightarrow> u32"
  w_flash :: "'f flash_dev"
  w_counter :: "nat \<Rightarrow> u32"

record 'f System =
  s_line_buf :: string
  s_line_len :: nat
  s_compiler :: Compiler
  s_reg :: registry
  s_audit :: AuditLog
  s_machine :: Machine
  s_vm :: VM
  s_pool :: offsets
  s_spi_reads :: nat
  s_flash :: 'f
  s_readings :: nat
  s_con :: Console

definition s_mem :: "'f System \<Rightarrow> mem" where
  "s_mem s = mmem (s_machine s)"

definition set_mem :: "mem \<Rightarrow> 'f System \<Rightarrow> 'f System" where
  "set_mem m s = s\<lparr>s_machine := (s_machine s)\<lparr>mmem := m\<rparr>\<rparr>"

definition env_of :: "'f World \<Rightarrow> 'f System \<Rightarrow> Env" where
  "env_of W s = \<lparr>env_arch = w_arch W, env_reg = s_reg s, env_mem = s_mem s, env_word = w_word W\<rparr>"

text \<open>Actions in sequence.\<close>

fun seq :: "('s \<Rightarrow> 's option) list \<Rightarrow> 's \<Rightarrow> 's option" where
  "seq [] s = Some s"
| "seq (a # as) s = (case a s of None \<Rightarrow> None | Some s' \<Rightarrow> seq as s')"

text \<open>The console functions, on the console of the system.\<close>

definition on_con :: "(Console \<Rightarrow> Console option) \<Rightarrow> 'f System \<Rightarrow> 'f System option" where
  "on_con f s = (case f (s_con s) of None \<Rightarrow> None | Some c \<Rightarrow> Some (s\<lparr>s_con := c\<rparr>))"

definition puts :: "'f World \<Rightarrow> string \<Rightarrow> 'f System \<Rightarrow> 'f System option" where
  "puts W t = on_con (\<lambda>c. write_str (w_arch W) (w_uart_sr W) c t)"

definition puts_line :: "'f World \<Rightarrow> string \<Rightarrow> 'f System \<Rightarrow> 'f System option" where
  "puts_line W t = on_con (\<lambda>c. write_line (w_arch W) (w_uart_sr W) c t)"

definition puts_hex :: "'f World \<Rightarrow> u32 \<Rightarrow> 'f System \<Rightarrow> 'f System option" where
  "puts_hex W v = on_con (\<lambda>c. write_hex_u32 (w_arch W) (w_uart_sr W) c v)"

definition puts_dec :: "'f World \<Rightarrow> u32 \<Rightarrow> 'f System \<Rightarrow> 'f System option" where
  "puts_dec W v = on_con (\<lambda>c. write_dec_u32 (w_arch W) (w_uart_sr W) c v)"

definition puts_line_u32 :: "'f World \<Rightarrow> u32 \<Rightarrow> 'f System \<Rightarrow> 'f System option" where
  "puts_line_u32 W v = on_con (\<lambda>c. write_line_u32 (w_arch W) (w_uart_sr W) c v)"

definition crlf :: string where "crlf = [CHR 0x0D, CHR 0x0A]"
definition lf :: string where "lf = [CHR 0x0A]"

definition prompt :: "'f World \<Rightarrow> 'f System \<Rightarrow> 'f System option" where
  "prompt W = puts W ''holy> ''"

section \<open>Line editing\<close>

definition erase_char :: string where
  "erase_char = [CHR 0x08, CHR '' '', CHR 0x08]"

definition feed :: "'f World \<Rightarrow> char \<Rightarrow> 'f System \<Rightarrow> (State \<times> 'f System) option" where
  "feed W byte0 s =
    (let byte = (if byte0 = CHR 0x09 then CHR '' '' else byte0); len = s_line_len s
     in if byte = CHR 0x0D \<or> byte = CHR 0x0A then
          map_option (Pair Evaluating) (puts W crlf s)
        else if byte = CHR 0x08 \<or> byte = CHR 0x7F then
          (if len > 0 then map_option (Pair Reading) (puts W erase_char (s\<lparr>s_line_len := len - 1\<rparr>))
           else Some (Reading, s))
        else if byte = CHR 0x15 then
          (case seq (replicate len (puts W erase_char)) s of
             None \<Rightarrow> None
           | Some s' \<Rightarrow> Some (Reading, s'\<lparr>s_line_len := 0\<rparr>))
        else if byte = CHR 0x03 then
          map_option (Pair Idle) (seq [puts W (''^C'' @ crlf), prompt W] (s\<lparr>s_line_len := 0\<rparr>))
        else if in_range (CHR 0x20) (CHR 0x7E) byte then
          (if len < LINE_MAX then
             map_option (Pair Reading) (on_con (\<lambda>c. put_byte (w_arch W) (w_uart_sr W) c byte)
               (s\<lparr>s_line_buf := (s_line_buf s)[len := byte], s_line_len := len + 1\<rparr>))
           else Some (Reading, s))
        else Some (Reading, s))"

definition take_line :: "'f System \<Rightarrow> string \<times> 'f System" where
  "take_line s = (take (s_line_len s) (s_line_buf s), s\<lparr>s_line_len := 0\<rparr>)"

text \<open>The outer option is running out of fuel, which does not happen; the inner one is the empty line.\<close>

definition compile :: "'f World \<Rightarrow> string \<Rightarrow> 'f System \<Rightarrow> ((ParseError + Outcome) option \<times> 'f System) option" where
  "compile W line s =
    (if line = [] then Some (None, s)
     else
       (case parse (env_of W s) line (s_compiler s) of
          None \<Rightarrow> None
        | Some (r, c) \<Rightarrow> Some (Some r, s\<lparr>s_compiler := c\<rparr>)))"

fun error_text :: "ParseError \<Rightarrow> string" where
  "error_text (LexError _) = ''LEX'' @ lf"
| "error_text UnexpectedToken = ''UNEXPECTED TOKEN'' @ lf"
| "error_text (UnsupportedOperator _) = ''UNSUPPORTED OPERATOR'' @ lf"
| "error_text UnknownSymbol = ''UNKNOWN SYMBOL'' @ lf"
| "error_text DuplicateFn = ''FN REDEFINED'' @ lf"
| "error_text SymbolTableFull = ''SYMBOL TABLE FULL'' @ lf"
| "error_text FnTableFull = ''FN TABLE FULL'' @ lf"
| "error_text StreamFull = ''STREAM FULL'' @ lf"
| "error_text NameTooLong = ''NAME TOO LONG'' @ lf"
| "error_text DivByZero = ''DIV BY ZERO'' @ lf"
| "error_text MissingSemicolon = ''MISSING SEMICOLON'' @ lf"
| "error_text EmptyLine = lf"
| "error_text CapabilityViolationP = ''E001: CAPABILITY_VIOLATION - Peripheral token not claimed'' @ lf"
| "error_text LoopTooLarge = ''LOOP TOO LARGE (max 64 unroll)'' @ lf"

section \<open>Executing an outcome\<close>

text \<open>\<open>StreamProgram::run\<close>: machine code first, the threaded engine if the stream cannot be translated.
  The native module exists on the two targets only.\<close>

definition run_native :: "'f World \<Rightarrow> StreamProgram \<Rightarrow> mem \<Rightarrow> native_error + (u32 option \<times> mem)" where
  "run_native W p m =
    (case w_arch W of
       Arm \<Rightarrow> compile_and_run arm_target (w_word W) (sp_words p) (sp_len p) (sp_yields_value p) (w_regs W, m)
     | Riscv32 \<Rightarrow> compile_and_run riscv_target (w_word W) (sp_words p) (sp_len p) (sp_yields_value p) (w_regs W, m)
     | Host \<Rightarrow> Inl NotCompilable)"

definition run_result :: "StreamProgram \<Rightarrow> VM \<Rightarrow> u32 option \<times> VM" where
  "run_result p vm = (if sp_yields_value p then (let (v, vm') = vm_pop vm in (Some v, vm')) else (None, vm))"

definition program_run :: "'f World \<Rightarrow> StreamProgram \<Rightarrow> VM \<Rightarrow> (u32 option \<times> VM) option" where
  "program_run W p vm =
    (let vm0 = vm_reset vm
     in if sp_len p > 0 then
          (case run_native W p (vm_mem vm0) of
             Inr (r, m) \<Rightarrow> Some (r, vm0\<lparr>vm_mem := m\<rparr>)
           | Inl NotCompilable \<Rightarrow>
               (case run_threaded_stream (w_word W) (sp_words p) 0 vm0 of
                  None \<Rightarrow> None
                | Some vm1 \<Rightarrow> Some (run_result p vm1))
           | Inl _ \<Rightarrow> None)
        else Some (run_result p vm0))"

definition write_value :: "'f World \<Rightarrow> u32 \<Rightarrow> 'f System \<Rightarrow> 'f System option" where
  "write_value W v = seq [puts_hex W v, puts W '' ('', puts_dec W v, puts_line W '')'']"

definition do_claim :: "'f World \<Rightarrow> NameBuf \<Rightarrow> 'f System \<Rightarrow> 'f System option" where
  "do_claim W name s =
    (case resolve_name (as_slice name) of
       Some cid \<Rightarrow>
         (let (ok, r) = acquire (s_reg s) (unat cid); s1 = s\<lparr>s_reg := r\<rparr>
          in if ok then seq [puts W ''CAP CLAIMED '', puts W (as_slice name), puts W '' id='', puts_dec W (ucast cid), puts W lf] s1
             else seq [puts W ''CAP BUSY '', puts_line W (as_slice name)] s1)
     | None \<Rightarrow> seq [puts W ''ERR UNKNOWN RESOURCE '', puts_line W (as_slice name)] s)"

definition do_drop :: "'f World \<Rightarrow> NameBuf \<Rightarrow> 'f System \<Rightarrow> 'f System option" where
  "do_drop W name s =
    (case resolve_name (as_slice name) of
       Some cid \<Rightarrow>
         (if available (s_reg s) (unat cid) then seq [puts W ''CAP NOT HELD '', puts_line W (as_slice name)] s
          else seq [puts W ''CAP RELEASED '', puts_line W (as_slice name)] (s\<lparr>s_reg := release (s_reg s) (unat cid)\<rparr>))
     | None \<Rightarrow> seq [puts W ''ERR UNKNOWN RESOURCE '', puts_line W (as_slice name)] s)"

definition audit_line :: "'f World \<Rightarrow> AuditEntry \<Rightarrow> 'f System \<Rightarrow> 'f System option" where
  "audit_line W e =
    (if ae_addr e \<noteq> 0 then
       seq [puts W ''ADDR: '', puts_hex W (ae_addr e), puts W '' | VAL: '', puts_hex W (ae_val e),
         puts W '' | CYCLES: '', puts_dec W (ae_cycles e), puts W crlf]
     else Some)"

definition handle_audit :: "'f World \<Rightarrow> 'f System \<Rightarrow> 'f System option" where
  "handle_audit W s =
    seq ([puts W (''--- SUPERUSER AUDIT LOG ---'' @ crlf), puts W ''Total Unsafe Operations: '',
        puts_dec W (of_nat (total_audits (s_audit s))), puts W (crlf @ ''Recent Events:'' @ crlf)]
      @ map (audit_line W) (entries (s_audit s))) s"

definition BANNER :: string where "BANNER = ''Holy Rust REPL v0.1'' @ crlf"

definition help_text :: string where
  "help_text = ''commands:'' @ crlf
    @ ''peek ADDR;              read u32 from address (requires capability)'' @ crlf
    @ ''poke ADDR VAL;          write u32 to address (requires capability)'' @ crlf
    @ ''reg_set_bit ADDR BIT;   set register bit (requires capability)'' @ crlf
    @ ''reg_clr_bit ADDR BIT;   clear register bit (requires capability)'' @ crlf
    @ ''cap_claim NAME;         claim peripheral (GPIOA GPIOB UART0 SPI0 I2C0 TIMER0 DMA0 SUPERUSER)'' @ crlf
    @ ''cap_drop NAME;          release peripheral'' @ crlf
    @ ''let NAME = EXPR;        bind constant'' @ crlf
    @ ''fn NAME() { ... }       define callable body'' @ crlf
    @ ''EXPR;                   evaluate (+ - * / % left-to-right)'' @ crlf
    @ ''sys_audit               dump SuperUser audit log'' @ crlf
    @ ''bench                   native vs threaded JIT benchmark'' @ crlf
    @ ''pwm PERIOD DUTY;        TIM2 PWM config (Timer0 cap)'' @ crlf
    @ ''pwm_duty DUTY;          live duty update (Timer0 cap)'' @ crlf
    @ ''spi_tx BYTE;            SPI1 transfer (Spi0 cap)'' @ crlf
    @ ''banner                  reprint banner''"

definition print_help :: "'f World \<Rightarrow> 'f System \<Rightarrow> 'f System option" where
  "print_help W = puts_line W help_text"

text \<open>An enforced write, and its message.\<close>

definition exec_poke :: "'f World \<Rightarrow> u32 \<Rightarrow> u32 \<Rightarrow> 'f System \<Rightarrow> 'f System option" where
  "exec_poke W addr v s =
    (case enforced_poke_u32 (w_arch W) (s_reg s) (w_cycles W (al_count (s_audit s))) (s_audit s) (s_mem s) addr v of
       (Inr _, log, m) \<Rightarrow> puts_line W ''OK'' (set_mem m (s\<lparr>s_audit := log\<rparr>))
     | (Inl e, log, m) \<Rightarrow> seq [puts W (mem_error_bytes e), puts W lf] (set_mem m (s\<lparr>s_audit := log\<rparr>)))"

definition exec_peek :: "'f World \<Rightarrow> u32 \<Rightarrow> 'f System \<Rightarrow> 'f System option" where
  "exec_peek W addr s =
    (case enforced_peek_u32 (w_arch W) (s_reg s) (s_mem s) addr of
       Inr v \<Rightarrow> seq [puts W ''= '', write_value W v] s
     | Inl e \<Rightarrow> seq [puts W (mem_error_bytes e), puts W lf] s)"

definition exec_run :: "'f World \<Rightarrow> StreamProgram \<Rightarrow> 'f System \<Rightarrow> 'f System option" where
  "exec_run W p s =
    (case program_run W p ((s_vm s)\<lparr>vm_mem := s_mem s\<rparr>) of
       None \<Rightarrow> None
     | Some (r, vm) \<Rightarrow>
         (let s1 = set_mem (vm_mem vm) (s\<lparr>s_vm := vm\<rparr>)
          in case r of Some v \<Rightarrow> seq [puts W ''= '', write_value W v] s1 | None \<Rightarrow> puts_line W ''OK'' s1))"

text \<open>The commands of the program store, of the task table and of the pool, on ARM.\<close>

definition exec_store :: "'f World \<Rightarrow> NameBuf \<Rightarrow> 'f System \<Rightarrow> 'f System option" where
  "exec_store W name s =
    (case export_fn (s_compiler s) (as_slice name) (replicate MAX_STREAM_WORDS 0) of
       None \<Rightarrow> puts_line W ''ERR UNKNOWN FN'' s
     | Some (count, words) \<Rightarrow>
         (case List.find (\<lambda>i. fst (load (w_pstore_base W) (w_pstore_top W) (s_mem s) i (replicate 16 (CHR 0x00)) [])
              = Inl NotFound) [0..<MAX_PROGRAMS] of
            Some i \<Rightarrow>
              puts_line W ''STORED'' (set_mem (snd (save (w_pstore_base W) (w_pstore_top W) (s_mem s) i (as_slice name)
                (take count words))) s)
          | None \<Rightarrow> puts_line W ''STORE FULL'' s))"

fun load_from :: "'f World \<Rightarrow> string \<Rightarrow> nat list \<Rightarrow> u32 list \<Rightarrow> 'f System \<Rightarrow> 'f System option" where
  "load_from W name [] words s = puts_line W ''NOT FOUND'' s"
| "load_from W name (i # is) words s =
    (case load (w_pstore_base W) (w_pstore_top W) (s_mem s) i (replicate 16 (CHR 0x00)) words of
       (Inr count, probe0, words') \<Rightarrow>
         (if take (length name) probe0 = name then
            (case import_fn (s_compiler s) name (take count words') of
               (Inr _, c) \<Rightarrow> puts_line W ''LOADED'' (s\<lparr>s_compiler := c\<rparr>)
             | (Inl _, c) \<Rightarrow> puts_line W ''ERR IMPORT FAILED'' (s\<lparr>s_compiler := c\<rparr>))
          else load_from W name is words' s)
     | (Inl NoStore, _, _) \<Rightarrow> puts_line W ''NO STORE ON THIS TARGET'' s
     | (Inl _, _, words') \<Rightarrow> load_from W name is words' s)"

definition exec_load :: "'f World \<Rightarrow> NameBuf \<Rightarrow> 'f System \<Rightarrow> 'f System option" where
  "exec_load W name s = load_from W (as_slice name) [0..<MAX_PROGRAMS] (replicate 64 0) s"

definition exec_store_list :: "'f World \<Rightarrow> 'f System \<Rightarrow> 'f System option" where
  "exec_store_list W s =
    (let names = fn_names_iter (s_compiler s)
     in if names = [] then puts_line W ''(no fns)'' s
        else seq (concat (map (\<lambda>n. [puts W n, puts W crlf]) names)) s)"

definition exec_spawn :: "'f World \<Rightarrow> NameBuf \<Rightarrow> 'f System \<Rightarrow> 'f System option" where
  "exec_spawn W name s =
    (case export_fn (s_compiler s) (as_slice name) (replicate MAX_STREAM_WORDS 0) of
       None \<Rightarrow> puts_line W ''ERR UNKNOWN FN'' s
     | Some (count, words) \<Rightarrow>
         (case List.find (\<lambda>slot_idx. tcb_state (tcbs (s_machine s) ! (slot_idx + 1)) = 0) [0..<2] of
            None \<Rightarrow> Some s
          | Some slot_idx \<Rightarrow>
              (let m1 = snd (emit_fn_into_slot slot_idx (take count words) (s_mem s));
                   (ok, t) = spawn_jit_task (w_stacks W) (w_bodies W) slot_idx ((s_machine s)\<lparr>mmem := m1\<rparr>);
                   t' = (if ok then t\<lparr>mmem := timer_configure (systick_reload 168000000 1) (mmem t)\<rparr> else t)
               in seq [puts W ''TASK SPAWNED slot='', puts_dec W (of_nat slot_idx), puts_line W []] (s\<lparr>s_machine := t'\<rparr>))))"

definition exec_pool_alloc :: "'f World \<Rightarrow> u32 \<Rightarrow> 'f System \<Rightarrow> 'f System option" where
  "exec_pool_alloc W sz s =
    (case alloc (w_pool_base W) (s_pool s) 0 sz of
       (Inr addr, offs) \<Rightarrow> seq [puts W ''POOL @'', puts_hex W addr, puts_line W []] (s\<lparr>s_pool := offs\<rparr>)
     | (Inl _, offs) \<Rightarrow> puts_line W ''POOL FULL'' (s\<lparr>s_pool := offs\<rparr>))"

definition pool_line :: "'f World \<Rightarrow> nat \<times> u32 \<times> u32 \<Rightarrow> 'f System \<Rightarrow> 'f System option" where
  "pool_line W e =
    (case e of (i, used, rem) \<Rightarrow>
      seq [puts W ''pool['', puts_dec W (of_nat i), puts W ''] used='', puts_dec W used, puts W '' free='',
        puts_dec W rem, puts_line W []])"

fun execute :: "'f World \<Rightarrow> Outcome \<Rightarrow> 'f System \<Rightarrow> 'f System option" where
  "execute W Empty s = Some s"
| "execute W Help s = print_help W s"
| "execute W Banner s = puts W BANNER s"
| "execute W (Bound name v) s = seq [puts W (as_slice name), puts W '' = '', write_value W v] s"
| "execute W (FnDefined name) s = seq [puts W ''FN '', puts W (as_slice name), puts_line W '' DEFINED''] s"
| "execute W (Run p) s = exec_run W p s"
| "execute W (Claim name) s = do_claim W name s"
| "execute W (Drop name) s = do_drop W name s"
| "execute W (EnforcedPoke addr v) s = exec_poke W addr v s"
| "execute W (EnforcedPeek addr) s = exec_peek W addr s"
| "execute W (SetBit addr b) s = exec_poke W addr (peek_u32 (s_mem s) addr OR shl1 (unat b)) s"
| "execute W (ClrBit addr b) s = exec_poke W addr (peek_u32 (s_mem s) addr AND NOT (shl1 (unat b))) s"
| "execute W SysAudit s = handle_audit W s"
| "execute W Bench s =
    (case run_bench (w_arch W) (w_word W) (w_counter W) (w_regs W) (s_readings s, (s_vm s)\<lparr>vm_mem := s_mem s\<rparr>) of
       None \<Rightarrow> None
     | Some (ls, t, vm) \<Rightarrow> seq (map (puts W) ls) (set_mem (vm_mem vm) (s\<lparr>s_vm := vm, s_readings := t\<rparr>)))"
| "execute W (Pwm period duty) s =
    (let ((arr, ccr), m) = pwm_configure (w_arch W) period duty (s_mem s)
     in seq [puts W ''PWM ARR='', puts_dec W arr, puts W '' CCR1='', puts_line_u32 W ccr] (set_mem m s))"
| "execute W (PwmDuty duty) s = puts_line W ''OK'' (set_mem (pwm_set_duty (w_arch W) duty (s_mem s)) s)"
| "execute W (SpiTx b) s =
    (case spi_transfer_byte (w_arch W) (w_spi_sr W) (w_spi_rx W) (s_spi_reads s) (s_mem s) b of
       None \<Rightarrow> None
     | Some (rx, t, m) \<Rightarrow>
         seq [puts W ''SPI RX='', puts_line_u32 W (ucast rx)] (set_mem m (s\<lparr>s_spi_reads := t\<rparr>)))"
| "execute W (Store name) s =
    (if w_arch W = Arm then exec_store W name s else puts_line W ''NO STORE ON THIS TARGET'' s)"
| "execute W (Load name) s =
    (if w_arch W = Arm then exec_load W name s else puts_line W ''NO STORE ON THIS TARGET'' s)"
| "execute W StoreList s =
    (if w_arch W = Arm then exec_store_list W s else puts_line W ''NO STORE ON THIS TARGET'' s)"
| "execute W (Spawn name) s = (if w_arch W = Arm then exec_spawn W name s else puts_line W ''SPAWN: arm only'' s)"
| "execute W (PoolAlloc sz) s =
    (if w_arch W = Arm then exec_pool_alloc W sz s else puts_line W ''NO POOL ON THIS TARGET'' s)"
| "execute W PoolFree s =
    (if w_arch W = Arm then puts_line W ''POOL RESET'' (s\<lparr>s_pool := snd (reset (s_pool s) 0)\<rparr>)
     else puts_line W ''NO POOL ON THIS TARGET'' s)"
| "execute W PoolStats s =
    (if w_arch W = Arm then seq (map (pool_line W) (zip [0..<NUM_POOLS] (stats (s_pool s)))) s
     else puts_line W ''NO POOL ON THIS TARGET'' s)"
| "execute W FlashTest s =
    (case flash_self_test (w_flash W) (s_flash s) of
       None \<Rightarrow> None
     | Some (ok, f) \<Rightarrow>
         seq [puts W ''FLASH SELF-TEST: '',
           puts_line W (if ok then ''HONORS PROGRAMMING'' else ''STUB (writes ignored)'')] (s\<lparr>s_flash := f\<rparr>))"

section \<open>The loop\<close>

record 'f Loop =
  l_state :: State
  l_pending :: "(ParseError + Outcome) option"
  l_sys :: "'f System"

text \<open>One turn of the loop; the input is the words that the poll of the console reads.\<close>

definition repl_step :: "'f World \<Rightarrow> u32 \<times> u32 \<Rightarrow> 'f Loop \<Rightarrow> 'f Loop option" where
  "repl_step W inp l =
    (case l_state l of
       Evaluating \<Rightarrow>
         (let (line, s) = take_line (l_sys l)
          in case compile W line s of
               None \<Rightarrow> None
             | Some (r, s') \<Rightarrow> Some (l\<lparr>l_state := Printing, l_pending := r, l_sys := s'\<rparr>))
     | Printing \<Rightarrow>
         (case (case l_pending l of
                  Some (Inr outcome) \<Rightarrow> execute W outcome (l_sys l)
                | Some (Inl err) \<Rightarrow> seq [puts W ''ERR '', puts W (error_text err)] (l_sys l)
                | None \<Rightarrow> Some (l_sys l)) of
            None \<Rightarrow> None
          | Some s \<Rightarrow>
              (case prompt W s of None \<Rightarrow> None | Some s' \<Rightarrow> Some (l\<lparr>l_state := Idle, l_pending := None, l_sys := s'\<rparr>)))
     | _ \<Rightarrow>
         (case poll_get_byte (w_arch W) (fst inp) (snd inp) of
            Some byte \<Rightarrow>
              (case feed W byte (l_sys l) of
                 None \<Rightarrow> None
               | Some (st, s) \<Rightarrow> Some (l\<lparr>l_state := st, l_sys := s\<rparr>))
          | None \<Rightarrow> Some (l\<lparr>l_state := Reading\<rparr>)))"

text \<open>\<open>run\<close>: bytes left in the receiver are dropped, then the loop turns for ever; here, for the given inputs.\<close>

fun drain :: "'f World \<Rightarrow> (u32 \<times> u32) list \<Rightarrow> (u32 \<times> u32) list" where
  "drain W [] = []"
| "drain W (inp # inps) = (if poll_get_byte (w_arch W) (fst inp) (snd inp) = None then inps else drain W inps)"

definition repl_run :: "'f World \<Rightarrow> (u32 \<times> u32) list \<Rightarrow> 'f System \<Rightarrow> 'f Loop option" where
  "repl_run W inps s =
    (let inps' = drain W inps
     in case prompt W s of
          None \<Rightarrow> None
        | Some s' \<Rightarrow> seq (map (repl_step W) inps') \<lparr>l_state = Idle, l_pending = None, l_sys = s'\<rparr>)"

end
