(* ===== verification/Repl_Safety.thy ===== *)
theory Repl_Safety
  imports Repl
begin

text \<open>
  Properties of the command loop: printing changes nothing but the console, the line editor implements
  an editor on strings, a turn of the loop always completes, and what a command changes in memory is
  covered by capabilities that the registry grants at that moment.
\<close>

section \<open>Actions that only print\<close>

definition keeps :: "('f System \<Rightarrow> 'f System option) \<Rightarrow> bool" where
  "keeps a \<longleftrightarrow> (\<forall>s s'. a s = Some s' \<longrightarrow> (\<exists>c. s' = s\<lparr>s_con := c\<rparr>))"

definition live :: "('s \<Rightarrow> 's option) \<Rightarrow> bool" where
  "live a \<longleftrightarrow> (\<forall>s. \<exists>s'. a s = Some s')"

named_theorems prints \<open>which actions only print, and that they return\<close>

lemma keepsD: "keeps a \<Longrightarrow> a s = Some s' \<Longrightarrow> \<exists>c. s' = s\<lparr>s_con := c\<rparr>"
  by (simp add: keeps_def)

lemma keeps_on_con [prints]: "keeps (on_con f)"
  by (auto simp: keeps_def on_con_def split: option.splits)

lemma keeps_Some [prints]: "keeps (Some :: 'f System \<Rightarrow> _)"
proof -
  have "\<exists>c. s = s\<lparr>s_con := c\<rparr>" for s :: "'f System"
    by (rule exI [of _ "s_con s"]) simp
  then show ?thesis
    by (simp add: keeps_def)
qed

lemma keeps_seq [prints]: "(\<And>a. a \<in> set as \<Longrightarrow> keeps a) \<Longrightarrow> keeps (seq as)"
proof (induction as)
  case Nil
  then show ?case
    using keeps_Some by (simp add: keeps_def)
next
  case (Cons a as)
  have "\<exists>c. s' = s\<lparr>s_con := c\<rparr>" if run: "seq (a # as) s = Some s'" for s s'
  proof -
    obtain s1 where s1: "a s = Some s1" "seq as s1 = Some s'"
      using run by (auto split: option.splits)
    obtain c c' where "s1 = s\<lparr>s_con := c\<rparr>" "s' = s1\<lparr>s_con := c'\<rparr>"
      using keepsD [of a, OF _ s1(1)] keepsD [of "seq as", OF _ s1(2)] Cons by auto
    then show ?thesis
      by auto
  qed
  then show ?case
    by (simp only: keeps_def) blast
qed

lemma live_Some [prints]: "live Some"
  by (simp add: live_def)

lemma liveD: "live a \<Longrightarrow> \<exists>s'. a s = Some s'"
  by (simp add: live_def)

lemma live_seq [prints]: "(\<And>a. a \<in> set as \<Longrightarrow> live a) \<Longrightarrow> live (seq as)"
proof (induction as)
  case (Cons a as)
  have "\<exists>s'. seq (a # as) s = Some s'" for s
  proof -
    obtain s1 where "a s = Some s1"
      using liveD [of a s] Cons.prems by auto
    then show ?thesis
      using liveD [of "seq as" s1] Cons by auto
  qed
  then show ?case
    by (simp only: live_def) blast
qed (simp add: live_def)

lemma live_on_con:
  assumes "\<And>c. \<exists>c'. f c = Some c'"
  shows "live (on_con f :: 'f System \<Rightarrow> _)"
  unfolding live_def
proof
  fix s :: "'f System"
  obtain c' where "f (s_con s) = Some c'"
    using assms by blast
  then show "\<exists>s'. on_con f s = Some s'"
    by (simp add: on_con_def)
qed

lemma then_live:
  "(\<And>c. \<exists>c'. f c = Some c') \<Longrightarrow> (\<And>c. \<exists>c'. g c = Some c') \<Longrightarrow>
    \<exists>c'. (case f c of None \<Rightarrow> None | Some c1 \<Rightarrow> g c1) = Some c'"
  by (metis option.case(2))

text \<open>The console functions return when the transmitter always becomes ready again.\<close>

definition console_ready :: "'f World \<Rightarrow> bool" where
  "console_ready W \<longleftrightarrow> tx_ready (w_arch W) (w_uart_sr W)"

lemma write_str_live: "console_ready W \<Longrightarrow> \<exists>c'. write_str (w_arch W) (w_uart_sr W) c t = Some c'"
  using write_str_ready [of "w_arch W" "w_uart_sr W" c t] by (auto simp: console_ready_def)

lemma write_dec_live: "console_ready W \<Longrightarrow> \<exists>c'. write_dec_u32 (w_arch W) (w_uart_sr W) c v = Some c'"
proof -
  assume W: "console_ready W"
  have "length (digits10 (unat v)) \<le> Suc 9"
    using unat_less_u32 [of v] by (intro length_digits10) simp
  then obtain scratch' where "fill_scratch (replicate 10 (CHR 0x00)) 0 v = Some (scratch', 0 + length (digits10 (unat v)))"
    using fill_scratch_digits [of 0 v "replicate 10 (CHR 0x00)"] by auto
  then show ?thesis
    using write_str_live [OF W] by (simp add: write_dec_u32_def)
qed

lemma console_live [prints]:
  assumes "console_ready W"
  shows "live (puts W t)" "live (puts_line W t)" "live (puts_hex W v)" "live (puts_dec W v)" "live (puts_line_u32 W v)"
    "live (on_con (\<lambda>c. put_byte (w_arch W) (w_uart_sr W) c b))" "live (prompt W)"
proof -
  note str = write_str_live [OF assms]
  have hex: "\<exists>c'. write_hex_u32 (w_arch W) (w_uart_sr W) c v = Some c'" for c
    unfolding write_hex_u32_def by (rule then_live, rule str, rule str)
  show "live (puts W t)" "live (prompt W)"
    unfolding prompt_def puts_def by (rule live_on_con, rule str)+
  show "live (puts_line W t)"
    unfolding puts_line_def write_line_def by (rule live_on_con, rule then_live, rule str, rule str)
  show "live (puts_hex W v)"
    unfolding puts_hex_def by (rule live_on_con, rule hex)
  show "live (puts_dec W v)"
    unfolding puts_dec_def by (rule live_on_con, rule write_dec_live, rule assms)
  show "live (puts_line_u32 W v)"
    unfolding puts_line_u32_def write_line_u32_def by (rule live_on_con, rule then_live, rule hex, rule str)
  show "live (on_con (\<lambda>c. put_byte (w_arch W) (w_uart_sr W) c b))"
    using put_byte_ready [of "w_arch W" "w_uart_sr W" _ b] assms by (intro live_on_con) (auto simp: console_ready_def)
qed

lemma console_keeps [prints]:
  "keeps (puts W t)" "keeps (puts_line W t)" "keeps (puts_hex W v)" "keeps (puts_dec W v)" "keeps (puts_line_u32 W v)"
  "keeps (prompt W)"
  by (simp_all add: puts_def puts_line_def puts_hex_def puts_dec_def puts_line_u32_def prompt_def keeps_on_con)

lemma write_value_prints [prints]:
  "keeps (write_value W v)" "console_ready W \<Longrightarrow> live (write_value W v)"
  by (auto simp: write_value_def intro!: prints)

lemma act_result: "keeps a \<Longrightarrow> live a \<Longrightarrow> \<exists>c. a s = Some (s\<lparr>s_con := c\<rparr>)"
  by (metis keepsD liveD)

section \<open>Line editing\<close>

definition line_of :: "'f System \<Rightarrow> string" where
  "line_of s = take (s_line_len s) (s_line_buf s)"

definition line_inv :: "'f System \<Rightarrow> bool" where
  "line_inv s \<longleftrightarrow> length (s_line_buf s) = LINE_MAX \<and> s_line_len s \<le> LINE_MAX"

text \<open>The editor on strings: printable characters (a tabulator counts as a space) are appended up to the maximal
  length, backspace removes the last one, and control-U and control-C clear the line.\<close>

definition edit :: "string \<Rightarrow> char \<Rightarrow> string" where
  "edit line b =
    (if b = CHR 0x08 \<or> b = CHR 0x7F then butlast line
     else if b = CHR 0x15 \<or> b = CHR 0x03 then []
     else if (in_range (CHR 0x20) (CHR 0x7E) b \<or> b = CHR 0x09) \<and> length line < LINE_MAX
     then line @ [if b = CHR 0x09 then CHR '' '' else b]
     else line)"

definition newline :: "char \<Rightarrow> bool" where
  "newline b \<longleftrightarrow> b = CHR 0x0D \<or> b = CHR 0x0A"

definition same_but_line :: "'f System \<Rightarrow> 'f System \<Rightarrow> bool" where
  "same_but_line s s' \<longleftrightarrow> s'\<lparr>s_line_buf := s_line_buf s, s_line_len := s_line_len s, s_con := s_con s\<rparr> = s"

lemma same_but_lineD:
  "same_but_line s s' \<Longrightarrow> s_compiler s' = s_compiler s \<and> s_reg s' = s_reg s \<and> s_audit s' = s_audit s
    \<and> s_machine s' = s_machine s \<and> s_vm s' = s_vm s \<and> s_pool s' = s_pool s \<and> s_flash s' = s_flash s"
  by (cases s; cases s') (simp add: same_but_line_def)

lemma same_but_line_trans: "same_but_line s t \<Longrightarrow> same_but_line t u \<Longrightarrow> same_but_line s u"
  by (cases s; cases t; cases u) (simp add: same_but_line_def)

lemma same_but_lineI [simp]: "same_but_line s s" "same_but_line s (s\<lparr>s_con := c\<rparr>)" "same_but_line s (s\<lparr>s_line_len := len, s_con := c\<rparr>)"
  "same_but_line s (s\<lparr>s_con := c, s_line_len := len\<rparr>)" "same_but_line s (s\<lparr>s_line_buf := buf, s_line_len := len, s_con := c\<rparr>)"
  by (simp_all add: same_but_line_def)

lemma feed_edit:
  fixes s :: "'f System"
  assumes "console_ready W" "line_inv s"
  shows "\<exists>st s'. feed W b s = Some (st, s') \<and> line_inv s' \<and> line_of s' = edit (line_of s) b
    \<and> (st = Evaluating \<longleftrightarrow> newline b) \<and> st \<noteq> Printing \<and> same_but_line s s'"
proof -
  have inv: "length (s_line_buf s) = LINE_MAX" "s_line_len s \<le> LINE_MAX" "length (line_of s) = s_line_len s"
    using assms(2) by (simp_all add: line_inv_def line_of_def)
  note pr = act_result [OF _ console_live(1) [OF assms(1)]]
  note defs = feed_def Let_def newline_def edit_def line_inv_def line_of_def
  consider (nl) "newline b" | (bs) "b = CHR 0x08 \<or> b = CHR 0x7F" | (kill) "b = CHR 0x15" | (cancel) "b = CHR 0x03"
    | (print) "in_range (CHR 0x20) (CHR 0x7E) b \<or> b = CHR 0x09" "\<not> newline b" "b \<notin> {CHR 0x08, CHR 0x7F, CHR 0x15, CHR 0x03}"
    | (other) "\<not> in_range (CHR 0x20) (CHR 0x7E) b" "b \<noteq> CHR 0x09" "\<not> newline b" "b \<notin> {CHR 0x08, CHR 0x7F, CHR 0x15, CHR 0x03}"
    by blast
  then show ?thesis
  proof cases
    case nl
    obtain c where c: "puts W crlf s = Some (s\<lparr>s_con := c\<rparr>)"
      using pr [of crlf s] prints by blast
    have "\<not> in_range (CHR 0x20) (CHR 0x7E) b"
      using nl by (auto simp: newline_def in_range_def)
    then show ?thesis
      using nl inv by (auto simp: defs c)
  next
    case bs
    show ?thesis
    proof (cases "s_line_len s")
      case 0
      then show ?thesis
        using bs inv by (auto simp: defs)
    next
      case (Suc n)
      obtain c where c: "puts W erase_char (s\<lparr>s_line_len := n\<rparr>) = Some (s\<lparr>s_line_len := n, s_con := c\<rparr>)"
        using pr [of erase_char "s\<lparr>s_line_len := n\<rparr>"] prints by blast
      have "butlast (take (Suc n) (s_line_buf s)) = take n (s_line_buf s)"
        using inv Suc by (simp add: butlast_take)
      then show ?thesis
        using bs inv Suc c by (auto simp: defs)
    qed
  next
    case kill
    let ?a = "seq (replicate (s_line_len s) (puts W erase_char))"
    have "keeps ?a" "live ?a"
      using assms(1) by (auto intro!: prints split: if_splits)
    then obtain c where c: "?a s = Some (s\<lparr>s_con := c\<rparr>)"
      using act_result by blast
    then show ?thesis
      using kill inv by (auto simp: defs)
  next
    case cancel
    let ?s = "s\<lparr>s_line_len := 0\<rparr>"
    let ?a = "seq [puts W (''^C'' @ crlf), prompt W]"
    have "keeps ?a" "live ?a"
      using assms(1) by (auto intro!: prints simp del: seq.simps)
    then obtain c where c: "?a ?s = Some (?s\<lparr>s_con := c\<rparr>)"
      using act_result by blast
    then show ?thesis
      using cancel inv by (auto simp: defs simp del: seq.simps)
  next
    case print
    let ?b = "if b = CHR 0x09 then CHR '' '' else b"
    let ?s = "s\<lparr>s_line_buf := (s_line_buf s)[s_line_len s := ?b], s_line_len := s_line_len s + 1\<rparr>"
    obtain c where c: "on_con (\<lambda>c. put_byte (w_arch W) (w_uart_sr W) c ?b) ?s = Some (?s\<lparr>s_con := c\<rparr>)"
      using act_result [OF keeps_on_con console_live(6) [OF assms(1)], of ?b ?s] by blast
    have b: "in_range (CHR 0x20) (CHR 0x7E) ?b" "\<not> newline ?b" "?b \<notin> {CHR 0x08, CHR 0x7F, CHR 0x15, CHR 0x03}"
      using print by (auto simp: newline_def in_range_def)
    have "take (Suc (s_line_len s)) ((s_line_buf s)[s_line_len s := ?b]) = take (s_line_len s) (s_line_buf s) @ [?b]"
      if "s_line_len s < LINE_MAX"
      using that inv by (simp add: take_Suc_conv_app_nth)
    then show ?thesis
      using print b inv c unfolding defs by (cases "s_line_len s < LINE_MAX") auto
  next
    case other
    then show ?thesis
      using inv by (auto simp: defs)
  qed
qed

lemma feed_turns:
  assumes "console_ready W" "line_inv (l_sys l)" "l_state l = Idle \<or> l_state l = Reading"
    and "list_all2 (\<lambda>i b. poll_get_byte (w_arch W) (fst i) (snd i) = Some b) inps (bs @ [nl])"
    and "\<forall>b\<in>set bs. \<not> newline b" "newline nl"
  shows "\<exists>l'. seq (map (repl_step W) inps) l = Some l' \<and> l_state l' = Evaluating \<and> line_inv (l_sys l')
    \<and> line_of (l_sys l') = foldl edit (line_of (l_sys l)) bs \<and> same_but_line (l_sys l) (l_sys l')"
  using assms
proof (induction bs arbitrary: inps l)
  case Nil
  obtain i where i: "inps = [i]" "poll_get_byte (w_arch W) (fst i) (snd i) = Some nl"
    using Nil.prems(4) by (auto simp: list_all2_Cons2)
  obtain s' where "feed W nl (l_sys l) = Some (Evaluating, s')" "line_inv s'"
    "line_of s' = edit (line_of (l_sys l)) nl" "same_but_line (l_sys l) s'"
    using feed_edit [OF Nil.prems(1,2), of nl] Nil.prems(6) by auto
  moreover have "edit (line_of (l_sys l)) nl = line_of (l_sys l)"
    using Nil.prems(6) by (auto simp: edit_def newline_def in_range_def)
  ultimately show ?case
    using i Nil.prems(3) by (auto simp: repl_step_def)
next
  case (Cons b bs)
  obtain i inps' where i: "inps = i # inps'" "poll_get_byte (w_arch W) (fst i) (snd i) = Some b"
    "list_all2 (\<lambda>i b. poll_get_byte (w_arch W) (fst i) (snd i) = Some b) inps' (bs @ [nl])"
    using Cons.prems(4) by (auto simp: list_all2_Cons2)
  obtain st s' where f: "feed W b (l_sys l) = Some (st, s')" "line_inv s'" "st \<noteq> Evaluating" "st \<noteq> Printing"
    "line_of s' = edit (line_of (l_sys l)) b" "same_but_line (l_sys l) s'"
    using feed_edit [OF Cons.prems(1,2), of b] Cons.prems(5) by auto
  let ?l = "l\<lparr>l_state := st, l_sys := s'\<rparr>"
  have step: "repl_step W i l = Some ?l" "l_state ?l = Idle \<or> l_state ?l = Reading"
    using Cons.prems(3) i(2) f by (cases st; auto simp: repl_step_def)+
  obtain l' where l': "seq (map (repl_step W) inps') ?l = Some l'" "l_state l' = Evaluating" "line_inv (l_sys l')"
    "line_of (l_sys l') = foldl edit (line_of s') bs" "same_but_line s' (l_sys l')"
    using Cons.IH [OF Cons.prems(1), of ?l inps'] step(2) f(2) i(3) Cons.prems(5,6) by auto
  then show ?case
    using i(1) step(1) f(5) same_but_line_trans [OF f(6) l'(5)] by simp
qed

text \<open>C39. The command loop reads what a line editor reads: let the console deliver the bytes \<open>bs\<close>, none of them
  a carriage return or line feed, and then a line end, one per turn. Then the loop reaches the evaluation state with exactly the line that the
  editor on strings makes of \<open>bs\<close>, at most 128 characters, and nothing but the line buffer and the console has changed.\<close>

theorem repl_reads_line:
  assumes "console_ready W" "line_inv (l_sys l)" "l_state l = Idle \<or> l_state l = Reading" "line_of (l_sys l) = []"
    and "list_all2 (\<lambda>i b. poll_get_byte (w_arch W) (fst i) (snd i) = Some b) inps (bs @ [nl])"
    and "\<forall>b\<in>set bs. \<not> newline b" "newline nl"
  shows "\<exists>l'. seq (map (repl_step W) inps) l = Some l' \<and> l_state l' = Evaluating
    \<and> fst (take_line (l_sys l')) = foldl edit [] bs \<and> length (foldl edit [] bs) \<le> LINE_MAX
    \<and> same_but_line (l_sys l) (l_sys l')"
proof -
  obtain l' where l': "seq (map (repl_step W) inps) l = Some l'" "l_state l' = Evaluating" "line_inv (l_sys l')"
    "line_of (l_sys l') = foldl edit [] bs" "same_but_line (l_sys l) (l_sys l')"
    using feed_turns [OF assms(1-3,5-7)] assms(4) by auto
  moreover have "fst (take_line (l_sys l')) = line_of (l_sys l')"
    by (simp add: take_line_def line_of_def)
  moreover have "length (line_of (l_sys l')) \<le> LINE_MAX"
    using l'(3) by (simp add: line_of_def line_inv_def)
  ultimately show ?thesis
    by auto
qed

section \<open>What a command changes\<close>

text \<open>Compiling a line changes only the compiler.\<close>

lemma compile_ok:
  assumes "comp_inv (w_word W) UNIV (s_compiler s)"
  shows "\<exists>r c. compile W line s = Some (r, s\<lparr>s_compiler := c\<rparr>) \<and> comp_inv (w_word W) UNIV c
    \<and> (\<forall>out. r = Some (Inr out) \<longrightarrow> outcome_ok (env_of W s) UNIV out)"
proof (cases "line = []")
  case True
  then show ?thesis
    using assms by (auto simp: compile_def intro!: exI [of _ "s_compiler s"])
next
  case False
  have "stmt_pre (env_of W s) UNIV (s_compiler s)"
    using assms by (simp add: stmt_pre_def grants_def env_of_def)
  note ok = sok_parse [OF this, of line]
  have w: "env_word (env_of W s) = w_word W"
    by (simp add: env_of_def)
  obtain r c where p: "parse (env_of W s) line (s_compiler s) = Some (r, c)"
    using ok by (cases "parse (env_of W s) line (s_compiler s)") auto
  then have "comp_inv (w_word W) UNIV c \<and> (\<forall>out. r = Inr out \<longrightarrow> outcome_ok (env_of W s) UNIV out)"
    using ok w by (cases r) auto
  then show ?thesis
    using False p by (auto simp: compile_def intro!: exI [of _ "Some r"] exI [of _ c])
qed

text \<open>The part of the state that a printing action keeps.\<close>

lemma keeps_fields:
  assumes "keeps a" "a s = Some s'"
  shows "s_mem s' = s_mem s" "s_compiler s' = s_compiler s" "s_line_buf s' = s_line_buf s"
    "s_line_len s' = s_line_len s" "s_reg s' = s_reg s"
  using keepsD [OF assms] by (auto simp: s_mem_def)

lemma set_mem_fields [simp]:
  "s_mem (set_mem m s) = m" "s_compiler (set_mem m s) = s_compiler s" "s_line_buf (set_mem m s) = s_line_buf s"
  "s_line_len (set_mem m s) = s_line_len s" "s_reg (set_mem m s) = s_reg s"
  by (simp_all add: set_mem_def s_mem_def)

lemma exec_poke_mem:
  assumes "exec_poke W addr v s = Some s'"
  shows "s_mem s' = s_mem s \<or> s_mem s' = poke_u32 (s_mem s) addr v" "s_compiler s' = s_compiler s"
    "s_line_buf s' = s_line_buf s" "s_line_len s' = s_line_len s"
proof -
  obtain r log m where e: "enforced_poke_u32 (w_arch W) (s_reg s) (w_cycles W (al_count (s_audit s))) (s_audit s) (s_mem s) addr v
      = (r, log, m)"
    by (metis prod_cases3)
  then have m: "m = s_mem s \<or> m = poke_u32 (s_mem s) addr v"
    by (auto simp: enforced_poke_u32_def split: if_splits option.splits)
  have "\<exists>a. keeps a \<and> a (set_mem m (s\<lparr>s_audit := log\<rparr>)) = Some s'"
  proof (cases r)
    case (Inl e)
    then show ?thesis
      using assms e unfolding exec_poke_def
      by (intro exI [of _ "seq [puts W (mem_error_bytes e), puts W lf]"]) (auto intro!: prints simp del: seq.simps)
  next
    case (Inr u)
    then show ?thesis
      using assms e unfolding exec_poke_def by (intro exI [of _ "puts_line W ''OK''"]) (auto intro!: prints)
  qed
  then obtain a where a: "keeps a" "a (set_mem m (s\<lparr>s_audit := log\<rparr>)) = Some s'"
    by blast
  show "s_mem s' = s_mem s \<or> s_mem s' = poke_u32 (s_mem s) addr v" "s_compiler s' = s_compiler s"
    "s_line_buf s' = s_line_buf s" "s_line_len s' = s_line_len s"
    using keeps_fields [OF a] m by auto
qed

lemma keeps_dep: "(\<And>s. a s = f s s) \<Longrightarrow> (\<And>s. keeps (f s)) \<Longrightarrow> keeps a"
  by (simp add: keeps_def)

lemma live_dep: "(\<And>s. a s = f s s) \<Longrightarrow> (\<And>s. live (f s)) \<Longrightarrow> live a"
  by (simp add: live_def)

lemma audit_prints [prints]:
  "keeps (handle_audit W)" "console_ready W \<Longrightarrow> live (handle_audit W)"
proof -
  let ?f = "\<lambda>s. seq ([puts W (''--- SUPERUSER AUDIT LOG ---'' @ crlf), puts W ''Total Unsafe Operations: '',
        puts_dec W (of_nat (total_audits (s_audit s))), puts W (crlf @ ''Recent Events:'' @ crlf)]
      @ map (audit_line W) (entries (s_audit s)))"
  show "keeps (handle_audit W)"
    by (rule keeps_dep [where f = ?f]) (simp only: handle_audit_def, auto simp: audit_line_def intro!: prints)
  show "console_ready W \<Longrightarrow> live (handle_audit W)"
    by (rule live_dep [where f = ?f]) (simp only: handle_audit_def, auto simp: audit_line_def intro!: prints)
qed

lemma list_prints [prints]:
  "keeps (exec_store_list W)" "console_ready W \<Longrightarrow> live (exec_store_list W)"
proof -
  let ?f = "\<lambda>s. if fn_names_iter (s_compiler s) = [] then puts_line W ''(no fns)''
      else seq (concat (map (\<lambda>n. [puts W n, puts W crlf]) (fn_names_iter (s_compiler s))))"
  show "keeps (exec_store_list W)"
    by (rule keeps_dep [where f = ?f]) (simp add: exec_store_list_def, auto intro!: prints)
  show "console_ready W \<Longrightarrow> live (exec_store_list W)"
    by (rule live_dep [where f = ?f]) (simp add: exec_store_list_def, auto intro!: prints)
qed

lemma pool_prints [prints]: "keeps (pool_line W e)" "console_ready W \<Longrightarrow> live (pool_line W e)"
  by (cases e; auto simp: pool_line_def intro!: prints)+

lemma peek_prints [prints]: "keeps (exec_peek W a)" "console_ready W \<Longrightarrow> live (exec_peek W a)"
proof -
  let ?f = "\<lambda>s. case enforced_peek_u32 (w_arch W) (s_reg s) (s_mem s) a of
       Inr v \<Rightarrow> seq [puts W ''= '', write_value W v] | Inl e \<Rightarrow> seq [puts W (mem_error_bytes e), puts W lf]"
  have f: "exec_peek W a s = ?f s s" for s
    by (simp add: exec_peek_def split: sum.split)
  show "keeps (exec_peek W a)"
    by (rule keeps_dep [of _ ?f, OF f]) (auto intro!: prints split: sum.split simp del: seq.simps)
  show "console_ready W \<Longrightarrow> live (exec_peek W a)"
    by (rule live_dep [of _ ?f, OF f]) (auto intro!: prints split: sum.split simp del: seq.simps)
qed

lemma help_prints [prints]: "keeps (print_help W)" "console_ready W \<Longrightarrow> live (print_help W)"
  by (auto simp: print_help_def intro!: prints)

text \<open>Outcomes that change memory other than by an access to a device register.\<close>

fun runs_code :: "Outcome \<Rightarrow> bool" where
  "runs_code (Run p) = True"
| "runs_code (Store n) = True"
| "runs_code (Spawn n) = True"
| "runs_code _ = False"

text \<open>Outcomes that change no memory at all.\<close>

fun no_access :: "Outcome \<Rightarrow> bool" where
  "no_access (EnforcedPoke a v) = False"
| "no_access (SetBit a b) = False"
| "no_access (ClrBit a b) = False"
| "no_access (Pwm p d) = False"
| "no_access (PwmDuty d) = False"
| "no_access (SpiTx b) = False"
| "no_access Bench = False"
| "no_access out = (\<not> runs_code out)"

lemma load_from_mem: "load_from W name is words s = Some s' \<Longrightarrow> s_mem s' = s_mem s \<and> s_line_buf s' = s_line_buf s
    \<and> s_line_len s' = s_line_len s"
proof (induction W name "is" words s rule: load_from.induct)
  case (1 W name words s)
  then show ?case
    using keeps_fields [OF console_keeps(2), of W _ s s'] by simp
next
  case (2 W name i "is" words s)
  obtain r nm ws where ld: "load (w_pstore_base W) (w_pstore_top W) (s_mem s) i (replicate 16 (CHR 0x00)) words = (r, nm, ws)"
    by (metis prod_cases3)
  have print: "s_mem s' = s_mem s \<and> s_line_buf s' = s_line_buf s \<and> s_line_len s' = s_line_len s"
    if "puts_line W t (s\<lparr>s_compiler := c\<rparr>) = Some s' \<or> puts_line W t s = Some s'" for t c
    using that keeps_fields [OF console_keeps(2), of W t] by (auto simp: s_mem_def)
  show ?case
  proof (cases r)
    case (Inl e)
    then show ?thesis
      using 2 ld print by (cases e) auto
  next
    case (Inr count)
    then show ?thesis
      using 2 ld print by (cases "take (length name) nm = name") (auto split: prod.splits sum.splits)
  qed
qed

lemma execute_no_access:
  assumes "execute W out s = Some s'" "no_access out"
  shows "s_mem s' = s_mem s"
proof -
  note k = keeps_fields(1)
  note [simp del] = seq.simps
  have m: "s_mem (s\<lparr>s_reg := r\<rparr>) = s_mem s" "s_mem (s\<lparr>s_pool := p\<rparr>) = s_mem s" "s_mem (s\<lparr>s_flash := f\<rparr>) = s_mem s" for r p f
    by (simp_all add: s_mem_def)
  have sq: "seq as t = Some s' \<Longrightarrow> (\<And>a. a \<in> set as \<Longrightarrow> keeps a) \<Longrightarrow> s_mem s' = s_mem t" for as t
    using k [OF keeps_seq] by blast
  have ln: "puts_line W x t = Some s' \<Longrightarrow> s_mem s' = s_mem t" for x t
    using k [OF console_keeps(2)] by blast
  show ?thesis
    using assms
  proof (cases out)
    case (Claim n)
    then show ?thesis
      using assms by (auto simp: do_claim_def Let_def m prints split: option.splits prod.splits if_splits dest!: sq)
  next
    case (Drop n)
    then show ?thesis
      using assms by (auto simp: do_drop_def Let_def m prints split: option.splits prod.splits if_splits dest!: sq)
  next
    case (Load n)
    then show ?thesis
      using assms load_from_mem ln by (fastforce simp: exec_load_def split: if_splits)
  next
    case (PoolAlloc n)
    then show ?thesis
      using assms by (auto simp: exec_pool_alloc_def m prints split: prod.splits sum.splits if_splits dest!: sq ln)
  next
    case FlashTest
    then show ?thesis
      using assms by (auto simp: m prints split: option.splits dest!: sq)
  next
    case (EnforcedPeek a)
    then show ?thesis
      using assms k [OF peek_prints(1)] by auto
  next
    case StoreList
    then show ?thesis
      using assms k [OF list_prints(1)] ln by (auto split: if_splits)
  next
    case SysAudit
    then show ?thesis
      using assms k [OF audit_prints(1)] by auto
  next
    case Help
    then show ?thesis
      using assms k [OF help_prints(1)] by auto
  next
    case Banner
    then show ?thesis
      using assms k [OF console_keeps(1)] by auto
  qed (auto simp: m prints split: if_splits dest!: sq ln)
qed

lemma execute_devices:
  "execute W (Pwm p d) s = Some s' \<Longrightarrow> s_mem s' = snd (pwm_configure (w_arch W) p d (s_mem s))"
  "execute W (PwmDuty d) s = Some s' \<Longrightarrow> s_mem s' = pwm_set_duty (w_arch W) d (s_mem s)"
  "execute W (SpiTx b) s = Some s' \<Longrightarrow>
    s_mem s' = poke_u32 (s_mem s) (if w_arch W = Riscv32 then spi_TXDATA else spi_DR) (ucast b)"
proof -
  note [simp del] = seq.simps
  have sq: "seq as t = Some s' \<Longrightarrow> (\<And>a. a \<in> set as \<Longrightarrow> keeps a) \<Longrightarrow> s_mem s' = s_mem t" for as t
    using keeps_fields(1) [OF keeps_seq] by blast
  show "execute W (Pwm p d) s = Some s' \<Longrightarrow> s_mem s' = snd (pwm_configure (w_arch W) p d (s_mem s))"
    by (auto simp: prints split: prod.splits dest!: sq)
  show "execute W (PwmDuty d) s = Some s' \<Longrightarrow> s_mem s' = pwm_set_duty (w_arch W) d (s_mem s)"
    using keeps_fields(1) [OF console_keeps(2)] by fastforce
  show "execute W (SpiTx b) s = Some s' \<Longrightarrow>
    s_mem s' = poke_u32 (s_mem s) (if w_arch W = Riscv32 then spi_TXDATA else spi_DR) (ucast b)"
    by (auto simp: prints split: option.splits dest!: sq spi_transfer_mem)
qed

lemma execute_bench:
  assumes "good_words (w_word W)" "w_arch W = Arm \<or> w_arch W = Riscv32"
  obtains ls t vm where "execute W Bench s = seq (map (puts W) ls) (set_mem (vm_mem vm) (s\<lparr>s_vm := vm, s_readings := t\<rparr>))"
    "debug_only (w_arch W) (s_mem s) (vm_mem vm)" "length (vm_stack vm) = length (vm_stack (s_vm s))"
    "vm_sp (s_vm s) \<le> VM_STACK_SIZE \<longrightarrow> vm_sp vm = 63"
proof -
  obtain ls t vm where "run_bench (w_arch W) (w_word W) (w_counter W) (w_regs W) (s_readings s, (s_vm s)\<lparr>vm_mem := s_mem s\<rparr>)
      = Some (ls, t, vm)" "length (vm_stack vm) = length (vm_stack (s_vm s))"
    "vm_sp (s_vm s) \<le> VM_STACK_SIZE \<longrightarrow> vm_sp vm = 63" "debug_only (w_arch W) (s_mem s) (vm_mem vm)"
    using run_bench_result [OF assms, of "w_counter W" "w_regs W" "s_readings s" "(s_vm s)\<lparr>vm_mem := s_mem s\<rparr>"] by auto
  then show ?thesis
    by (intro that [of ls vm t]) simp_all
qed

lemma check_access_same_cap:
  assumes "check_access a r x = Inr ()" "addr_to_cap_id a x = Some k" "addr_to_cap_id a y = Some k"
  shows "check_access a r y = Inr ()"
  using assms by (simp add: check_access_def split: if_splits)

text \<open>The bytes a command may change: those of a word the registry grants now.\<close>

definition granted_now :: "'f World \<Rightarrow> 'f System \<Rightarrow> u32 \<Rightarrow> bool" where
  "granted_now W s c \<longleftrightarrow> (\<exists>a. check_access (w_arch W) (s_reg s) a = Inr () \<and> c - a \<in> {0, 1, 2, 3})"

lemma granted_self: "check_access (w_arch W) (s_reg s) c = Inr () \<Longrightarrow> granted_now W s c"
  by (auto simp: granted_now_def intro!: exI [of _ c])

lemma poke_granted:
  assumes "check_access (w_arch W) (s_reg s) a = Inr ()" "poke_u32 m a v c \<noteq> m c"
  shows "granted_now W s c"
  using assms poke_u32_byte [of c a m v] by (auto simp: granted_now_def)

lemma timer_granted:
  assumes "w_arch W = Arm \<or> w_arch W = Riscv32" "check_timer_cap (env_of W s) = Inr ()"
    and "addr_to_cap_id (w_arch W) c = Some Timer0"
  shows "granted_now W s c"
  using assms check_access_same_cap [of "w_arch W" "s_reg s" "TIM2_BASE (w_arch W)" Timer0 c]
  by (intro granted_self)
    (auto simp: check_timer_cap_def check_cap_iff env_of_def TIM2_BASE_def addr_to_cap_id_def arm_addr_to_cap_def
      riscv_addr_to_cap_def within_def)

lemma spi_granted:
  assumes "w_arch W = Arm \<or> w_arch W = Riscv32" "check_spi_cap (env_of W s) = Inr ()"
    and "addr_to_cap_id (w_arch W) c = Some Spi0"
  shows "granted_now W s c"
  using assms check_access_same_cap [of "w_arch W" "s_reg s" "SPI1_BASE (w_arch W)" Spi0 c]
  by (intro granted_self)
    (auto simp: check_spi_cap_def check_cap_iff env_of_def SPI1_BASE_def addr_to_cap_id_def arm_addr_to_cap_def
      riscv_addr_to_cap_def within_def)

text \<open>The registers that two commands write on ARM without a capability: the clock gate of the timer, and the
  switches of the cycle counter.\<close>

definition ungranted :: "Outcome \<Rightarrow> u32 \<Rightarrow> bool" where
  "ungranted out c \<longleftrightarrow>
    (\<exists>p d. out = Pwm p d) \<and> c - APB1ENR \<in> {0, 1, 2, 3}
    \<or> out = Bench \<and> (c - DEMCR \<in> {0, 1, 2, 3} \<or> c - DWT_CTRL \<in> {0, 1, 2, 3})"

lemma access_granted:
  assumes W: "w_arch W = Arm \<or> w_arch W = Riscv32" "good_words (w_word W)" and ok: "outcome_ok (env_of W s) UNIV out"
    and ex: "execute W out s = Some s'" and no: "\<not> runs_code out" and ch: "s_mem s' c \<noteq> s_mem s c"
  shows "granted_now W s c \<or> w_arch W = Arm \<and> ungranted out c"
proof (cases out)
  case (Pwm p d)
  have "addr_to_cap_id (w_arch W) c = Some Timer0 \<or> w_arch W = Arm \<and> c - APB1ENR \<in> {0, 1, 2, 3}"
    using pwm_configure_bytes [of "w_arch W" c p d "s_mem s"] timer_bytes [OF W(1), of c] W(1) ch execute_devices(1) [of W p d s s'] ex Pwm
    by fastforce
  then show ?thesis
    using timer_granted [OF W(1), of s c] ok Pwm by (auto simp: outcome_ok_def ungranted_def)
next
  case (PwmDuty d)
  have "c - pwm_CCR1 (w_arch W) \<in> {0, 1, 2, 3}"
    using ch execute_devices(2) [of W d s s'] ex PwmDuty poke_u32_byte [of c "pwm_CCR1 (w_arch W)" "s_mem s" d]
    by (auto simp: pwm_set_duty_def)
  then have "addr_to_cap_id (w_arch W) c = Some Timer0"
    by (rule timer_bytes [OF W(1)]) simp
  then show ?thesis
    using timer_granted [OF W(1), of s c] ok PwmDuty by (auto simp: outcome_ok_def)
next
  case (SpiTx b)
  have "c - (if w_arch W = Riscv32 then spi_TXDATA else spi_DR) \<in> {0, 1, 2, 3}"
    using ch execute_devices(3) [of W b s s'] ex SpiTx poke_u32_byte [of c _ "s_mem s" "ucast b"] by metis
  then have "addr_to_cap_id (w_arch W) c = Some Spi0"
    using W(1) by (intro spi_bytes) auto
  then show ?thesis
    using spi_granted [OF W(1), of s c] ok SpiTx by (auto simp: outcome_ok_def)
next
  case Bench
  obtain ls t vm where b: "execute W Bench s = seq (map (puts W) ls) (set_mem (vm_mem vm) (s\<lparr>s_vm := vm, s_readings := t\<rparr>))"
    "debug_only (w_arch W) (s_mem s) (vm_mem vm)"
    by (rule execute_bench [OF W(2,1)])
  have "keeps (seq (map (puts W) ls))"
    by (intro keeps_seq) (auto intro: console_keeps)
  then have "s_mem s' = vm_mem vm"
    using keeps_fields(1) [of "seq (map (puts W) ls)"] b(1) ex Bench by fastforce
  then show ?thesis
    using b(2) ch Bench by (auto simp: debug_only_def ungranted_def)
next
  case (EnforcedPoke a v)
  then show ?thesis
    using ok ch ex exec_poke_mem(1) [of W a v s s'] poke_granted [of W s a "s_mem s" v c]
    by (auto simp: outcome_ok_def check_cap_iff env_of_def)
next
  case (SetBit a b)
  then show ?thesis
    using ok ch ex exec_poke_mem(1) [of W a "peek_u32 (s_mem s) a OR shl1 (unat b)" s s']
      poke_granted [of W s a "s_mem s" "peek_u32 (s_mem s) a OR shl1 (unat b)" c]
    by (auto simp: outcome_ok_def check_cap_iff env_of_def)
next
  case (ClrBit a b)
  then show ?thesis
    using ok ch ex exec_poke_mem(1) [of W a "peek_u32 (s_mem s) a AND NOT (shl1 (unat b))" s s']
      poke_granted [of W s a "s_mem s" "peek_u32 (s_mem s) a AND NOT (shl1 (unat b))" c]
    by (auto simp: outcome_ok_def check_cap_iff env_of_def)
qed (use execute_no_access [OF ex] no ch in auto)

text \<open>The data register of the console, where the driver stores every byte that is printed (DR on ARM, TXDATA on RISC-V). The model
  keeps the printed bytes apart from memory.\<close>

definition console_data :: "arch \<Rightarrow> u32" where
  "console_data a = (case a of Arm \<Rightarrow> 0x40011004 | Riscv32 \<Rightarrow> 0x10013000 | Host \<Rightarrow> 0)"

text \<open>C5. Commands change only what the registry grants, apart from the exceptions listed here: take a line in a reachable compiler state, its outcome, and
  the execution of the outcome. Excluded are outcomes that run compiled code, store a program or spawn a task, the command \<open>flash_test\<close>, which drives the flash controller without a capability, and
  the data register of the console, which every command writes when it prints. Every other byte of memory
  that has changed belongs to a word to which the registry grants access at that moment, on both targets; or, on ARM, to the clock gate of the timer, which the PWM command sets without a capability, or to the switches
  of the cycle counter, which the benchmark sets.\<close>

theorem command_memory_granted:
  assumes "w_arch W = Arm \<or> w_arch W = Riscv32" "good_words (w_word W)" "comp_inv (w_word W) UNIV (s_compiler s)"
    and "compile W line s = Some (Some (Inr out), s1)" "\<not> runs_code out" "out \<noteq> FlashTest" "execute W out s1 = Some s2"
    and "c - console_data (w_arch W) \<notin> {0, 1, 2, 3}" "s_mem s2 c \<noteq> s_mem s c"
  shows "granted_now W s c \<or> w_arch W = Arm \<and> ungranted out c"
proof -
  obtain c' where c': "s1 = s\<lparr>s_compiler := c'\<rparr>" "outcome_ok (env_of W s) UNIV out"
    using compile_ok [OF assms(3), of line] assms(4) by auto
  then have "s_mem s1 = s_mem s" "env_of W s1 = env_of W s" "granted_now W s1 c = granted_now W s c"
    by (simp_all add: s_mem_def env_of_def granted_now_def)
  then show ?thesis
    using access_granted [OF assms(1,2) _ assms(7,5), of c] c' assms(9) by simp
qed

section \<open>Every turn completes\<close>

lemma prog_ok_words:
  assumes "prog_ok wof A p"
  shows "\<exists>is post. sp_words p = code_words wof is @ wof halt_prim # post \<and> sp_len p = length (code_words wof is) + 1
    \<and> (if sp_yields_value p then \<exists>v. is = chain v [] else \<exists>acts. is = acts_code acts) \<and> length (code_words wof is) < 128"
proof -
  have len: "length (sp_words p) = 128" "sp_len p \<le> 128"
    using assms by (simp_all add: prog_ok_def MAX_STREAM_WORDS_def)
  have "\<exists>is. take (sp_len p) (sp_words p) = code_words wof is @ [wof halt_prim]
      \<and> (if sp_yields_value p then \<exists>v. is = chain v [] else \<exists>acts. is = acts_code acts)"
  proof (cases "sp_yields_value p")
    case True
    then obtain v where "take (sp_len p) (sp_words p) = [wof lit_prim, v, wof halt_prim]"
      using assms by (auto simp: prog_ok_def)
    then show ?thesis
      using True by (intro exI [of _ "chain v []"]) (auto simp: chain_def chain_tail_def code_words_def)
  next
    case False
    then show ?thesis
      using assms by (auto simp: prog_ok_def regs_code_def)
  qed
  then obtain "is" where code: "take (sp_len p) (sp_words p) = code_words wof is @ [wof halt_prim]"
    "if sp_yields_value p then \<exists>v. is = chain v [] else \<exists>acts. is = acts_code acts"
    by blast
  moreover have "sp_words p = take (sp_len p) (sp_words p) @ drop (sp_len p) (sp_words p)"
    by simp
  moreover have "sp_len p = length (code_words wof is) + 1"
    using arg_cong [OF code(1), of length] len by simp
  ultimately show ?thesis
    using len(2) by (intro exI [of _ "is"] exI [of _ "drop (sp_len p) (sp_words p)"]) auto
qed

lemma program_run_arm:
  assumes "good_words (w_word W)" "prog_ok (w_word W) A p" "w_arch W = Arm"
  shows "\<exists>r vm'. program_run W p vm = Some (r, vm')"
proof -
  obtain "is" post where p: "sp_words p = code_words (w_word W) is @ w_word W halt_prim # post"
    "sp_len p = length (code_words (w_word W) is) + 1" "length (code_words (w_word W) is) < 128"
    "if sp_yields_value p then \<exists>v. is = chain v [] else \<exists>acts. is = acts_code acts"
    using prog_ok_words [OF assms(2)] by blast
  have imms: "list_all (act_imms (\<lambda>v. True)) acts" for acts
  proof (induction acts)
    case (Cons c acts)
    then show ?case
      by (cases c) auto
  qed simp
  have "\<exists>r. run_native W p m = Inr r" for m
  proof (cases "sp_yields_value p")
    case True
    then obtain v where "is = chain v []"
      using p(4) by auto
    then show ?thesis
      using arm.chain_native [OF assms(1), of "[]" v post "(w_regs W, m)"] p True assms(3)
      by (auto simp: run_native_def arith_ops_def)
  next
    case False
    then obtain acts where "is = acts_code acts"
      using p(4) by auto
    then show ?thesis
      using arm.acts_native [OF assms(1) imms, of acts post "(w_regs W, m)"] p False assms(3)
      by (auto simp: run_native_def)
  qed
  then obtain r m where "run_native W p (vm_mem (vm_reset vm)) = Inr (r, m)"
    by fastforce
  then show ?thesis
    using p(2) by (simp add: program_run_def)
qed

fun waits_for_device :: "Outcome \<Rightarrow> bool" where
  "waits_for_device (SpiTx b) = True"
| "waits_for_device FlashTest = True"
| "waits_for_device _ = False"

lemma load_from_live:
  assumes "console_ready W"
  shows "\<exists>s'. load_from W name is words s = Some s'"
proof (induction "is" arbitrary: words)
  case Nil
  then show ?case
    using liveD [OF console_live(2) [OF assms]] by simp
next
  case (Cons i "is")
  obtain r nm ws where ld: "load (w_pstore_base W) (w_pstore_top W) (s_mem s) i (replicate 16 (CHR 0x00)) words = (r, nm, ws)"
    by (metis prod_cases3)
  show ?case
  proof (cases r)
    case (Inl e)
    then show ?thesis
      using ld Cons liveD [OF console_live(2) [OF assms]] by (cases e) auto
  next
    case (Inr count)
    then show ?thesis
      using ld Cons liveD [OF console_live(2) [OF assms]] by (auto split: prod.split sum.split)
  qed
qed

lemma execute_live:
  assumes W: "console_ready W" "w_arch W = Arm" "good_words (w_word W)"
    and ok: "outcome_ok (env_of W s) UNIV out" "\<not> waits_for_device out"
  shows "\<exists>s'. execute W out s = Some s'"
proof -
  note [simp del] = seq.simps
  have sq: "\<exists>s'. seq as t = Some s'" if "\<And>a. a \<in> set as \<Longrightarrow> live a" for as :: "('a System \<Rightarrow> 'a System option) list" and t
    by (rule liveD, rule live_seq, rule that)
  note pr = console_live [OF W(1)] write_value_prints(2) [OF W(1)] pool_prints(2) [OF W(1)] audit_prints(2) [OF W(1)]
    list_prints(2) [OF W(1)] peek_prints(2) [OF W(1)] help_prints(2) [OF W(1)]
  note ln = liveD [OF pr(2)]
  have poke: "\<exists>s'. exec_poke W a v s = Some s'" for a v
    unfolding exec_poke_def by (auto intro!: ln sq pr split: prod.split sum.split)
  show ?thesis
  proof (cases out)
    case (Run p)
    then obtain r vm where "program_run W p ((s_vm s)\<lparr>vm_mem := s_mem s\<rparr>) = Some (r, vm)"
      using program_run_arm [OF W(3) _ W(2), of UNIV p "(s_vm s)\<lparr>vm_mem := s_mem s\<rparr>"] ok(1)
      by (auto simp: outcome_ok_def env_of_def)
    then show ?thesis
      using Run by (auto simp: exec_run_def Let_def intro!: ln sq pr split: option.split)
  next
    case (Claim n)
    then show ?thesis
      by (auto simp: do_claim_def Let_def intro!: sq pr split: option.split prod.split)
  next
    case (Drop n)
    then show ?thesis
      by (auto simp: do_drop_def Let_def intro!: sq pr split: option.split prod.split)
  next
    case (Load n)
    then show ?thesis
      using load_from_live [OF W(1)] W(2) by (auto simp: exec_load_def)
  next
    case (Store n)
    then show ?thesis
      using W(2) by (auto simp: exec_store_def intro!: ln split: option.split)
  next
    case (Spawn n)
    then show ?thesis
      using W(2) by (auto simp: exec_spawn_def Let_def intro!: ln sq pr split: option.split prod.split)
  next
    case Bench
    obtain ls t vm where "execute W Bench s = seq (map (puts W) ls) (set_mem (vm_mem vm) (s\<lparr>s_vm := vm, s_readings := t\<rparr>))"
      using execute_bench [OF W(3)] W(2) by metis
    then show ?thesis
      unfolding Bench by (auto intro!: sq pr)
  next
    case (PoolAlloc n)
    then show ?thesis
      using W(2) by (auto simp: exec_pool_alloc_def intro!: ln sq pr split: prod.split sum.split)
  qed (use W(2) ok(2) in \<open>auto intro!: sq pr poke pr [THEN liveD] split: prod.split\<close>)
qed

lemma execute_keeps_line:
  assumes "execute W out s = Some s'"
  shows "s_line_buf s' = s_line_buf s \<and> s_line_len s' = s_line_len s
    \<and> ((\<forall>n. out \<noteq> Load n) \<longrightarrow> s_compiler s' = s_compiler s)"
proof -
  note k = keeps_fields(2-4)
  note [simp del] = seq.simps
  have sq: "seq as t = Some s' \<Longrightarrow> (\<And>a. a \<in> set as \<Longrightarrow> keeps a) \<Longrightarrow>
      s_line_buf s' = s_line_buf t \<and> s_line_len s' = s_line_len t \<and> s_compiler s' = s_compiler t" for as t
    using k [OF keeps_seq] by blast
  have ln: "puts_line W x t = Some s' \<Longrightarrow>
      s_line_buf s' = s_line_buf t \<and> s_line_len s' = s_line_len t \<and> s_compiler s' = s_compiler t" for x t
    using k [OF console_keeps(2)] by blast
  have pk: "exec_poke W a v s = Some s' \<Longrightarrow>
      s_line_buf s' = s_line_buf s \<and> s_line_len s' = s_line_len s \<and> s_compiler s' = s_compiler s" for a v
    using exec_poke_mem(2-4) by blast
  show ?thesis
    using assms
  proof (cases out)
    case (Run p)
    then show ?thesis
      using assms by (auto simp: exec_run_def Let_def prints split: option.splits prod.splits dest!: sq ln)
  next
    case (Claim n)
    then show ?thesis
      using assms by (auto simp: do_claim_def Let_def prints split: option.splits prod.splits if_splits dest!: sq)
  next
    case (Drop n)
    then show ?thesis
      using assms by (auto simp: do_drop_def prints split: option.splits if_splits dest!: sq)
  next
    case (Load n)
    then show ?thesis
      using assms load_from_mem ln by (fastforce simp: exec_load_def split: if_splits)
  next
    case (Store n)
    then show ?thesis
      using assms by (auto simp: exec_store_def split: option.splits if_splits dest!: ln)
  next
    case (Spawn n)
    then show ?thesis
      using assms by (auto simp: exec_spawn_def Let_def prints split: option.splits prod.splits if_splits dest!: sq ln)
  next
    case (PoolAlloc n)
    then show ?thesis
      using assms by (auto simp: exec_pool_alloc_def prints split: prod.splits sum.splits if_splits dest!: sq ln)
  next
    case (EnforcedPeek a)
    then show ?thesis
      using assms k [OF peek_prints(1)] by auto
  next
    case StoreList
    then show ?thesis
      using assms k [OF list_prints(1)] ln by (auto split: if_splits)
  next
    case SysAudit
    then show ?thesis
      using assms k [OF audit_prints(1)] by auto
  next
    case Help
    then show ?thesis
      using assms k [OF help_prints(1)] by auto
  next
    case Banner
    then show ?thesis
      using assms k [OF console_keeps(1)] by auto
  qed (auto simp: prints split: option.splits prod.splits if_splits dest!: sq ln pk)
qed

text \<open>The loop never hangs on a line (ARM): with a console that keeps becoming ready and any line in the buffer, the
  evaluation turn compiles the line, and unless its outcome waits for the SPI or the flash controller, the printing turn executes
  it, prints and returns to the idle state with an empty line; the compiler state stays one from which the next line can be
  compiled, unless the command was a \<open>load\<close>. Machine code and threaded code of compiled programs always come to their end.\<close>

theorem repl_turn_completes:
  assumes "console_ready W" "w_arch W = Arm" "good_words (w_word W)"
    and "line_inv (l_sys l)" "comp_inv (w_word W) UNIV (s_compiler (l_sys l))" "l_state l = Evaluating"
  shows "\<exists>l1. repl_step W i l = Some l1 \<and> l_state l1 = Printing
    \<and> ((\<forall>out. l_pending l1 = Some (Inr out) \<longrightarrow> \<not> waits_for_device out) \<longrightarrow>
        (\<exists>l2. repl_step W j l1 = Some l2 \<and> l_state l2 = Idle \<and> l_pending l2 = None
          \<and> line_inv (l_sys l2) \<and> line_of (l_sys l2) = []
          \<and> ((\<forall>n. l_pending l1 \<noteq> Some (Inr (Load n))) \<longrightarrow> comp_inv (w_word W) UNIV (s_compiler (l_sys l2)))))"
proof -
  let ?s = "snd (take_line (l_sys l))"
  have s: "s_compiler ?s = s_compiler (l_sys l)" "line_inv ?s" "s_line_len ?s = 0"
    using assms(4) by (simp_all add: take_line_def line_inv_def)
  obtain r c where c: "compile W (fst (take_line (l_sys l))) ?s = Some (r, ?s\<lparr>s_compiler := c\<rparr>)" "comp_inv (w_word W) UNIV c"
    "\<forall>out. r = Some (Inr out) \<longrightarrow> outcome_ok (env_of W ?s) UNIV out"
    using compile_ok [of W ?s] assms(5) s(1) by metis
  let ?s1 = "?s\<lparr>s_compiler := c\<rparr>" and ?l1 = "l\<lparr>l_state := Printing, l_pending := r, l_sys := ?s\<lparr>s_compiler := c\<rparr>\<rparr>"
  have l1: "repl_step W i l = Some ?l1"
    using assms(6) c(1) by (simp add: repl_step_def case_prod_unfold)
  have env: "env_of W ?s1 = env_of W ?s"
    by (simp add: env_of_def s_mem_def)
  have "\<exists>l2. repl_step W j ?l1 = Some l2 \<and> l_state l2 = Idle \<and> l_pending l2 = None \<and> line_inv (l_sys l2) \<and> line_of (l_sys l2) = []
      \<and> ((\<forall>n. r \<noteq> Some (Inr (Load n))) \<longrightarrow> comp_inv (w_word W) UNIV (s_compiler (l_sys l2)))"
    if dev: "\<forall>out. r = Some (Inr out) \<longrightarrow> \<not> waits_for_device out"
  proof -
    have "\<exists>s2. (case r of Some (Inr outcome) \<Rightarrow> execute W outcome ?s1
        | Some (Inl err) \<Rightarrow> seq [puts W ''ERR '', puts W (error_text err)] ?s1 | None \<Rightarrow> Some ?s1) = Some s2
        \<and> s_line_buf s2 = s_line_buf ?s \<and> s_line_len s2 = 0
        \<and> ((\<forall>n. r \<noteq> Some (Inr (Load n))) \<longrightarrow> s_compiler s2 = c)"
    proof (cases r)
      case None
      then show ?thesis
        using s(3) by simp
    next
      case (Some q)
      show ?thesis
      proof (cases q)
        case (Inl err)
        let ?a = "seq [puts W ''ERR '', puts W (error_text err)]"
        have a: "keeps ?a" "live ?a"
          using assms(1) by (auto intro!: prints simp del: seq.simps)
        obtain s2 where s2: "?a ?s1 = Some s2"
          using liveD [OF a(2), of ?s1] by (elim exE)
        then show ?thesis
          using keeps_fields(2-4) [OF a(1) s2] Some Inl s(3) by (simp del: seq.simps)
      next
        case (Inr out)
        then obtain s2 where s2: "execute W out ?s1 = Some s2"
          using execute_live [OF assms(1-3), of ?s1 out] c(3) dev Some unfolding env by auto
        then show ?thesis
          using execute_keeps_line [OF s2] Some Inr s(3) by simp
      qed
    qed
    then obtain s2 where s2: "(case r of Some (Inr outcome) \<Rightarrow> execute W outcome ?s1
        | Some (Inl err) \<Rightarrow> seq [puts W ''ERR '', puts W (error_text err)] ?s1 | None \<Rightarrow> Some ?s1) = Some s2"
      "s_line_buf s2 = s_line_buf ?s" "s_line_len s2 = 0" "(\<forall>n. r \<noteq> Some (Inr (Load n))) \<longrightarrow> s_compiler s2 = c"
      by blast
    obtain s3 where s3: "prompt W s2 = Some s3"
      using liveD [OF console_live(7) [OF assms(1)]] by blast
    have "line_inv s3" "line_of s3 = []" "s_compiler s3 = s_compiler s2"
      using keeps_fields(2-4) [OF console_keeps(6) s3] s2(2,3) s(2) by (simp_all add: line_inv_def line_of_def)
    moreover have "repl_step W j ?l1 = Some (?l1\<lparr>l_state := Idle, l_pending := None, l_sys := s3\<rparr>)"
    proof -
      have "l_sys ?l1 = ?s1" "l_pending ?l1 = r" "l_state ?l1 = Printing"
        by simp_all
      then show ?thesis
        unfolding repl_step_def by (simp only: s2(1) s3 option.case State.case)
    qed
    moreover have "(\<forall>n. r \<noteq> Some (Inr (Load n))) \<longrightarrow> comp_inv (w_word W) UNIV (s_compiler s3)"
      using s2(4) c(2) calculation(3) by auto
    ultimately show ?thesis
      by (intro exI [of _ "?l1\<lparr>l_state := Idle, l_pending := None, l_sys := s3\<rparr>"]) simp
  qed
  then show ?thesis
    using l1 by auto
qed

section \<open>Loading a stored program\<close>

text \<open>What \<open>load\<close> installs (ARM): when the first slot of the program store holds the program \<open>words\<close> saved as \<open>name\<close>, the
  command \<open>load p\<close> defines the function \<open>p\<close> with these words, for \<open>p\<close> the name and also for every non-empty prefix of it. The capability registry
  plays no part: no access in the words is checked, although a function that is defined in a line is checked when it is compiled.\<close>

theorem load_installs_by_prefix:
  assumes "console_ready W" "w_arch W = Arm" "has_store (w_pstore_base W) (w_pstore_top W)"
    and "name \<noteq> []" "length name \<le> 16" "length words \<le> 32"
    and "s_mem s = snd (save (w_pstore_base W) (w_pstore_top W) m 0 name words)"
    and "0 < k" "k \<le> length name" "as_slice nb = take k name" "import_fn (s_compiler s) (take k name) words = (Inr (), c)"
  shows "\<exists>s'. execute W (Load nb) s = Some s' \<and> s_compiler s' = c \<and> s_reg s' = s_reg s"
proof -
  note slot = slot_addr_store [OF assms(3)]
  let ?buf = "replicate 16 (CHR 0x00)" and ?ws = "replicate 64 (0 :: u32)"
  have "slot_holds (s_mem s) (w_pstore_base W) (0 * 277) name words"
    unfolding assms(7) using assms(4-6) by (intro save_holds [OF slot]) auto
  then have ld: "load (w_pstore_base W) (w_pstore_top W) (s_mem s) 0 ?buf ?ws
      = (Inr (length words), name @ drop (length name) ?buf, words @ drop (length words) ?ws)"
    using assms(4-6) by (intro load_holds [OF slot]) auto
  have "[0..<MAX_PROGRAMS] = 0 # [1..<MAX_PROGRAMS]"
    by (simp add: MAX_PROGRAMS_def upt_conv_Cons)
  moreover have "take (length (take k name)) (name @ drop (length name) ?buf) = take k name"
    using assms(9) by simp
  ultimately have ex: "execute W (Load nb) s = puts_line W ''LOADED'' (s\<lparr>s_compiler := c\<rparr>)"
    using assms(2,10,11) ld by (simp add: exec_load_def del: upt_rec_numeral)
  obtain s' where s': "puts_line W ''LOADED'' (s\<lparr>s_compiler := c\<rparr>) = Some s'"
    using liveD [OF console_live(2) [OF assms(1)]] by blast
  then show ?thesis
    using ex keeps_fields(2,5) [OF console_keeps(2) s'] by simp
qed

section \<open>Witnesses\<close>

definition demo_world :: "unit World" where
  "demo_world = \<lparr>w_arch = Arm, w_uart_sr = (\<lambda>t. 0x80), w_word = example_words, w_cycles = (\<lambda>n. 0), w_regs = (\<lambda>r. 0),
    w_stacks = (\<lambda>k. 0x20006000), w_bodies = (\<lambda>k. 0x400), w_pool_base = 0x20010000, w_pstore_base = 0x2001C000,
    w_pstore_top = 0x2001D000, w_spi_sr = (\<lambda>t. 3), w_spi_rx = (\<lambda>t. 0), w_flash = \<lparr>fd_read = (\<lambda>f a. (0, f)), fd_write = (\<lambda>f a v. f)\<rparr>,
    w_counter = (\<lambda>n. 0)\<rparr>"

definition demo_system :: "string \<Rightarrow> unit System" where
  "demo_system line = \<lparr>s_line_buf = line @ replicate (LINE_MAX - length line) (CHR 0x00), s_line_len = length line,
    s_compiler = compiler_new, s_reg = REGISTRY_BITS, s_audit = audit_new, s_machine = demo_machine, s_vm = vm_init (\<lambda>a. 0),
    s_pool = OFFSETS, s_spi_reads = 0, s_flash = (), s_readings = 0, s_con = \<lparr>c_reads = 0, c_out = []\<rparr>\<rparr>"

lemma demo_ready: "console_ready demo_world" "w_arch demo_world = Arm" "good_words (w_word demo_world)"
  "w_word demo_world = example_words"
  using good_example_words by (auto simp: console_ready_def demo_world_def tx_ready_def SR_TXE_def)

lemma demo_line: "length line \<le> LINE_MAX \<Longrightarrow> line_inv (demo_system line)" "line_of (demo_system line) = line"
  "s_compiler (demo_system line) = compiler_new"
  by (auto simp: line_inv_def line_of_def demo_system_def)

theorem repl_reads_line_witness:
  "\<exists>l'. seq (map (repl_step demo_world) [(0x20, 97), (0x20, 8), (0x20, 98), (0x20, 13)])
      \<lparr>l_state = Idle, l_pending = None, l_sys = demo_system []\<rparr> = Some l'
    \<and> l_state l' = Evaluating \<and> fst (take_line (l_sys l')) = ''b''"
proof -
  let ?l = "\<lparr>l_state = Idle, l_pending = None, l_sys = demo_system []\<rparr>"
  let ?bs = "[CHR ''a'', CHR 0x08, CHR ''b'']"
  have in': "list_all2 (\<lambda>i b. poll_get_byte (w_arch demo_world) (fst i) (snd i) = Some b)
      [(0x20, 97), (0x20, 8), (0x20, 98), (0x20, 13)] (?bs @ [CHR 0x0D])"
    unfolding demo_ready(2) by code_simp
  have e: "foldl edit [] ?bs = ''b''" "\<forall>b\<in>set ?bs. \<not> newline b" "newline (CHR 0x0D)"
    by code_simp+
  have "line_inv (l_sys ?l)" "line_of (l_sys ?l) = []" "l_state ?l = Idle \<or> l_state ?l = Reading"
    using demo_line(1,2) [of "[]"] by simp_all
  from repl_reads_line [OF demo_ready(1) this(1,3,2) in' e(2,3)] show ?thesis
    unfolding e(1) by blast
qed

theorem command_memory_granted_witness:
  "\<exists>s1 out s2. compile demo_world ''poke 0x20000000 7;'' (demo_system []) = Some (Some (Inr out), s1)
    \<and> execute demo_world out s1 = Some s2 \<and> s_mem s2 0x20000000 = 7 \<and> granted_now demo_world (demo_system []) 0x20000000"
proof -
  let ?run = "compile demo_world ''poke 0x20000000 7;'' (demo_system [])"
  have inv: "comp_inv (w_word demo_world) UNIV (s_compiler (demo_system []))" "s_mem (demo_system []) 0x20000000 = 0"
    using comp_inv_mono [OF comp_inv_new, of UNIV] by (simp_all add: demo_line demo_system_def demo_machine_def s_mem_def)
  have "map_option fst ?run = Some (Some (Inr (EnforcedPoke 0x20000000 7)))"
    by code_simp
  then obtain s1 where r: "?run = Some (Some (Inr (EnforcedPoke 0x20000000 7)), s1)"
    by auto
  obtain c where s1: "s1 = (demo_system [])\<lparr>s_compiler := c\<rparr>" "outcome_ok (env_of demo_world (demo_system [])) UNIV (EnforcedPoke 0x20000000 7)"
    using compile_ok [OF inv(1), of "''poke 0x20000000 7;''"] r by auto
  have "\<not> is_superuser_active REGISTRY_BITS" "addr_to_cap_id Arm 0x20000000 = None"
    by code_simp+
  then have "enforced_poke_u32 Arm REGISTRY_BITS n log m 0x20000000 7 = (Inr (), log, poke_u32 m 0x20000000 7)" for n log m
    by (simp add: enforced_poke_u32_def)
  moreover have "s_reg s1 = REGISTRY_BITS" "s_audit (set_mem m s1) = s_audit s1" for m
    by (simp_all add: s1(1) demo_system_def set_mem_def)
  ultimately have ex: "execute demo_world (EnforcedPoke 0x20000000 7) s1
      = puts_line demo_world ''OK'' (set_mem (poke_u32 (s_mem s1) 0x20000000 7) (s1\<lparr>s_audit := s_audit s1\<rparr>))"
    by (simp add: exec_poke_def demo_ready(2))
  obtain s2 where s2: "execute demo_world (EnforcedPoke 0x20000000 7) s1 = Some s2"
    unfolding ex using liveD [OF console_live(2) [OF demo_ready(1)]] by blast
  then have "s_mem s2 = poke_u32 (s_mem s1) 0x20000000 7"
    unfolding ex using keeps_fields(1) [OF console_keeps(2)] by fastforce
  then have seven: "s_mem s2 0x20000000 = 7"
    by (simp add: poke_u32_def)
  from command_memory_granted [OF _ demo_ready(3) inv(1) r(1) _ _ s2, of "0x20000000"] show ?thesis
    using r s2 seven inv(2) demo_ready(2) by (auto simp: ungranted_def console_data_def simp del: execute.simps)
qed

theorem repl_turn_completes_witness:
  "\<exists>l1. repl_step demo_world (0, 0) \<lparr>l_state = Evaluating, l_pending = None, l_sys = demo_system ''help''\<rparr> = Some l1
    \<and> l_state l1 = Printing"
proof -
  let ?l = "\<lparr>l_state = Evaluating, l_pending = None, l_sys = demo_system ''help''\<rparr>"
  have "line_inv (l_sys ?l)" "comp_inv (w_word demo_world) UNIV (s_compiler (l_sys ?l))" "l_state ?l = Evaluating"
    using demo_line(1) [of "''help''"] comp_inv_mono [OF comp_inv_new, of UNIV]
    by (simp_all add: demo_line(3) LINE_MAX_def)
  from repl_turn_completes [OF demo_ready(1-3) this, of "(0, 0)" "(0, 0)"] show ?thesis
    by blast
qed

text \<open>The body \<open>poke 0x40020018 1;\<close>, saved as \<open>blink\<close>, is installed as \<open>bl\<close> while no capability is claimed.\<close>

theorem load_installs_by_prefix_witness:
  "\<exists>s'. execute demo_world (Load \<lparr>nb_len = 2, nb_bytes = ''bl'' @ replicate 14 (CHR 0x00)\<rparr>)
      (set_mem (snd (save 0x2001C000 0x2001D000 (\<lambda>a. 0) 0 ''blink''
        (code_words example_words (acts_code [APoke 0x40020018 1])))) (demo_system [])) = Some s'
    \<and> export_fn (s_compiler s') ''bl'' (replicate 8 0)
      = Some (5, code_words example_words (acts_code [APoke 0x40020018 1]) @ [0, 0, 0])
    \<and> check_access Arm (s_reg s') 0x40020018 \<noteq> Inr ()"
proof -
  let ?ws = "code_words example_words (acts_code [APoke 0x40020018 1])"
  let ?s = "set_mem (snd (save 0x2001C000 0x2001D000 (\<lambda>a. 0) 0 ''blink'' ?ws)) (demo_system [])"
  let ?nb = "\<lparr>nb_len = 2, nb_bytes = ''bl'' @ replicate 14 (CHR 0x00)\<rparr>"
  obtain r c where c: "import_fn compiler_new ''bl'' ?ws = (r, c)"
    by fastforce
  have "fst (import_fn compiler_new ''bl'' ?ws) = Inr ()"
    "export_fn (snd (import_fn compiler_new ''bl'' ?ws)) ''bl'' (replicate 8 0) = Some (5, ?ws @ [0, 0, 0])"
    "check_access Arm REGISTRY_BITS 0x40020018 \<noteq> Inr ()"
    by code_simp+
  then have c': "import_fn (s_compiler ?s) (take 2 ''blink'') ?ws = (Inr (), c)" "export_fn c ''bl'' (replicate 8 0) = Some (5, ?ws @ [0, 0, 0])"
    "check_access Arm (s_reg ?s) 0x40020018 \<noteq> Inr ()"
    using c by (simp_all add: demo_line(3)) (simp add: demo_system_def)
  have W: "has_store (w_pstore_base demo_world) (w_pstore_top demo_world)"
    "s_mem ?s = snd (save (w_pstore_base demo_world) (w_pstore_top demo_world) (\<lambda>a. 0) 0 ''blink'' ?ws)"
    "as_slice ?nb = take 2 ''blink''"
    by (simp_all add: demo_world_def has_store_def as_slice_def)
  show ?thesis
    using load_installs_by_prefix [OF demo_ready(1,2) W(1) _ _ _ W(2) _ _ W(3) c'(1)] c'(2,3) by auto
qed

end
