(* ===== verification/Repl_Invariant.thy ===== *)
theory Repl_Invariant
  imports Repl_Safety
begin

text \<open>
  The well-formedness of the whole system, one clause per component, and that every command keeps it: arrays keep the
  lengths that the Rust types give them, and the indices into them stay in range, so that no command of the loop can
  write outside a static array.
\<close>

section \<open>Well-formed systems\<close>

definition audit_inv :: "AuditLog \<Rightarrow> bool" where
  "audit_inv log \<longleftrightarrow> length (al_buffer log) = 16 \<and> al_head log < 16"

definition sys_wf :: "'f System \<Rightarrow> bool" where
  "sys_wf s \<longleftrightarrow> line_inv s \<and> registry_inv (s_reg s) \<and> audit_inv (s_audit s) \<and> tasks_ok (s_machine s)
    \<and> vm_inv (s_vm s) \<and> pool_inv (s_pool s)"

named_theorems wf_rules \<open>operations that keep the well-formedness of a component\<close>

lemma audit_inv_record [wf_rules]: "audit_inv log \<Longrightarrow> audit_inv (record_event a c log x v)"
  by (simp add: audit_inv_def record_event_def Let_def)

lemma audit_inv_poke [wf_rules]: "audit_inv log \<Longrightarrow> enforced_poke_u32 a r c log m x v = (res, log', m') \<Longrightarrow> audit_inv log'"
  by (auto simp: enforced_poke_u32_def audit_inv_record split: if_splits option.splits)

lemma tasks_ok_mem [simp]: "tasks_ok (t\<lparr>mmem := m\<rparr>) = tasks_ok t"
  by (simp add: tasks_ok_def)

lemma tasks_ok_spawn [wf_rules]: "tasks_ok t \<Longrightarrow> spawn_jit_task stk bodies i t = (r, t') \<Longrightarrow> tasks_ok t'"
  by (auto simp: spawn_jit_task_def Let_def init_task_tasks_ok split: if_splits)

lemma pool_inv_alloc [wf_rules]: "pool_inv offs \<Longrightarrow> alloc b offs i sz = (r, offs') \<Longrightarrow> pool_inv offs'"
  by (auto simp: alloc_def Let_def not_less word_le_nat_alt intro!: pool_inv_update split: if_splits)

lemma pool_inv_reset [wf_rules]: "pool_inv offs \<Longrightarrow> pool_inv (snd (reset offs i))"
  by (auto simp: reset_def intro!: pool_inv_update)

lemma vm_inv_mem [simp]: "vm_inv (vm\<lparr>vm_mem := m\<rparr>) = vm_inv vm"
  by (simp add: vm_inv_def)

lemma vm_inv_push [wf_rules]: "vm_inv vm \<Longrightarrow> vm_inv (snd (vm_push v vm))"
  by (auto simp: vm_inv_def vm_push_def Let_def)

lemma vm_inv_pop [wf_rules]: "vm_inv vm \<Longrightarrow> vm_inv (snd (vm_pop vm))"
  by (auto simp: vm_inv_def vm_pop_def Let_def)

lemma vm_inv_reset [wf_rules]: "vm_inv vm \<Longrightarrow> vm_inv (vm_reset vm)"
  by (simp add: vm_inv_def vm_reset_def)

lemma vm_inv_prim: "vm_inv vm \<Longrightarrow> run_prim p words ip vm = Some (r, vm') \<Longrightarrow> vm_inv vm'"
  by (cases p) (auto simp: binary_prim_def load_reg_def write_reg_def split_def Let_def wf_rules split: if_splits)

lemma vm_inv_stream [wf_rules]: "run_threaded_stream wof words ip vm = Some vm' \<Longrightarrow> vm_inv vm \<Longrightarrow> vm_inv vm'"
proof (induction wof words ip vm rule: run_threaded_stream.induct)
  case (1 wof words ip vm)
  show ?case
    using 1(2,3) 1(1) vm_inv_prim [OF 1(3)]
    by (subst (asm) run_threaded_stream.simps)
      (auto simp: Let_def split: if_splits option.splits prod.splits)
qed

lemma vm_inv_run [wf_rules]:
  assumes "vm_inv vm" "program_run W p vm = Some (r, vm')"
  shows "vm_inv vm'"
proof -
  have "vm_inv (snd (run_result p vm1))" if "vm_inv vm1" for vm1
    using that wf_rules by (auto simp: run_result_def split: prod.split) (metis snd_conv)
  then have "run_result p vm1 = (r, vm') \<Longrightarrow> vm_inv vm1 \<Longrightarrow> vm_inv vm'" for vm1
    by (metis snd_conv)
  then show ?thesis
    using assms vm_inv_reset [OF assms(1)] vm_inv_stream
    by (auto simp: program_run_def Let_def split: if_splits sum.splits prod.splits option.splits native_error.splits)
qed

section \<open>Commands\<close>

lemma sys_wf_fields [simp]:
  "sys_wf (s\<lparr>s_con := c\<rparr>) = sys_wf s" "sys_wf (s\<lparr>s_compiler := k\<rparr>) = sys_wf s" "sys_wf (s\<lparr>s_flash := f\<rparr>) = sys_wf s"
  "sys_wf (s\<lparr>s_spi_reads := t\<rparr>) = sys_wf s" "sys_wf (s\<lparr>s_readings := t\<rparr>) = sys_wf s" "sys_wf (set_mem m s) = sys_wf s"
  by (simp_all add: sys_wf_def line_inv_def set_mem_def)

lemma sys_wf_update [wf_rules]:
  "sys_wf s \<Longrightarrow> registry_inv r \<Longrightarrow> sys_wf (s\<lparr>s_reg := r\<rparr>)"
  "sys_wf s \<Longrightarrow> audit_inv log \<Longrightarrow> sys_wf (s\<lparr>s_audit := log\<rparr>)"
  "sys_wf s \<Longrightarrow> tasks_ok t \<Longrightarrow> sys_wf (s\<lparr>s_machine := t\<rparr>)"
  "sys_wf s \<Longrightarrow> vm_inv vm \<Longrightarrow> sys_wf (s\<lparr>s_vm := vm\<rparr>)"
  "sys_wf s \<Longrightarrow> pool_inv offs \<Longrightarrow> sys_wf (s\<lparr>s_pool := offs\<rparr>)"
  by (simp_all add: sys_wf_def line_inv_def)

lemma sys_wfD:
  assumes "sys_wf s"
  shows "line_inv s" "registry_inv (s_reg s)" "audit_inv (s_audit s)" "tasks_ok (s_machine s)" "vm_inv (s_vm s)"
    "pool_inv (s_pool s)"
  using assms by (simp_all add: sys_wf_def)

lemma keeps_wf: "keeps a \<Longrightarrow> a s = Some s' \<Longrightarrow> sys_wf s' = sys_wf s"
  by (auto dest: keepsD)

lemma puts_line_wf: "puts_line W x s = Some s' \<Longrightarrow> sys_wf s' = sys_wf s"
  by (rule keeps_wf [OF console_keeps(2)])

lemma seq_wf: "seq as s = Some s' \<Longrightarrow> (\<And>a. a \<in> set as \<Longrightarrow> keeps a) \<Longrightarrow> sys_wf s' = sys_wf s"
  by (rule keeps_wf [OF keeps_seq])

lemma load_from_wf: "load_from W name is words s = Some s' \<Longrightarrow> sys_wf s \<Longrightarrow> sys_wf s'"
proof (induction W name "is" words s rule: load_from.induct)
  case (1 W name words s)
  then show ?case
    by (auto dest: puts_line_wf)
next
  case (2 W name i "is" words s)
  obtain r nm ws where ld: "load (w_pstore_base W) (w_pstore_top W) (s_mem s) i (replicate 16 (CHR 0x00)) words = (r, nm, ws)"
    by (metis prod_cases3)
  show ?case
  proof (cases r)
    case (Inl e)
    then show ?thesis
      using 2 ld by (cases e) (auto dest: puts_line_wf)
  next
    case (Inr count)
    then show ?thesis
      using 2 ld by (cases "take (length name) nm = name") (auto dest: puts_line_wf split: prod.splits sum.splits)
  qed
qed

lemma exec_poke_wf:
  assumes "sys_wf s" "exec_poke W a v s = Some s'"
  shows "sys_wf s'"
proof -
  obtain r log m where e: "enforced_poke_u32 (w_arch W) (s_reg s) (w_cycles W (al_count (s_audit s))) (s_audit s) (s_mem s) a v
      = (r, log, m)"
    by (metis prod_cases3)
  then have "sys_wf (set_mem m (s\<lparr>s_audit := log\<rparr>))"
    using wf_rules(2) [OF sys_wfD(3) [OF assms(1)] e] assms(1) by (simp add: wf_rules)
  then show ?thesis
    using assms(2) e by (cases r) (auto simp: exec_poke_def prints simp del: seq.simps dest!: seq_wf puts_line_wf)
qed

lemma exec_run_wf:
  assumes "sys_wf s" "exec_run W p s = Some s'"
  shows "sys_wf s'"
proof -
  obtain r vm where run: "program_run W p ((s_vm s)\<lparr>vm_mem := s_mem s\<rparr>) = Some (r, vm)"
    using assms(2) by (auto simp: exec_run_def split: option.splits)
  then have "vm_inv vm"
    using vm_inv_run [OF _ run] sys_wfD(5) [OF assms(1)] by simp
  then have "sys_wf (set_mem (vm_mem vm) (s\<lparr>s_vm := vm\<rparr>))"
    using assms(1) by (simp add: wf_rules)
  then show ?thesis
    using assms(2) run by (cases r) (auto simp: exec_run_def Let_def prints simp del: seq.simps dest!: seq_wf puts_line_wf)
qed

lemma exec_spawn_wf:
  assumes "sys_wf s" "exec_spawn W n s = Some s'"
  shows "sys_wf s'"
proof (cases "export_fn (s_compiler s) (as_slice n) (replicate MAX_STREAM_WORDS 0)")
  case None
  then show ?thesis
    using assms by (auto simp: exec_spawn_def dest: puts_line_wf)
next
  case (Some cw)
  obtain count words where cw: "cw = (count, words)"
    by fastforce
  note e = Some [unfolded cw]
  show ?thesis
  proof (cases "List.find (\<lambda>i. tcb_state (tcbs (s_machine s) ! (i + 1)) = 0) [0..<2]")
    case None
    then show ?thesis
      using assms e by (simp add: exec_spawn_def del: upt_rec_numeral)
  next
    case (Some i)
    let ?t0 = "(s_machine s)\<lparr>mmem := snd (emit_fn_into_slot i (take count words) (s_mem s))\<rparr>"
    obtain ok t where t: "spawn_jit_task (w_stacks W) (w_bodies W) i ?t0 = (ok, t)"
      by fastforce
    let ?t' = "if ok then t\<lparr>mmem := timer_configure (systick_reload 168000000 1) (mmem t)\<rparr> else t"
    have "tasks_ok t"
      using tasks_ok_spawn [OF _ t] sys_wfD(4) [OF assms(1)] by simp
    then have "sys_wf (s\<lparr>s_machine := ?t'\<rparr>)"
      using assms(1) by (simp add: wf_rules)
    moreover have "seq [puts W ''TASK SPAWNED slot='', puts_dec W (of_nat i), puts_line W []] (s\<lparr>s_machine := ?t'\<rparr>) = Some s'"
      using assms(2) e Some t by (simp add: exec_spawn_def Let_def del: upt_rec_numeral seq.simps)
    moreover have "keeps (seq [puts W ''TASK SPAWNED slot='', puts_dec W (of_nat i), puts_line W []])"
      by (auto intro!: prints simp del: seq.simps)
    ultimately show ?thesis
      using keeps_wf by blast
  qed
qed

lemma exec_wf:
  assumes "sys_wf s"
  shows "do_claim W n s = Some s' \<Longrightarrow> sys_wf s'" "do_drop W n s = Some s' \<Longrightarrow> sys_wf s'"
    "exec_store W n s = Some s' \<Longrightarrow> sys_wf s'" "exec_load W n s = Some s' \<Longrightarrow> sys_wf s'"
    "exec_pool_alloc W sz s = Some s' \<Longrightarrow> sys_wf s'"
proof -
  note [simp del] = seq.simps
  show "do_claim W n s = Some s' \<Longrightarrow> sys_wf s'"
    using assms registry_inv_acquire [OF sys_wfD(2) [OF assms]]
    by (auto simp: do_claim_def Let_def prints wf_rules split_def split: option.splits if_splits dest!: seq_wf)
  show "do_drop W n s = Some s' \<Longrightarrow> sys_wf s'"
    using assms registry_inv_release [OF sys_wfD(2) [OF assms]]
    by (auto simp: do_drop_def prints wf_rules split: option.splits if_splits dest!: seq_wf)
  show "exec_store W n s = Some s' \<Longrightarrow> sys_wf s'"
    using assms by (auto simp: exec_store_def split: option.splits dest!: puts_line_wf)
  show "exec_load W n s = Some s' \<Longrightarrow> sys_wf s'"
    using assms load_from_wf by (auto simp: exec_load_def)
  show "exec_pool_alloc W sz s = Some s' \<Longrightarrow> sys_wf s'"
    using assms pool_inv_alloc [OF sys_wfD(6) [OF assms]]
    by (auto simp: exec_pool_alloc_def prints wf_rules split: prod.splits sum.splits dest!: seq_wf puts_line_wf)
qed

lemma rounds_keep:
  "(\<And>s s'. P s \<Longrightarrow> f s = Some s' \<Longrightarrow> P s') \<Longrightarrow> P s \<Longrightarrow> rounds n f s = Some s' \<Longrightarrow> P s'"
  by (induction n arbitrary: s) (auto split: option.splits)

lemma run_bench_vm_inv: "run_bench a wof counter regs (t, vm) = Some (ls, t', vm') \<Longrightarrow> vm_inv vm \<Longrightarrow> vm_inv vm'"
  unfolding run_bench_def Let_def
  by (auto simp: split_def split: option.splits dest!: rounds_keep [where P = vm_inv, rotated -1] intro: vm_inv_stream)

lemma execute_bench_wf:
  assumes "sys_wf s" "execute W Bench s = Some s'"
  shows "sys_wf s'"
proof -
  obtain ls t vm where b: "run_bench (w_arch W) (w_word W) (w_counter W) (w_regs W) (s_readings s, (s_vm s)\<lparr>vm_mem := s_mem s\<rparr>)
      = Some (ls, t, vm)"
    using assms(2) by (auto split: option.splits)
  then have "vm_inv vm"
    using run_bench_vm_inv sys_wfD(5) [OF assms(1)] by simp
  then have "sys_wf (set_mem (vm_mem vm) (s\<lparr>s_vm := vm, s_readings := t\<rparr>))"
    using assms(1) by (simp add: sys_wf_def line_inv_def set_mem_def)
  moreover have "keeps (seq (map (puts W) ls))"
    by (intro keeps_seq) (auto intro: console_keeps)
  ultimately show ?thesis
    using assms(2) b keeps_wf by fastforce
qed

lemma execute_wf:
  assumes "sys_wf s" "execute W out s = Some s'"
  shows "sys_wf s'"
proof -
  note [simp del] = seq.simps
  show ?thesis
  proof (cases out)
    case (SpiTx b)
    then show ?thesis
      using assms by (auto simp: prints split: option.splits dest!: seq_wf)
  next
    case (Pwm p d)
    then show ?thesis
      using assms by (auto simp: prints split: prod.splits dest!: seq_wf)
  next
    case Bench
    then show ?thesis
      using execute_bench_wf [OF assms(1)] assms(2) by blast
  next
    case (Run p)
    then show ?thesis
      using exec_run_wf [OF assms(1)] assms(2) by auto
  next
    case (Spawn n)
    then show ?thesis
      using exec_spawn_wf [OF assms(1)] assms by (auto split: if_splits dest: puts_line_wf)
  next
    case PoolFree
    then show ?thesis
      using assms pool_inv_reset [OF sys_wfD(6) [OF assms(1)]]
      by (auto simp: wf_rules split: if_splits dest!: puts_line_wf)
  next
    case FlashTest
    then show ?thesis
      using assms by (auto simp: prints split: option.splits dest!: seq_wf)
  next
    case StoreList
    then show ?thesis
      using assms keeps_wf [OF list_prints(1)] by (auto split: if_splits dest: puts_line_wf)
  next
    case SysAudit
    then show ?thesis
      using assms keeps_wf [OF audit_prints(1)] by auto
  next
    case Help
    then show ?thesis
      using assms keeps_wf [OF help_prints(1)] by auto
  next
    case Banner
    then show ?thesis
      using assms keeps_wf [OF console_keeps(1)] by auto
  next
    case (EnforcedPeek a)
    then show ?thesis
      using assms keeps_wf [OF peek_prints(1)] by auto
  qed (use assms in \<open>auto simp: prints intro: exec_wf exec_poke_wf split: if_splits dest!: seq_wf puts_line_wf\<close>)
qed

end
