(* ===== verification/Boot.thy ===== *)
theory Boot
  imports Repl_Invariant Interrupt
begin

text \<open>
  Reset and boot, \<^verbatim>\<open>src/main.rs\<close>, down to the command loop, and the theorem about whole sessions: from the reset entry on,
  whatever arrives on the console, no turn of the loop gets stuck and the system stays well formed.

  The addresses of sections and tables are the linker's, in the record \<open>Link\<close>. Statics start with the values of their
  initialisers; the one exception is the capability registry, whose section is neither loaded nor zeroed at boot
  (\<^verbatim>\<open>memory-layout.x\<close>), so that its initial words are an argument.
\<close>

section \<open>Boot sequence\<close>

record Link =
  ln_sidata :: u32
  ln_sdata :: u32
  ln_edata :: u32
  ln_sbss :: u32
  ln_ebss :: u32
  ln_vector_start :: u32
  ln_vector_end :: u32
  ln_vectors :: u32
  ln_trap_hang :: u32

definition statics :: "registry \<Rightarrow> 'f \<Rightarrow> (nat \<Rightarrow> u32) \<Rightarrow> u32 \<Rightarrow> mem \<Rightarrow> 'f System" where
  "statics r f regs sp m =
    \<lparr>s_line_buf = replicate LINE_MAX (CHR 0x00), s_line_len = 0, s_compiler = compiler_new, s_reg = r, s_audit = audit_new,
     s_machine = \<lparr>rg = regs, psp = sp, mmem = m, tcbs = TCBS, cur = 0\<rparr>, s_vm = vm_init m, s_pool = OFFSETS, s_spi_reads = 0,
     s_flash = f, s_readings = 0, s_con = \<lparr>c_reads = 0, c_out = []\<rparr>\<rparr>"

text \<open>\<open>boot\<close>, for the given console inputs; the second component is the RISC-V trap vector register, if it was written.\<close>

definition boot :: "'f World \<Rightarrow> Link \<Rightarrow> (u32 \<times> u32) list \<Rightarrow> 'f System \<Rightarrow> ('f Loop \<times> u32 option) option" where
  "boot W L inps s =
    (case puts W BANNER (set_mem (uart_init (w_arch W) (s_mem s)) s) of
       None \<Rightarrow> None
     | Some s1 \<Rightarrow>
         (let (m, mtvec) = boot_relocate_vectors (w_arch W) (ln_vector_start L) (ln_vector_end L) (ln_vectors L) (ln_trap_hang L)
                (s_mem s1, None)
          in map_option (\<lambda>l. (l, mtvec)) (repl_run W inps (set_mem m s1))))"

text \<open>\<open>Reset\<close>, on RISC-V after the stack pointer has been set.\<close>

definition Reset :: "'f World \<Rightarrow> Link \<Rightarrow> registry \<Rightarrow> 'f \<Rightarrow> (nat \<Rightarrow> u32) \<Rightarrow> u32 \<Rightarrow> (u32 \<times> u32) list \<Rightarrow> mem
    \<Rightarrow> ('f Loop \<times> u32 option) option" where
  "Reset W L r f regs sp inps m =
    (case init_data_bss (ln_sidata L) (ln_sdata L) (ln_edata L) (ln_sbss L) (ln_ebss L) m of
       None \<Rightarrow> None
     | Some m' \<Rightarrow> boot W L inps (statics r f regs sp m'))"

text \<open>The report of the panic handler, which then parks the core.\<close>

definition panic :: "'f World \<Rightarrow> string option \<Rightarrow> 'f System \<Rightarrow> 'f System option" where
  "panic W msg =
    seq [puts W (lf @ ''PANIC: ''), puts W (case msg of Some t \<Rightarrow> t | None \<Rightarrow> ''(no message)''), puts W lf]"

text \<open>The catch-all handler of the core exceptions, which reports and parks the core as well.\<close>

definition fault_hang :: "'f World \<Rightarrow> 'f System \<Rightarrow> 'f System option" where
  "fault_hang W = puts W (crlf @ ''**FAULT: core exception, halted**'' @ crlf)"

section \<open>Turns of the loop\<close>

text \<open>The state in which every turn of the loop is: a well-formed system, a well-formed compiler, and in the printing state an
  outcome whose accesses the registry has granted.\<close>

definition loop_ok :: "'f World \<Rightarrow> 'f Loop \<Rightarrow> bool" where
  "loop_ok W l \<longleftrightarrow> sys_wf (l_sys l) \<and> comp_inv (w_word W) UNIV (s_compiler (l_sys l))
    \<and> (\<forall>out. l_state l = Printing \<and> l_pending l = Some (Inr out) \<longrightarrow> outcome_ok (env_of W (l_sys l)) UNIV out)"

text \<open>The turns about which nothing can be promised: those that wait for the SPI device or the flash controller, and
  \<open>load\<close>, which installs words from memory unseen.\<close>

definition risky :: "'f Loop \<Rightarrow> bool" where
  "risky l \<longleftrightarrow> l_state l = Printing
    \<and> (case l_pending l of Some (Inr out) \<Rightarrow> waits_for_device out \<or> (case out of Load n \<Rightarrow> True | _ \<Rightarrow> False) | _ \<Rightarrow> False)"

fun admissible :: "'f World \<Rightarrow> (u32 \<times> u32) list \<Rightarrow> 'f Loop \<Rightarrow> bool" where
  "admissible W [] l = True"
| "admissible W (i # is) l = (\<not> risky l \<and> (case repl_step W i l of None \<Rightarrow> True | Some l' \<Rightarrow> admissible W is l'))"

lemma same_but_line_wf:
  assumes "same_but_line s s'" "line_inv s'" "sys_wf s"
  shows "sys_wf s'" "s_compiler s' = s_compiler s"
  using assms same_but_lineD [OF assms(1)] by (auto simp: sys_wf_def)

lemma reading_turn:
  assumes "console_ready W" "loop_ok W l" "l_state l = Idle \<or> l_state l = Reading"
  shows "\<exists>l'. repl_step W i l = Some l' \<and> loop_ok W l'"
proof (cases "poll_get_byte (w_arch W) (fst i) (snd i)")
  case None
  then have "repl_step W i l = Some (l\<lparr>l_state := Reading\<rparr>)"
    using assms(3) by (auto simp: repl_step_def)
  then show ?thesis
    using assms(2) by (simp add: loop_ok_def)
next
  case (Some b)
  obtain st s' where f: "feed W b (l_sys l) = Some (st, s')" "line_inv s'" "st \<noteq> Printing" "same_but_line (l_sys l) s'"
    using feed_edit [OF assms(1), of "l_sys l" b] assms(2) by (auto simp: loop_ok_def sys_wf_def)
  then have "repl_step W i l = Some (l\<lparr>l_state := st, l_sys := s'\<rparr>)"
    using assms(3) Some by (auto simp: repl_step_def)
  then show ?thesis
    using same_but_line_wf [OF f(4,2)] assms(2) f(3) by (simp add: loop_ok_def)
qed

lemma evaluating_turn:
  assumes "loop_ok W l" "l_state l = Evaluating"
  shows "\<exists>l'. repl_step W i l = Some l' \<and> loop_ok W l'"
proof -
  let ?s = "snd (take_line (l_sys l))"
  have s: "s_compiler ?s = s_compiler (l_sys l)" "sys_wf ?s"
    using assms(1) by (auto simp: loop_ok_def take_line_def sys_wf_def line_inv_def)
  obtain r c where c: "compile W (fst (take_line (l_sys l))) ?s = Some (r, ?s\<lparr>s_compiler := c\<rparr>)" "comp_inv (w_word W) UNIV c"
    "\<forall>out. r = Some (Inr out) \<longrightarrow> outcome_ok (env_of W ?s) UNIV out"
    using compile_ok [of W ?s] assms(1) s(1) unfolding loop_ok_def by metis
  have env: "env_of W (?s\<lparr>s_compiler := c\<rparr>) = env_of W ?s"
    by (simp add: env_of_def s_mem_def)
  have "repl_step W i l = Some (l\<lparr>l_state := Printing, l_pending := r, l_sys := ?s\<lparr>s_compiler := c\<rparr>\<rparr>)"
    using assms(2) c(1) by (simp add: repl_step_def case_prod_unfold)
  then show ?thesis
    using c(2,3) s(2) env by (simp add: loop_ok_def)
qed

lemma printing_turn:
  assumes W: "console_ready W" "w_arch W = Arm" "good_words (w_word W)" and l: "loop_ok W l" "l_state l = Printing" "\<not> risky l"
  shows "\<exists>l'. repl_step W i l = Some l' \<and> loop_ok W l'"
proof -
  let ?s = "l_sys l"
  let ?act = "case l_pending l of Some (Inr outcome) \<Rightarrow> execute W outcome ?s
      | Some (Inl err) \<Rightarrow> seq [puts W ''ERR '', puts W (error_text err)] ?s | None \<Rightarrow> Some ?s"
  have "\<exists>s1. ?act = Some s1 \<and> sys_wf s1 \<and> s_compiler s1 = s_compiler ?s"
  proof (cases "l_pending l")
    case None
    then show ?thesis
      using l(1) by (simp add: loop_ok_def)
  next
    case (Some q)
    show ?thesis
    proof (cases q)
      case (Inl err)
      let ?a = "seq [puts W ''ERR '', puts W (error_text err)]"
      have a: "keeps ?a" "live ?a"
        using W(1) by (auto intro!: prints simp del: seq.simps)
      obtain s1 where s1: "?a ?s = Some s1"
        using liveD [OF a(2), of ?s] by (elim exE)
      then show ?thesis
        using keeps_fields(2) [OF a(1) s1] keeps_wf [OF a(1) s1] l(1) Some Inl by (simp add: loop_ok_def del: seq.simps)
    next
      case (Inr out)
      have ok: "outcome_ok (env_of W ?s) UNIV out" "\<not> waits_for_device out" "\<forall>n. out \<noteq> Load n"
        using l Some Inr by (auto simp: loop_ok_def risky_def)
      then obtain s1 where s1: "execute W out ?s = Some s1"
        using execute_live [OF W] by blast
      then show ?thesis
        using execute_wf [OF _ s1] execute_keeps_line [OF s1] ok(3) l(1) Some Inr by (simp add: loop_ok_def)
    qed
  qed
  then obtain s1 where s1: "?act = Some s1" "sys_wf s1" "s_compiler s1 = s_compiler ?s"
    by blast
  obtain s2 where s2: "prompt W s1 = Some s2"
    using liveD [OF console_live(7) [OF W(1)]] by blast
  have "repl_step W i l = Some (l\<lparr>l_state := Idle, l_pending := None, l_sys := s2\<rparr>)"
    unfolding repl_step_def by (simp only: l(2) s1(1) s2 option.case State.case)
  then show ?thesis
    using keeps_fields(2) [OF console_keeps(6) s2] keeps_wf [OF console_keeps(6) s2] s1(2,3) l(1) by (simp add: loop_ok_def)
qed

text \<open>Progress and preservation, one turn and many.\<close>

lemma turn_ok:
  assumes "console_ready W" "w_arch W = Arm" "good_words (w_word W)" "loop_ok W l" "\<not> risky l"
  shows "\<exists>l'. repl_step W i l = Some l' \<and> loop_ok W l'"
  using assms reading_turn evaluating_turn printing_turn by (cases "l_state l") blast+

lemma turns_ok:
  assumes "console_ready W" "w_arch W = Arm" "good_words (w_word W)"
  shows "loop_ok W l \<Longrightarrow> admissible W inps l \<Longrightarrow> \<exists>l'. seq (map (repl_step W) inps) l = Some l' \<and> loop_ok W l'"
proof (induction inps arbitrary: l)
  case (Cons i inps)
  then obtain l1 where "repl_step W i l = Some l1" "loop_ok W l1"
    using turn_ok [OF assms, of l i] by auto
  then show ?case
    using Cons by auto
qed simp

section \<open>Sessions from reset\<close>

lemma statics_ok:
  assumes "registry_inv r"
  shows "sys_wf (statics r f regs sp m)" "comp_inv wof UNIV (s_compiler (statics r f regs sp m))"
    "s_mem (statics r f regs sp m) = m" "s_reg (statics r f regs sp m) = r" "c_out (s_con (statics r f regs sp m)) = []"
proof -
  have "pool_inv OFFSETS"
    by (simp add: pool_inv_def OFFSETS_def NUM_POOLS_def list_all_iff)
  moreover have "tasks_ok \<lparr>rg = regs, psp = sp, mmem = m, tcbs = TCBS, cur = 0\<rparr>"
    by (simp add: tasks_ok_def TCBS_def NUM_TASKS_def tcb_dead_def)
  moreover have "audit_inv audit_new"
    by (simp add: audit_inv_def audit_new_def)
  ultimately show "sys_wf (statics r f regs sp m)"
    using assms by (simp add: sys_wf_def statics_def line_inv_def)
qed (use comp_inv_mono [OF comp_inv_new, of UNIV] in \<open>simp_all add: statics_def s_mem_def\<close>)

lemma puts_out:
  assumes "console_ready W"
  shows "\<exists>c. puts W t s = Some (s\<lparr>s_con := c\<rparr>) \<and> c_out c = c_out (s_con s) @ t"
  using write_str_ready [of "w_arch W" "w_uart_sr W" "s_con s" t] assms
  by (auto simp: console_ready_def puts_def on_con_def)

lemma panic_reports:
  assumes "console_ready W"
  shows "\<exists>c. panic W msg s = Some (s\<lparr>s_con := c\<rparr>)
    \<and> c_out c = c_out (s_con s) @ lf @ ''PANIC: '' @ (case msg of Some t \<Rightarrow> t | None \<Rightarrow> ''(no message)'') @ lf"
proof -
  let ?t = "case msg of Some t \<Rightarrow> t | None \<Rightarrow> ''(no message)''"
  obtain c1 where c1: "puts W (lf @ ''PANIC: '') s = Some (s\<lparr>s_con := c1\<rparr>)" "c_out c1 = c_out (s_con s) @ lf @ ''PANIC: ''"
    using puts_out [OF assms] by blast
  obtain c2 where c2: "puts W ?t (s\<lparr>s_con := c1\<rparr>) = Some (s\<lparr>s_con := c2\<rparr>)" "c_out c2 = c_out c1 @ ?t"
    using puts_out [OF assms, of ?t "s\<lparr>s_con := c1\<rparr>"] by auto
  obtain c3 where c3: "puts W lf (s\<lparr>s_con := c2\<rparr>) = Some (s\<lparr>s_con := c3\<rparr>)" "c_out c3 = c_out c2 @ lf"
    using puts_out [OF assms, of lf "s\<lparr>s_con := c2\<rparr>"] by auto
  show ?thesis
    using c1 c2 c3 by (intro exI [of _ c3]) (simp add: panic_def)
qed

text \<open>What the linker script grants: word-multiple sections, the load image outside the data section and the two sections apart.\<close>

definition sections_ok :: "Link \<Rightarrow> bool" where
  "sections_ok L \<longleftrightarrow>
    (\<exists>n. unat (ln_sdata L) + 4 * n = unat (ln_edata L) \<and> unat (ln_sidata L) + 4 * n < 2 ^ 32
      \<and> (unat (ln_sidata L) + 4 * n \<le> unat (ln_sdata L) \<or> unat (ln_edata L) \<le> unat (ln_sidata L)))
    \<and> (\<exists>k. unat (ln_sbss L) + 4 * k = unat (ln_ebss L))"

lemma init_data_bss_ends:
  assumes "sections_ok L"
  shows "\<exists>m'. init_data_bss (ln_sidata L) (ln_sdata L) (ln_edata L) (ln_sbss L) (ln_ebss L) m = Some m'"
proof -
  obtain n k where nk: "unat (ln_sdata L) + 4 * n = unat (ln_edata L)" "unat (ln_sidata L) + 4 * n < 2 ^ 32"
      "unat (ln_sidata L) + 4 * n \<le> unat (ln_sdata L) \<or> unat (ln_edata L) \<le> unat (ln_sidata L)"
      "unat (ln_sbss L) + 4 * k = unat (ln_ebss L)"
    using assms unfolding sections_ok_def by blast
  obtain m1 where "copy_data m (ln_sidata L) (ln_sdata L) (ln_edata L) = Some m1"
    using copy_data_bytes [OF nk(1-3), of m] by blast
  then show ?thesis
    using zero_bss_bytes [OF nk(4), of m1] by (auto simp: init_data_bss_def)
qed

lemma fault_hang_reports:
  assumes "console_ready W"
  shows "\<exists>c. fault_hang W s = Some (s\<lparr>s_con := c\<rparr>) \<and> c_out c = c_out (s_con s) @ crlf @ ''**FAULT: core exception, halted**'' @ crlf"
  using puts_out [OF assms, of "crlf @ ''**FAULT: core exception, halted**'' @ crlf" s] by (simp add: fault_hang_def)

text \<open>The run of the boot code, up to the first turn of the loop.\<close>

lemma reset_reaches_loop:
  assumes W: "console_ready W" "w_arch W = Arm" and L: "sections_ok L" and r: "registry_inv r"
  obtains s0 where "\<And>inps. Reset W L r f regs sp inps m
      = map_option (\<lambda>l. (l, None)) (seq (map (repl_step W) (drain W inps)) \<lparr>l_state = Idle, l_pending = None, l_sys = s0\<rparr>)"
    "c_out (s_con s0) = BANNER @ ''holy> ''" "peek_u32 (s_mem s0) VTOR = ln_vectors L" "s_reg s0 = r" "sys_wf s0"
    "comp_inv (w_word W) UNIV (s_compiler s0)" "s_compiler s0 = compiler_new" "s_line_len s0 = 0"
proof -
  obtain m1 where m1: "init_data_bss (ln_sidata L) (ln_sdata L) (ln_edata L) (ln_sbss L) (ln_ebss L) m = Some m1"
    using init_data_bss_ends [OF L] by blast
  let ?s0 = "statics r f regs sp m1"
  let ?s1 = "set_mem (uart_init (w_arch W) (s_mem ?s0)) ?s0"
  obtain c where c: "puts W BANNER ?s1 = Some (?s1\<lparr>s_con := c\<rparr>)" "c_out c = BANNER"
    using puts_out [OF W(1), of BANNER ?s1] by (auto simp: set_mem_def statics_ok(5) [OF r])
  let ?s2 = "?s1\<lparr>s_con := c\<rparr>"
  obtain m2 where m2: "boot_relocate_vectors (w_arch W) (ln_vector_start L) (ln_vector_end L) (ln_vectors L) (ln_trap_hang L) (s_mem ?s2, None)
      = (m2, None)" "peek_u32 m2 VTOR = ln_vectors L"
    using W(2) by (simp add: boot_relocate_vectors_def Let_def)
  let ?s3 = "set_mem m2 ?s2"
  obtain c' where c': "prompt W ?s3 = Some (?s3\<lparr>s_con := c'\<rparr>)" "c_out c' = BANNER @ ''holy> ''"
    using puts_out [OF W(1), of "''holy> ''" ?s3] by (auto simp: prompt_def set_mem_def c(2))
  show thesis
  proof (rule that [of "?s3\<lparr>s_con := c'\<rparr>"])
    show "Reset W L r f regs sp inps m = map_option (\<lambda>l. (l, None)) (seq (map (repl_step W) (drain W inps))
        \<lparr>l_state = Idle, l_pending = None, l_sys = ?s3\<lparr>s_con := c'\<rparr>\<rparr>)" for inps
      using m1 c(1) m2(1) c'(1) by (simp add: Reset_def boot_def repl_run_def)
    show "sys_wf (?s3\<lparr>s_con := c'\<rparr>)"
      unfolding sys_wf_fields by (rule statics_ok(1) [OF r])
    show "comp_inv (w_word W) UNIV (s_compiler (?s3\<lparr>s_con := c'\<rparr>))" "s_reg (?s3\<lparr>s_con := c'\<rparr>) = r"
      using statics_ok(2,4) [OF r] by (simp_all add: set_mem_def)
    show "s_compiler (?s3\<lparr>s_con := c'\<rparr>) = compiler_new" "s_line_len (?s3\<lparr>s_con := c'\<rparr>) = 0"
      by (simp_all add: set_mem_def statics_def)
    show "c_out (s_con (?s3\<lparr>s_con := c'\<rparr>)) = BANNER @ ''holy> ''" "peek_u32 (s_mem (?s3\<lparr>s_con := c'\<rparr>)) VTOR = ln_vectors L"
      using c'(2) m2(2) by (simp_all add: s_mem_def set_mem_def)
  qed
qed


definition demo_link :: Link where
  "demo_link = \<lparr>ln_sidata = 0x08004000, ln_sdata = 0x20003000, ln_edata = 0x20003010, ln_sbss = 0x20003010, ln_ebss = 0x20004000,
    ln_vector_start = 0x08000000, ln_vector_end = 0x08000040, ln_vectors = 0x20000400, ln_trap_hang = 0\<rparr>"

lemma demo_sections: "sections_ok demo_link"
proof -
  have "unat (ln_sdata demo_link) + 4 * 4 = unat (ln_edata demo_link)" "unat (ln_sbss demo_link) + 4 * 1020 = unat (ln_ebss demo_link)"
    "unat (ln_sidata demo_link) + 4 * 4 < 2 ^ 32" "unat (ln_sidata demo_link) + 4 * 4 \<le> unat (ln_sdata demo_link)"
    by (simp_all add: demo_link_def)
  then show ?thesis
    unfolding sections_ok_def by blast
qed


end
