(* ===== verification/Cap_Engine.thy ===== *)
theory Cap_Engine
  imports Cap_Registry
begin

text \<open>
  The vector capability engine: the trait \<open>VectorCapabilityEngine\<close> of \<^verbatim>\<open>crates/hros-hal/src/cap.rs\<close> as a locale, its
  implementations for the three architectures in \<^verbatim>\<open>crates/hros-arch-arm\<close>, \<^verbatim>\<open>crates/hros-arch-riscv\<close> and
  \<^verbatim>\<open>crates/hros-arch-x86\<close>, and the capability crate \<^verbatim>\<open>crates/hros-cap\<close>.

  A window base pointer is the list of the four 64-bit words it points to. The intrinsics of the AVX2 path are modelled by
  their definition: \<open>testc a b\<close> is whether \<open>NOT a AND b\<close> is zero.
\<close>

section \<open>The contract\<close>

text \<open>The 4 KiB block of an address.\<close>

definition block :: "u32 \<Rightarrow> nat" where
  "block addr = unat (drop_bit 12 addr)"

lemma block_add: "block (addr + of_nat j * 4096) mod 256 = (block addr + j) mod 256"
proof -
  have b: "block a = unat a div 4096" for a
    by (simp add: block_def drop_bit_eq_div unat_div)
  have "unat (addr + of_nat j * 4096) = (unat addr + j * 4096) mod 2 ^ 32"
    by (simp add: unat_word_ariths unat_of_nat mod_simps)
  then have "block (addr + of_nat j * 4096) = (unat addr + j * 4096) mod (4096 * 2 ^ 20) div 4096"
    by (simp add: b)
  also have "\<dots> = (unat addr + j * 4096) div 4096 mod 2 ^ 20"
    by (subst mod_mult2_eq) simp
  also have "(unat addr + j * 4096) div 4096 = block addr + j"
    by (simp add: b)
  finally show ?thesis
    by (simp add: mod_mod_cancel)
qed

locale vector_engine =
  fixes verify_scalar :: "u32 \<Rightarrow> u64 list \<Rightarrow> bool"
    and verify_vector :: "Mask256 \<Rightarrow> u64 list \<Rightarrow> bool"
    and build_mask :: "u32 \<Rightarrow> nat \<Rightarrow> Mask256 option"
  assumes scalar: "length v = 4 \<Longrightarrow> verify_scalar addr v \<longleftrightarrow> mask_bit v (block addr mod 256)"
    and vector: "length v = 4 \<Longrightarrow> length (mask_words mreq) = 4 \<Longrightarrow>
      verify_vector mreq v \<longleftrightarrow> (\<forall>i<256. mask_bit (mask_words mreq) i \<longrightarrow> mask_bit v i)"
    and mask_bits: "build_mask addr len = Some mreq \<Longrightarrow> i < 256 \<Longrightarrow>
      mask_bit (mask_words mreq) i \<longleftrightarrow> block addr mod 256 \<le> i \<and> i < block addr mod 256 + len"
    and mask_length: "build_mask addr len = Some mreq \<Longrightarrow> length (mask_words mreq) = 4"
    and mask_some: "0 < len \<Longrightarrow> block addr mod 256 + len \<le> 256 \<Longrightarrow> build_mask addr len \<noteq> None"
begin

text \<open>The vector test of a mask reads the bits of the range that lie in the window.\<close>

lemma vector_range:
  assumes "build_mask addr len = Some mreq" "length v = 4"
  shows "verify_vector mreq v \<longleftrightarrow> (\<forall>k<256. block addr mod 256 \<le> k \<and> k < block addr mod 256 + len \<longrightarrow> mask_bit v k)"
  using vector [OF assms(2) mask_length [OF assms(1)]] mask_bits [OF assms(1)] by auto

text \<open>Within a window, one vector test is as good as a scalar test of each block.\<close>

lemma vector_is_scalars:
  assumes "0 < len" "block addr mod 256 + len \<le> 256" "length v = 4"
  shows "\<exists>mreq. build_mask addr len = Some mreq
    \<and> (verify_vector mreq v \<longleftrightarrow> (\<forall>j<len. verify_scalar (addr + of_nat j * 4096) v))"
proof -
  obtain mreq where m: "build_mask addr len = Some mreq"
    using mask_some [OF assms(1,2)] by blast
  let ?b = "block addr mod 256"
  have "verify_scalar (addr + of_nat j * 4096) v \<longleftrightarrow> mask_bit v (?b + j)" if "j < len" for j
  proof -
    have "(block addr + j) mod 256 = (?b + j) mod 256"
      by (rule mod_add_left_eq [symmetric])
    then show ?thesis
      using that assms(2) scalar [OF assms(3)] block_add [of addr j] by simp
  qed
  moreover have "verify_vector mreq v \<longleftrightarrow> (\<forall>j<len. mask_bit v (?b + j))"
  proof -
    have "verify_vector mreq v \<longleftrightarrow> (\<forall>i<256. ?b \<le> i \<and> i < ?b + len \<longrightarrow> mask_bit v i)"
      by (rule vector_range [OF m assms(3)])
    also have "\<dots> \<longleftrightarrow> (\<forall>j<len. mask_bit v (?b + j))"
    proof (intro iffI allI impI)
      fix j assume all: "\<forall>i<256. ?b \<le> i \<and> i < ?b + len \<longrightarrow> mask_bit v i" and "j < len"
      then show "mask_bit v (?b + j)"
        using assms(2) by (intro all [rule_format]) auto
    next
      fix i assume all: "\<forall>j<len. mask_bit v (?b + j)" and "?b \<le> i \<and> i < ?b + len"
      then show "mask_bit v i"
        using all [rule_format, of "i - ?b"] by auto
    qed
    finally show ?thesis .
  qed
  ultimately show ?thesis
    using m by auto
qed

end

text \<open>An engine that also refuses every range that leaves its window, so that an accepted mask means all of the range.\<close>

locale strict_engine = vector_engine +
  assumes mask_in_window: "build_mask addr len = Some mreq \<Longrightarrow> 0 < len \<and> block addr mod 256 + len \<le> 256"
begin

lemma accepted_range:
  assumes "build_mask addr len = Some mreq" "length v = 4"
  shows "verify_vector mreq v \<longleftrightarrow> (\<forall>j<len. verify_scalar (addr + of_nat j * 4096) v)"
  using vector_is_scalars [of len addr v] mask_in_window [OF assms(1)] assms by auto

end

section \<open>The architecture crates\<close>

definition arm_verify_scalar :: "u32 \<Rightarrow> u64 list \<Rightarrow> bool" where
  "arm_verify_scalar addr base =
    (let k = unat (drop_bit 12 addr) mod 256; word = k div 64; b = k mod 64
     in drop_bit b (base ! word) AND 1 = 1)"

definition arm_verify_vector :: "Mask256 \<Rightarrow> u64 list \<Rightarrow> bool" where
  "arm_verify_vector mreq v =
    (let m = mask_words mreq
     in v ! 0 AND m ! 0 = m ! 0 \<and> v ! 1 AND m ! 1 = m ! 1 \<and> v ! 2 AND m ! 2 = m ! 2 \<and> v ! 3 AND m ! 3 = m ! 3)"

definition arm_build_mask :: "u32 \<Rightarrow> nat \<Rightarrow> Mask256 option" where
  "arm_build_mask addr len =
    (if len = 0 \<or> len > 256 then None
     else let k_start = unat (drop_bit 12 addr);
              k_end = k_start + len - 1;
              base = k_start - k_start mod 256
          in if k_end \<ge> base + 256 then None
             else Some (Mask256 (fold (\<lambda>k m. set_mask_bit m (k - base)) [k_start..<k_end + 1] (replicate 4 0))))"

definition riscv_verify_scalar :: "u32 \<Rightarrow> u64 list \<Rightarrow> bool" where
  "riscv_verify_scalar addr base =
    (let k = unat (drop_bit 12 addr) mod 256; word = k div 64; b = k mod 64
     in drop_bit b (base ! word) AND 1 = 1)"

definition riscv_verify_vector :: "Mask256 \<Rightarrow> u64 list \<Rightarrow> bool" where
  "riscv_verify_vector mreq v =
    (let m = mask_words mreq
     in v ! 0 AND m ! 0 = m ! 0 \<and> v ! 1 AND m ! 1 = m ! 1 \<and> v ! 2 AND m ! 2 = m ! 2 \<and> v ! 3 AND m ! 3 = m ! 3)"

definition riscv_build_mask :: "u32 \<Rightarrow> nat \<Rightarrow> Mask256 option" where
  "riscv_build_mask addr len =
    (if len = 0 \<or> len > 256 then None
     else let k_start = unat (drop_bit 12 addr);
              k_end = k_start + len - 1;
              base = k_start - k_start mod 256
          in if k_end \<ge> base + 256 then None
             else Some (Mask256 (fold (\<lambda>k m. set_mask_bit m (k - base)) [k_start..<k_end + 1] (replicate 4 0))))"

definition x86_verify_scalar :: "u32 \<Rightarrow> u64 list \<Rightarrow> bool" where
  "x86_verify_scalar addr vcap_base =
    (let k = unat (drop_bit 12 addr); off = k mod 256; word = off div 64; b = off mod 64
     in drop_bit b (vcap_base ! word) AND 1 = 1)"

text \<open>The vector test of x86, with the AVX2 path that a target feature selects; 256-bit values are lists of four words.\<close>

definition mm256_and :: "u64 list \<Rightarrow> u64 list \<Rightarrow> u64 list" where
  "mm256_and a b = map2 (AND) a b"

definition mm256_testc :: "u64 list \<Rightarrow> u64 list \<Rightarrow> bool" where
  "mm256_testc a b \<longleftrightarrow> list_all (\<lambda>x. x = 0) (map2 (\<lambda>x y. NOT x AND y) a b)"

definition x86_verify_vector :: "bool \<Rightarrow> Mask256 \<Rightarrow> u64 list \<Rightarrow> bool" where
  "x86_verify_vector avx2 mreq v =
    (let m = mask_words mreq
     in if avx2 then mm256_testc (mm256_and v m) m
        else v ! 0 AND m ! 0 = m ! 0 \<and> v ! 1 AND m ! 1 = m ! 1 \<and> v ! 2 AND m ! 2 = m ! 2 \<and> v ! 3 AND m ! 3 = m ! 3)"

definition x86_build_mask :: "u32 \<Rightarrow> nat \<Rightarrow> Mask256 option" where
  "x86_build_mask addr len =
    (if len = 0 \<or> len > 256 then None
     else let k_start = unat (drop_bit 12 addr);
              k_end = k_start + len - 1;
              window_base = k_start - k_start mod 256
          in if k_end \<ge> window_base + 256 then None
             else Some (Mask256 (fold (\<lambda>k m. set_mask_bit m (k - window_base)) [k_start..<k_end + 1] (replicate 4 0))))"

text \<open>The capability number of an address on x86: a 16-bit number.\<close>

definition x86_addr_to_cap :: "u32 \<Rightarrow> u16 option" where
  "x86_addr_to_cap addr = Some (ucast (drop_bit 12 addr))"

text \<open>The three mask builders are the one of the kernel's registry, whose lemmas therefore apply, and so are the scalar
  vector tests.\<close>

lemma engine_masks:
  "arm_build_mask = Cap_Registry.build_mask" "riscv_build_mask = Cap_Registry.build_mask" "x86_build_mask = Cap_Registry.build_mask"
  by (intro ext; simp add: arm_build_mask_def riscv_build_mask_def x86_build_mask_def Cap_Registry.build_mask_def Let_def)+

lemma engine_scalar:
  "arm_verify_scalar addr v \<longleftrightarrow> mask_bit v (block addr mod 256)"
  "riscv_verify_scalar addr v \<longleftrightarrow> mask_bit v (block addr mod 256)"
  "x86_verify_scalar addr v \<longleftrightarrow> mask_bit v (block addr mod 256)"
  by (simp_all add: arm_verify_scalar_def riscv_verify_scalar_def x86_verify_scalar_def Let_def block_def mask_bit_def
      drop_bit_and_1_eq)

lemma length_fold_mask: "length (fold (\<lambda>k m. set_mask_bit m (f k)) ks m) = length m"
  by (induction ks arbitrary: m) auto

lemma build_mask_length: "Cap_Registry.build_mask addr len = Some mreq \<Longrightarrow> length (mask_words mreq) = 4"
  by (auto simp: Cap_Registry.build_mask_def Let_def length_fold_mask split: if_splits)

lemma avx2_test:
  assumes "length v = 4" "length m = 4"
  shows "mm256_testc (mm256_and v m) m \<longleftrightarrow>
    v ! 0 AND m ! 0 = m ! 0 \<and> v ! 1 AND m ! 1 = m ! 1 \<and> v ! 2 AND m ! 2 = m ! 2 \<and> v ! 3 AND m ! 3 = m ! (3::nat)"
proof -
  have sub: "(NOT x OR NOT y) AND y = 0 \<longleftrightarrow> x AND y = y" for x y :: u64
    by (auto simp: bit_eq_iff bit_simps)
  have four: "\<exists>a b c d. w = [a, b, c, d]" if "length w = 4" for w :: "u64 list"
    using that by (auto simp: numeral_eq_Suc length_Suc_conv)
  show ?thesis
    using four [OF assms(1)] four [OF assms(2)] by (auto simp: mm256_testc_def mm256_and_def sub)
qed

lemma engine_vector:
  "arm_verify_vector mreq v = Cap_Registry.verify_vector mreq v" "riscv_verify_vector mreq v = Cap_Registry.verify_vector mreq v"
  "length v = 4 \<Longrightarrow> length (mask_words mreq) = 4 \<Longrightarrow> x86_verify_vector avx2 mreq v = Cap_Registry.verify_vector mreq v"
  by (simp_all add: arm_verify_vector_def riscv_verify_vector_def x86_verify_vector_def Cap_Registry.verify_vector_def Let_def avx2_test)

lemmas engine_laws = engine_masks engine_scalar engine_vector verify_vector_iff build_mask_Some(1,2)
  build_mask_Some(3) [folded block_def] build_mask_length build_mask_None

interpretation arm_engine: strict_engine arm_verify_scalar arm_verify_vector arm_build_mask
  by unfold_locales (auto simp: engine_laws block_def)

interpretation riscv_engine: strict_engine riscv_verify_scalar riscv_verify_vector riscv_build_mask
  by unfold_locales (auto simp: engine_laws block_def)

interpretation x86_engine: strict_engine x86_verify_scalar "x86_verify_vector avx2" x86_build_mask for avx2
  by unfold_locales (auto simp: engine_laws block_def)

end
