(* ===== verification/Hros_Cap.thy ===== *)
theory Hros_Cap
  imports Cap_Engine Cap_Tokens
begin

text \<open>
  The capability crate \<^verbatim>\<open>crates/hros-cap/src/lib.rs\<close>: its own registry and range check, which walks over the 256-block windows
  that a range touches, and its tokens. Indexing an array out of range panics and reading the registry through a
  raw pointer out of range is undefined; both are \<open>None\<close>. Lengths are those for which \<open>k_start + len\<close> does not wrap around.
\<close>

section \<open>Masks\<close>

text \<open>A length is a \<open>usize\<close>, below \<open>2 ^ 32\<close>; the number of the last block wraps around.\<close>

definition build_mask_window :: "u32 \<Rightarrow> nat \<Rightarrow> nat \<Rightarrow> Mask256 option" where
  "build_mask_window addr len window_base =
    (if len = 0 then None
     else let k_start = unat (drop_bit 12 addr);
              k_end = (k_start + len - 1) mod 2 ^ 32;
              win_start = max k_start window_base;
              win_end = min k_end (window_base + 255)
          in if win_start > win_end then None
             else Some (Mask256 (fold (\<lambda>k m. set_mask_bit m (k - window_base)) [win_start..<win_end + 1] (replicate 4 0))))"

definition hc_build_mask :: "u32 \<Rightarrow> nat \<Rightarrow> Mask256 option" where
  "hc_build_mask addr len =
    (if len = 0 \<or> len > 256 then None
     else let k_start = unat (drop_bit 12 addr); window_base = k_start - k_start mod 256
          in build_mask_window addr len window_base)"

definition hc_verify_scalar :: "u32 \<Rightarrow> u64 list \<Rightarrow> bool" where
  "hc_verify_scalar addr vcap_base =
    (let k = unat (drop_bit 12 addr); off = k mod 256; word = off div 64; b = off mod 64
     in drop_bit b (vcap_base ! word) AND 1 = 1)"

definition hc_verify_vector :: "Mask256 \<Rightarrow> u64 list \<Rightarrow> bool" where
  "hc_verify_vector mreq v =
    (let m = mask_words mreq
     in v ! 0 AND m ! 0 = m ! 0 \<and> v ! 1 AND m ! 1 = m ! 1 \<and> v ! 2 AND m ! 2 = m ! 2 \<and> v ! 3 AND m ! 3 = m ! 3)"

section \<open>Registry\<close>

definition hc_available :: "registry \<Rightarrow> nat \<Rightarrow> bool option" where
  "hc_available r i = map_option (\<lambda>w. w AND shl1 (i mod 32) = 0) (arr_get r (i div 32))"

definition hc_acquire :: "registry \<Rightarrow> nat \<Rightarrow> (bool \<times> registry) option" where
  "hc_acquire r i =
    (let msk = shl1 (i mod 32) in map_option (\<lambda>w. (w AND msk = 0, r[i div 32 := w OR msk])) (arr_get r (i div 32)))"

definition hc_release :: "registry \<Rightarrow> nat \<Rightarrow> registry option" where
  "hc_release r i = map_option (\<lambda>w. r[i div 32 := w AND NOT (shl1 (i mod 32))]) (arr_get r (i div 32))"

definition hc_is_claimed :: "registry \<Rightarrow> nat \<Rightarrow> bool option" where
  "hc_is_claimed r i = map_option Not (hc_available r i)"

text \<open>The walk over the windows, from \<open>curr_win\<close>.\<close>

function hc_verify_windows :: "registry \<Rightarrow> u32 \<Rightarrow> nat \<Rightarrow> nat \<Rightarrow> nat \<Rightarrow> bool option" where
  "hc_verify_windows r addr len k_end curr_win =
    (if curr_win \<le> k_end then
       (case build_mask_window addr len curr_win of
          Some mreq \<Rightarrow>
            (case vcap_window r (curr_win div 32) of
               None \<Rightarrow> None
             | Some v \<Rightarrow>
                 if \<not> hc_verify_vector mreq v then Some False
                 else hc_verify_windows r addr len k_end (curr_win + 256))
        | None \<Rightarrow> hc_verify_windows r addr len k_end (curr_win + 256))
     else Some True)"
  by pat_completeness auto
termination
  by (relation "measure (\<lambda>(r, addr, len, k_end, curr_win). k_end + 1 - curr_win)") auto

declare hc_verify_windows.simps [simp del]

definition hc_verify_range_contiguous :: "registry \<Rightarrow> u32 \<Rightarrow> nat \<Rightarrow> bool option" where
  "hc_verify_range_contiguous r addr len =
    (if len = 0 then Some True
     else let k_start = unat (drop_bit 12 addr); k_end = (k_start + len - 1) mod 2 ^ 32
          in hc_verify_windows r addr len k_end (k_start - k_start mod 256))"

section \<open>Tokens\<close>

definition hc_GpioA :: HardwareResource where "hc_GpioA = \<lparr>RESOURCE_ID = 0, NAME = ''GPIOA''\<rparr>"
definition hc_GpioB :: HardwareResource where "hc_GpioB = \<lparr>RESOURCE_ID = 1, NAME = ''GPIOB''\<rparr>"

definition hc_claim :: "registry \<Rightarrow> HardwareResource \<Rightarrow> (Cap option \<times> registry) option" where
  "hc_claim r T =
    map_option (\<lambda>(ok, r'). (if ok then Some (Cap (RESOURCE_ID T)) else None, r')) (hc_acquire r (unat (RESOURCE_ID T)))"

definition hc_drop_cap :: "registry \<Rightarrow> Cap \<Rightarrow> registry option" where
  "hc_drop_cap r c = hc_release r (unat (token_id c))"

section \<open>The registry of the crate\<close>

text \<open>For the 256 resources the functions are those of the kernel's registry; beyond them they panic.\<close>

lemma hc_registry:
  assumes "registry_inv r"
  shows "i < 256 \<Longrightarrow> hc_available r i = Some (available r i)" "i < 256 \<Longrightarrow> hc_acquire r i = Some (acquire r i)"
    "i < 256 \<Longrightarrow> hc_release r i = Some (release r i)"
    "256 \<le> i \<Longrightarrow> hc_available r i = None \<and> hc_acquire r i = None \<and> hc_release r i = None"
proof -
  have "i div 32 < 8 \<longleftrightarrow> i < 256"
    by auto
  then have "arr_get r (i div 32) = (if i < 256 then Some (r ! (i div 32)) else None)"
    using assms by (auto simp: arr_get_def registry_inv_def WORDS_def)
  note g = this
  show "i < 256 \<Longrightarrow> hc_available r i = Some (available r i)" "i < 256 \<Longrightarrow> hc_acquire r i = Some (acquire r i)"
    "i < 256 \<Longrightarrow> hc_release r i = Some (release r i)"
    "256 \<le> i \<Longrightarrow> hc_available r i = None \<and> hc_acquire r i = None \<and> hc_release r i = None"
    by (simp_all add: hc_available_def hc_acquire_def hc_release_def available_def acquire_def release_def Let_def g)
qed

section \<open>Masks of windows\<close>

lemma block_less: "block addr < 2 ^ 20"
proof -
  have "unat addr < 2 ^ 20 * 2 ^ 12"
    using unat_less_u32 [of addr] by simp
  then show ?thesis
    by (simp add: block_def drop_bit_eq_div unat_div)
qed

lemma window_mask_None:
  assumes "block addr + len \<le> 2 ^ 32"
  shows "build_mask_window addr len base = None \<longleftrightarrow> len = 0 \<or> block addr + len \<le> base \<or> base + 256 \<le> block addr"
  using assms by (auto simp: build_mask_window_def Let_def block_def max_def min_def split: if_splits)

lemma window_mask_Some:
  assumes "build_mask_window addr len base = Some mreq" "block addr + len \<le> 2 ^ 32"
  shows "length (mask_words mreq) = 4"
    "i < 256 \<Longrightarrow> mask_bit (mask_words mreq) i \<longleftrightarrow> block addr \<le> base + i \<and> base + i < block addr + len"
proof -
  let ?ks = "[max (block addr) base..<min (block addr + len - 1) (base + 255) + 1]"
  have m: "0 < len" "mask_words mreq = fold (\<lambda>k m. set_mask_bit m (k - base)) ?ks (replicate 4 0)"
    using assms by (auto simp: build_mask_window_def Let_def block_def split: if_splits)
  show "length (mask_words mreq) = 4"
    by (simp add: m(2))
  assume i: "i < 256"
  have "\<forall>k\<in>set ?ks. k - base < 256"
    by auto
  then have "mask_bit (mask_words mreq) i \<longleftrightarrow> (\<exists>k\<in>set ?ks. k - base = i)"
    using mask_bit_fold [of "replicate 4 0" i ?ks base] i by (simp add: m(2))
  also have "\<dots> \<longleftrightarrow> base + i \<in> set ?ks"
    by (auto intro!: bexI [of _ "base + i"])
  also have "\<dots> \<longleftrightarrow> block addr \<le> base + i \<and> base + i < block addr + len"
    using i m(1) by auto
  finally show "mask_bit (mask_words mreq) i \<longleftrightarrow> block addr \<le> base + i \<and> base + i < block addr + len" .
qed

lemma hc_verify_vector_eq: "hc_verify_vector mreq v = verify_vector mreq v"
  by (simp add: hc_verify_vector_def verify_vector_def Let_def)

text \<open>The crate's functions meet the contract of the engine trait. They are not a strict engine: the mask of a range that
  leaves its window covers the part inside only, where the kernel's \<open>build_mask\<close> refuses.\<close>

interpretation hc_engine: vector_engine hc_verify_scalar hc_verify_vector hc_build_mask
proof unfold_locales
  show "hc_verify_scalar addr v \<longleftrightarrow> mask_bit v (block addr mod 256)" for addr v
    by (simp add: hc_verify_scalar_def Let_def block_def mask_bit_def drop_bit_and_1_eq)
  show "hc_verify_vector mreq v \<longleftrightarrow> (\<forall>i<256. mask_bit (mask_words mreq) i \<longrightarrow> mask_bit v i)" if "length v = 4" for mreq v
    using verify_vector_iff [OF that] by (simp add: hc_verify_vector_eq)
next
  fix addr len mreq and i :: nat
  assume m: "hc_build_mask addr len = Some mreq"
  then have w: "build_mask_window addr len (block addr - block addr mod 256) = Some mreq"
    by (auto simp: hc_build_mask_def block_def Let_def split: if_splits)
  have n: "block addr + len \<le> 2 ^ 32"
    using m block_less [of addr] by (auto simp: hc_build_mask_def split: if_splits)
  show "length (mask_words mreq) = 4"
    by (rule window_mask_Some(1) [OF w n])
  have "block addr = block addr - block addr mod 256 + block addr mod 256"
    by simp
  moreover assume "i < 256"
  ultimately show "mask_bit (mask_words mreq) i \<longleftrightarrow> block addr mod 256 \<le> i \<and> i < block addr mod 256 + len"
    using window_mask_Some(2) [OF w n, of i] by linarith
next
  fix addr len
  assume "0 < len" "block addr mod 256 + len \<le> 256"
  then show "hc_build_mask addr len \<noteq> None"
    using window_mask_None [of addr len "block addr - block addr mod 256"] block_less [of addr]
    by (auto simp: hc_build_mask_def block_def Let_def)
qed

section \<open>Ranges\<close>

text \<open>The first window decides, and a second one is always outside the registry.\<close>

lemma hc_windows_outside:
  assumes "registry_inv r" "0 < base" "base \<le> k_end" "k_end = block addr + len - 1" "0 < len" "block addr < base + 256"
    and n: "block addr + len \<le> 2 ^ 32"
  shows "hc_verify_windows r addr len k_end base = None \<or> base mod 256 \<noteq> 0"
proof (cases "base mod 256 = 0")
  case True
  then have "0 < base div 32"
    using assms(2) by (auto simp: div_greater_zero_iff)
  then have "vcap_window r (base div 32) = None"
    by (rule vcap_window_outside [OF assms(1)])
  moreover have "build_mask_window addr len base \<noteq> None"
    using assms(3-6) by (auto simp: window_mask_None [OF n])
  ultimately show ?thesis
    using assms(3) by (subst hc_verify_windows.simps) auto
qed simp

lemma hc_first_window:
  assumes "registry_inv r" "build_mask_window addr len 0 = Some mreq" "block addr + len \<le> 2 ^ 32"
  obtains v where "vcap_window r 0 = Some v"
    "hc_verify_vector mreq v \<longleftrightarrow> (\<forall>k. block addr \<le> k \<and> k < min 256 (block addr + len) \<longrightarrow> k \<in> claimed_ids r)"
proof -
  obtain v where v: "vcap_window r 0 = Some v" "length v = 4" "\<And>i. i < 256 \<Longrightarrow> mask_bit v i \<longleftrightarrow> i \<in> claimed_ids r"
    using vcap_window_0 [OF assms(1)] by metis
  have "hc_verify_vector mreq v \<longleftrightarrow> (\<forall>k. block addr \<le> k \<and> k < min 256 (block addr + len) \<longrightarrow> k \<in> claimed_ids r)"
    unfolding hc_verify_vector_eq verify_vector_iff [OF v(2)] using window_mask_Some(2) [OF assms(2,3)] v(3) by auto
  then show ?thesis
    using that v(1) by blast
qed

lemma hc_range_wraps:
  assumes "2 ^ 32 < block addr + len" "len < 2 ^ 32"
  shows "hc_verify_range_contiguous r addr len = Some True"
proof -
  let ?base = "block addr - block addr mod 256" and ?last = "block addr + len - 1 - 2 ^ 32"
  have e: "(block addr + len - 1) mod 2 ^ 32 = ?last" "?last < block addr" "0 < len"
    using assms block_less [of addr] by (auto simp: mod_if)
  have "build_mask_window addr len ?base = None"
    using e by (simp add: build_mask_window_def Let_def flip: block_def)
  moreover have "hc_verify_windows r addr len ?last (?base + 256) = Some True"
  proof -
    have "\<not> ?base + 256 \<le> ?last"
      using e(2) mod_less_divisor [of 256 "block addr"] by linarith
    then show ?thesis
      by (subst hc_verify_windows.simps) (rule if_not_P)
  qed
  ultimately have "hc_verify_windows r addr len ?last ?base = Some True"
    by (subst hc_verify_windows.simps) simp
  then show ?thesis
    using e by (simp add: hc_verify_range_contiguous_def Let_def flip: block_def)
qed

lemma hc_range_decision:
  assumes "registry_inv r" "0 < len" and n: "block addr + len \<le> 2 ^ 32"
  shows "hc_verify_range_contiguous r addr len = (if 256 \<le> block addr then None
       else if \<exists>k. block addr \<le> k \<and> k < min 256 (block addr + len) \<and> k \<notin> claimed_ids r then Some False
       else if block addr + len \<le> 256 then Some True else None)"
proof -
  let ?base = "block addr - block addr mod 256" and ?last = "block addr + len - 1"
  have "?last mod 2 ^ 32 = ?last"
    using n assms(2) by (intro mod_less) linarith
  then have start: "hc_verify_range_contiguous r addr len = hc_verify_windows r addr len ?last ?base"
    using assms(2) by (simp add: hc_verify_range_contiguous_def Let_def flip: block_def)
  have base: "?base mod 256 = 0" "?base \<le> block addr" "block addr < ?base + 256"
  proof -
    show "?base mod 256 = 0"
      by (simp add: minus_mod_eq_mult_div)
    show "?base \<le> block addr" "block addr < ?base + 256"
      using mod_less_divisor [of 256 "block addr"] mod_less_eq_dividend [of "block addr" 256] by linarith+
  qed
  show ?thesis
  proof (cases "256 \<le> block addr")
    case True
    then have "0 < ?base"
      using base(3) by linarith
    then show ?thesis
      using hc_windows_outside [OF assms(1), of ?base ?last addr len] base assms(2) n True start by simp
  next
    case False
    then have b0: "?base = 0"
      by simp
    obtain mreq where m: "build_mask_window addr len 0 = Some mreq"
      using window_mask_None [OF n, of 0] assms(2) False by fastforce
    obtain v where v: "vcap_window r 0 = Some v"
      "hc_verify_vector mreq v \<longleftrightarrow> (\<forall>k. block addr \<le> k \<and> k < min 256 (block addr + len) \<longrightarrow> k \<in> claimed_ids r)"
      by (rule hc_first_window [OF assms(1) m n])
    have "hc_verify_windows r addr len ?last 256 = (if block addr + len \<le> 256 then Some True else None)"
    proof (cases "block addr + len \<le> 256")
      case True
      then show ?thesis
        using assms(2) by (subst hc_verify_windows.simps) auto
    next
      case gt: False
      then show ?thesis
        using hc_windows_outside [OF assms(1), of 256 ?last addr len] assms(2) n False by simp
    qed
    then show ?thesis
      unfolding start b0 using m v assms(2) False by (subst hc_verify_windows.simps) auto
  qed
qed

lemma kernel_range_decision:
  assumes "registry_inv r" "block addr + len \<le> 256" "\<not> is_superuser_active r" "0 < len"
  shows "verify_range_contiguous arch r addr len = Some (Inr ()) \<longleftrightarrow>
    (\<forall>k. block addr \<le> k \<and> k < block addr + len \<longrightarrow> k \<in> claimed_ids r)"
proof -
  have lt: "block addr < 256" "block addr mod 256 = block addr"
    using assms by auto
  then obtain mreq where m: "build_mask addr len = Some mreq"
    using build_mask_None [of addr len] assms(2,4) by (fastforce simp: block_def)
  obtain v where v: "vcap_window r 0 = Some v" "length v = 4" "\<And>i. i < 256 \<Longrightarrow> mask_bit v i \<longleftrightarrow> i \<in> claimed_ids r"
    using vcap_window_0 [OF assms(1)] by metis
  have "verify_vector mreq v \<longleftrightarrow> (\<forall>k. block addr \<le> k \<and> k < block addr + len \<longrightarrow> k \<in> claimed_ids r)"
    unfolding verify_vector_iff [OF v(2)]
    using build_mask_Some(3) [OF m, folded block_def] v(3) lt assms(2) by auto
  moreover have "verify_range_contiguous arch r addr len = Some (Inr ()) \<longleftrightarrow> verify_vector mreq v"
    using m v(1) assms(3,4) lt by (simp add: verify_range_contiguous_def Let_def block_def)
  ultimately show ?thesis
    by simp
qed

text \<open>C21. What the range check of the capability crate decides, for every length that a \<open>usize\<close> holds: an empty range is accepted,
  and so is one whose last block number wraps around, without any test; a range that starts at or
  above 1 MiB is checked against memory outside the 32-byte registry; a range that starts below is refused exactly if one of its blocks
  below 1 MiB is not claimed, and otherwise accepted if it ends below 1 MiB, else continued outside the registry.
  On ranges below 1 MiB it agrees with the kernel's own check without the superuser.\<close>

theorem hc_range_check_exact:
  assumes "registry_inv r" "len < 2 ^ 32"
  shows "hc_verify_range_contiguous r addr len =
      (if len = 0 \<or> 2 ^ 32 < block addr + len then Some True
       else if 256 \<le> block addr then None
       else if \<exists>k. block addr \<le> k \<and> k < min 256 (block addr + len) \<and> k \<notin> claimed_ids r then Some False
       else if block addr + len \<le> 256 then Some True else None)
    \<and> (block addr + len \<le> 256 \<and> \<not> is_superuser_active r \<longrightarrow>
        (hc_verify_range_contiguous r addr len = Some True \<longleftrightarrow> verify_range_contiguous arch r addr len = Some (Inr ())))"
proof (cases "len = 0")
  case True
  then show ?thesis
    by (simp add: hc_verify_range_contiguous_def verify_range_contiguous_def)
next
  case False
  then show ?thesis
    using hc_range_decision [OF assms(1), of len addr] hc_range_wraps [OF _ assms(2), of addr r]
      kernel_range_decision [OF assms(1), of addr len arch]
    by (cases "2 ^ 32 < block addr + len") auto
qed

theorem hc_range_check_exact_witness:
  "hc_verify_range_contiguous (snd (acquire REGISTRY_BITS 0)) 0 1 = Some True
    \<and> hc_verify_range_contiguous REGISTRY_BITS 0x00100000 1 = None \<and> hc_verify_range_contiguous REGISTRY_BITS 0x2000 0xFFFFFFFF = Some True"
proof -
  have "block 0 = 0" "block 0x00100000 = 256" "block 0x2000 = 2" "claimed_ids (snd (acquire REGISTRY_BITS 0)) = {0}"
    by (simp_all add: block_def claimed_acquire)
  then show ?thesis
    using hc_range_check_exact [of "snd (acquire REGISTRY_BITS 0)" 1 0 Arm] hc_range_check_exact [of REGISTRY_BITS 1 "0x00100000" Arm] hc_range_check_exact [of REGISTRY_BITS "0xFFFFFFFF" "0x2000" Arm]
    by auto
qed

section \<open>The engines\<close>

lemma hc_tokens:
  assumes "registry_inv r" "unat (RESOURCE_ID T) < 256" "unat (token_id c) < 256"
  shows "hc_claim r T = Some (claim r T)" "hc_drop_cap r c = Some (drop_cap r c)"
  using hc_registry(2) [OF assms(1,2)] hc_registry(3) [OF assms(1,3)]
  by (simp_all add: hc_claim_def claim_def hc_drop_cap_def drop_cap_def split_def)

text \<open>C22. The capability engines of all architectures decide alike, and as the window says: bit \<open>k\<close> of the 256 bits of the window stands for block \<open>k\<close> of 4 KiB. In each of the
  ARM, RISC-V and x86 engines, the latter on the AVX2 and on the scalar path, and in the functions of the capability crate, the scalar test of an address
  reads the bit of its block; and for a range of blocks inside the window all of them build a mask whose
  vector test succeeds exactly if the bit of every block of the range is set. A range that leaves
  the window is refused by the three engines; the capability crate builds a mask for it all the same, which tests
  only the blocks inside the window.\<close>

theorem engines_agree:
  assumes "length v = 4" "0 < len" "len \<le> 256"
  shows "let b = unat addr div 4096 mod 256; held = (\<lambda>k. bit (v ! (k div 64)) (k mod 64))
    in arm_verify_scalar addr v = held b \<and> riscv_verify_scalar addr v = held b \<and> x86_verify_scalar addr v = held b \<and> hc_verify_scalar addr v = held b
      \<and> (if b + len \<le> 256
         then \<exists>ma mr mx mc. arm_build_mask addr len = Some ma \<and> riscv_build_mask addr len = Some mr
            \<and> x86_build_mask addr len = Some mx \<and> hc_build_mask addr len = Some mc
            \<and> (\<forall>test\<in>{arm_verify_vector ma, riscv_verify_vector mr, x86_verify_vector avx2 mx, hc_verify_vector mc}.
                 test v \<longleftrightarrow> (\<forall>k. b \<le> k \<and> k < b + len \<longrightarrow> held k))
         else arm_build_mask addr len = None \<and> riscv_build_mask addr len = None \<and> x86_build_mask addr len = None
           \<and> (\<exists>mc. hc_build_mask addr len = Some mc \<and> (hc_verify_vector mc v \<longleftrightarrow> (\<forall>k. b \<le> k \<and> k < 256 \<longrightarrow> held k))))"
proof -
  have b: "unat addr div 4096 mod 256 = block addr mod 256"
    by (simp add: block_def drop_bit_eq_div unat_div)
  have held: "bit (v ! (k div 64)) (k mod 64) = mask_bit v k" for k
    by (simp add: mask_bit_def)
  note scalar = arm_engine.scalar [OF assms(1)] riscv_engine.scalar [OF assms(1)] x86_engine.scalar [OF assms(1)] hc_engine.scalar [OF assms(1)]
  note vector = arm_engine.vector_range [OF _ assms(1)] riscv_engine.vector_range [OF _ assms(1)] x86_engine.vector_range [OF _ assms(1)]
    hc_engine.vector_range [OF _ assms(1)]
  show ?thesis
  proof (cases "block addr mod 256 + len \<le> 256")
    case True
    then obtain ma mr mx mc where m: "arm_build_mask addr len = Some ma" "riscv_build_mask addr len = Some mr"
        "x86_build_mask addr len = Some mx" "hc_build_mask addr len = Some mc"
      using arm_engine.mask_some [OF assms(2) True] riscv_engine.mask_some [OF assms(2) True] x86_engine.mask_some [OF assms(2) True]
        hc_engine.mask_some [OF assms(2) True] by auto
    have in_window: "(\<forall>k<256. block addr mod 256 \<le> k \<and> k < block addr mod 256 + len \<longrightarrow> mask_bit v k)
        \<longleftrightarrow> (\<forall>k. block addr mod 256 \<le> k \<and> k < block addr mod 256 + len \<longrightarrow> mask_bit v k)"
      using True by auto
    show ?thesis
      unfolding Let_def b held scalar
      using True m vector(1) [OF m(1)] vector(2) [OF m(2)] vector(3) [OF m(3), of avx2] vector(4) [OF m(4)] in_window by simp
  next
    case False
    obtain mc where mc: "hc_build_mask addr len = Some mc"
      using window_mask_None [of addr len "block addr - block addr mod 256"] assms(2,3) block_less [of addr]
      by (auto simp: hc_build_mask_def block_def Let_def)
    have "hc_verify_vector mc v \<longleftrightarrow> (\<forall>k. block addr mod 256 \<le> k \<and> k < 256 \<longrightarrow> mask_bit v k)"
      using vector(4) [OF mc] False by auto
    moreover have "arm_build_mask addr len = None \<and> riscv_build_mask addr len = None \<and> x86_build_mask addr len = None"
      using False by (simp add: engine_masks build_mask_None block_def)
    ultimately show ?thesis
      unfolding Let_def b held scalar using False mc by simp
  qed
qed

text \<open>Two blocks from block 255 on: only the crate builds a mask, and it tests the last block of the window.\<close>

theorem engines_agree_witness:
  "\<exists>mc. hc_build_mask 0x000FF000 2 = Some mc \<and> hc_verify_vector mc [0, 0, 0, push_bit 63 1] \<and> x86_build_mask 0x000FF000 2 = None"
proof -
  have "255 \<le> k \<and> k < 256 \<longleftrightarrow> k = 255" for k :: nat
    by auto
  then show ?thesis
    using engines_agree [of "[0, 0, 0, push_bit 63 1]" 2 "0x000FF000" False] by (auto simp: Let_def)
qed

end
