(* ===== verification/Hal_Switch.thy ===== *)
theory Hal_Switch
  imports Multitask
begin

text \<open>
  Context switches and interrupt controllers of the architecture crates: the traits \<open>ContextSwitch\<close> and
  \<open>InterruptController\<close> of \<^verbatim>\<open>crates/hros-hal\<close> and their implementations in \<^verbatim>\<open>crates/hros-arch-arm\<close>,
  \<^verbatim>\<open>crates/hros-arch-riscv\<close> and \<^verbatim>\<open>crates/hros-arch-x86\<close>, the assembly of the former as its effect on registers and memory.
  What a switch promises is the locale \<open>callee_switch\<close>, interpreted for ARM and RISC-V.
\<close>

section \<open>The crates\<close>

record Cpu =
  gpr :: "nat \<Rightarrow> u32"
  sp_reg :: u32
  cmem :: mem

text \<open>ARM: \<open>stmdb\<close> and \<open>ldmia\<close> of r4 to r11.\<close>

definition arm_save_callee :: "u32 \<Rightarrow> Cpu \<Rightarrow> u32 \<times> Cpu" where
  "arm_save_callee sp c = (let (out, m) = stmdb (cmem c) sp (gpr c) in (out, c\<lparr>cmem := m\<rparr>))"

definition arm_restore_callee :: "u32 \<Rightarrow> Cpu \<Rightarrow> u32 \<times> Cpu" where
  "arm_restore_callee sp c = (let (inp, r) = ldmia (cmem c) sp (gpr c) in (inp, c\<lparr>gpr := r\<rparr>))"

definition arm_switch :: "u32 \<Rightarrow> u32 \<Rightarrow> Cpu \<Rightarrow> Cpu" where
  "arm_switch current nxt c =
    (let (saved, c1) = arm_save_callee (peek_u32 (cmem c) current) c;
         c2 = c1\<lparr>cmem := poke_u32 (cmem c1) current saved\<rparr>;
         (restored, c3) = arm_restore_callee nxt c2
     in c3\<lparr>sp_reg := restored\<rparr>)"

text \<open>RISC-V: s0 to s7 are x8, x9 and x18 to x23; s8 to s11 are not saved.\<close>

definition S_REGS :: "(u32 \<times> nat) list" where
  "S_REGS = [(0, 8), (4, 9), (8, 18), (12, 19), (16, 20), (20, 21), (24, 22), (28, 23)]"

definition riscv_save_callee :: "u32 \<Rightarrow> Cpu \<Rightarrow> u32 \<times> Cpu" where
  "riscv_save_callee sp c =
    (let out = sp - 32
     in (out, c\<lparr>cmem := fold (\<lambda>(off, r) m. poke_u32 m (out + off) (gpr c r)) S_REGS (cmem c)\<rparr>))"

definition riscv_restore_callee :: "u32 \<Rightarrow> Cpu \<Rightarrow> u32 \<times> Cpu" where
  "riscv_restore_callee sp c =
    (sp + 32, c\<lparr>gpr := fold (\<lambda>(off, r) g. g(r := peek_u32 (cmem c) (sp + off))) S_REGS (gpr c)\<rparr>)"

definition riscv_switch :: "u32 \<Rightarrow> u32 \<Rightarrow> Cpu \<Rightarrow> Cpu" where
  "riscv_switch current nxt c =
    (let (saved, c1) = riscv_save_callee (peek_u32 (cmem c) current) c;
         c2 = c1\<lparr>cmem := poke_u32 (cmem c1) current saved\<rparr>;
         (restored, c3) = riscv_restore_callee nxt c2
     in c3\<lparr>sp_reg := restored\<rparr>)"

text \<open>x86: no effect.\<close>

definition x86_switch :: "u32 \<Rightarrow> u32 \<Rightarrow> Cpu \<Rightarrow> Cpu" where
  "x86_switch current nxt c = c"

text \<open>\<open>next_task\<close>; the remainder by zero panics.\<close>

definition arm_next_task :: "nat \<Rightarrow> nat \<Rightarrow> nat option" where
  "arm_next_task current len = (if len = 0 then None else Some ((current + 1) mod len))"

definition riscv_next_task :: "nat \<Rightarrow> nat \<Rightarrow> nat option" where
  "riscv_next_task current len = (if len = 0 then None else Some ((current + 1) mod len))"

definition x86_next_task :: "nat \<Rightarrow> nat \<Rightarrow> nat option" where
  "x86_next_task current len = (if len = 0 then None else Some ((current + 1) mod len))"

text \<open>Interrupt controllers. Registers that are read are arguments.\<close>

definition arm_relocate :: "u32 \<Rightarrow> mem \<Rightarrow> mem" where
  "arm_relocate table m = poke_u32 m 0xE000ED08 table"

definition arm_pending :: "u32 \<Rightarrow> nat option" where
  "arm_pending icsr = (let n = unat (icsr AND 0x1FF) in if n \<ge> 16 then Some (n - 16) else None)"

definition arm_ack :: "nat \<Rightarrow> mem \<Rightarrow> mem" where
  "arm_ack slot m = poke_u32 m (0xE000E200 + of_nat (slot div 32 * 4)) (shl1 (slot mod 32))"

definition arm_is_nmi :: "nat \<Rightarrow> bool" where
  "arm_is_nmi slot \<longleftrightarrow> slot = 2"

definition riscv_relocate :: "u32 \<Rightarrow> u32" where
  "riscv_relocate table = table AND NOT 3"

definition riscv_pending :: "u32 \<Rightarrow> nat option" where
  "riscv_pending cause = Some (unat (cause AND 0x7FFFFFFF))"

section \<open>The contract of a switch\<close>

text \<open>Memory regions as sets of bytes.\<close>

definition bytes :: "u32 \<Rightarrow> nat \<Rightarrow> u32 set" where
  "bytes a n = {c. unat (c - a) < n}"

definition agree :: "u32 set \<Rightarrow> mem \<Rightarrow> mem \<Rightarrow> bool" where
  "agree A m m' \<longleftrightarrow> (\<forall>c\<in>A. m' c = m c)"

lemma agree_peek: "agree (bytes a 4) m m' \<Longrightarrow> peek_u32 m' a = peek_u32 m a"
  by (auto simp: agree_def bytes_def peek_u32_def)

lemma agree_trans: "agree A m m' \<Longrightarrow> agree A m' m'' \<Longrightarrow> agree A m m''"
  by (simp add: agree_def)

lemma agree_frame: "frame m m' a n \<Longrightarrow> A \<inter> bytes a n = {} \<Longrightarrow> agree A m m'"
proof -
  assume f: "frame m m' a n" and d: "A \<inter> bytes a n = {}"
  have "m' c = m c" if "c \<in> A" for c
  proof -
    have "c \<notin> bytes a n"
      using d that by blast
    then show ?thesis
      using f by (simp add: frame_def bytes_def not_less)
  qed
  then show ?thesis
    by (simp add: agree_def)
qed

lemma agree_poke: "A \<inter> bytes a 4 = {} \<Longrightarrow> agree A m (poke_u32 m a v)"
  by (rule agree_frame [OF frame_poke]) auto

lemma bytes_word: "i < 8 \<Longrightarrow> bytes (a + of_nat (i * 4)) 4 \<subseteq> bytes a 32"
proof
  fix c assume i: "i < 8" and "c \<in> bytes (a + of_nat (i * 4)) 4"
  then have c: "unat (c - (a + of_nat (i * 4))) < 4"
    by (simp add: bytes_def del: of_nat_mult)
  have "c - a = (c - (a + of_nat (i * 4))) + of_nat (i * 4)"
    by simp
  moreover have "unat (of_nat (i * 4) :: u32) = i * 4"
    using i by (simp add: unat_of_nat take_bit_nat_eq_self_iff del: of_nat_mult)
  ultimately have "unat (c - a) \<le> unat (c - (a + of_nat (i * 4))) + i * 4"
    by (metis unat_plus_if' le_refl diff_le_self)
  then show "c \<in> bytes a 32"
    using c i by (simp add: bytes_def)
qed

locale callee_switch =
  fixes save restore :: "u32 \<Rightarrow> Cpu \<Rightarrow> u32 \<times> Cpu" and switch :: "u32 \<Rightarrow> u32 \<Rightarrow> Cpu \<Rightarrow> Cpu" and saved_regs :: "nat set"
  assumes save_sp: "fst (save sp c) = sp - 32"
    and save_frame: "frame (cmem c) (cmem (snd (save sp c))) (sp - 32) 32"
    and restore_sp: "fst (restore sp c) = sp + 32"
    and restore_regs: "k \<in> saved_regs \<Longrightarrow> agree (bytes (sp - 32) 32) (cmem (snd (save sp c))) (cmem c') \<Longrightarrow>
      gpr (snd (restore (sp - 32) c')) k = gpr c k"
    and switch_eq: "switch current nxt c =
      (let (s, c1) = save (peek_u32 (cmem c) current) c; c2 = c1\<lparr>cmem := poke_u32 (cmem c1) current s\<rparr>; (r, c3) = restore nxt c2
       in c3\<lparr>sp_reg := r\<rparr>)"
    and restore_mem: "cmem (snd (restore sp c)) = cmem c"
begin

lemma switch_parts:
  defines "sp \<equiv> \<lambda>c current. peek_u32 (cmem c) current"
  shows "cmem (switch current nxt c) = poke_u32 (cmem (snd (save (sp c current) c))) current (sp c current - 32)"
    "sp_reg (switch current nxt c) = nxt + 32"
    "gpr (switch current nxt c) = gpr (snd (restore nxt ((snd (save (sp c current) c))
      \<lparr>cmem := poke_u32 (cmem (snd (save (sp c current) c))) current (sp c current - 32)\<rparr>)))"
  by (simp_all add: switch_eq split_def Let_def save_sp restore_sp restore_mem sp_def)

text \<open>Away and back: the first switch leaves a task whose stack pointer is in the slot \<open>ca\<close>; whatever runs then keeps
  the slot and the 32 bytes below the stack pointer; the second switch, from another task, resumes the first one.\<close>

lemma switch_back:
  assumes spa: "spa = peek_u32 (cmem c) ca" and slot: "bytes ca 4 \<inter> bytes (spa - 32) 32 = {}"
    and run: "agree (bytes ca 4 \<union> bytes (spa - 32) 32) (cmem (switch ca nxt c)) (cmem c2)"
    and other: "bytes (spa - 32) 32 \<inter> (bytes cb 4 \<union> bytes (peek_u32 (cmem c2) cb - 32) 32) = {}"
  defines "c3 \<equiv> switch cb (peek_u32 (cmem c2) ca) c2"
  shows "sp_reg c3 = spa" "\<And>k. k \<in> saved_regs \<Longrightarrow> gpr c3 k = gpr c k"
proof -
  let ?m = "cmem (snd (save spa c))" and ?F = "bytes (spa - 32) 32"
  have m1: "cmem (switch ca nxt c) = poke_u32 ?m ca (spa - 32)"
    by (simp add: switch_parts spa)
  then have nxt: "peek_u32 (cmem c2) ca = spa - 32"
    using agree_peek [of ca "cmem (switch ca nxt c)" "cmem c2"] run by (auto simp: agree_def)
  then show "sp_reg c3 = spa"
    by (simp add: c3_def switch_parts)
  let ?spb = "peek_u32 (cmem c2) cb"
  let ?m3 = "poke_u32 (cmem (snd (save ?spb c2))) cb (?spb - 32)"
  have "agree ?F ?m (cmem (switch ca nxt c))"
    unfolding m1 by (rule agree_poke) (use slot in blast)
  moreover have "agree ?F (cmem (switch ca nxt c)) (cmem c2)"
    using run by (auto simp: agree_def)
  moreover have "agree ?F (cmem c2) (cmem (snd (save ?spb c2)))"
    by (rule agree_frame [OF save_frame]) (use other in blast)
  moreover have "agree ?F (cmem (snd (save ?spb c2))) ?m3"
    by (rule agree_poke) (use other in blast)
  ultimately have "agree ?F ?m ?m3"
    by (meson agree_trans)
  then show "gpr c3 k = gpr c k" if "k \<in> saved_regs" for k
    unfolding c3_def switch_parts nxt by (intro restore_regs [OF that]) simp
qed

end

section \<open>The two implementations\<close>

lemma saved_words:
  assumes "length ws = 8" "i < 8" "agree (bytes a 32) (poke_words m a ws) m'"
  shows "peek_u32 m' (a + of_nat (i * 4)) = ws ! i"
proof -
  have "agree (bytes (a + of_nat (i * 4)) 4) (poke_words m a ws) m'"
    using assms(3) bytes_word [OF assms(2), of a] unfolding agree_def by blast
  then have "peek_u32 m' (a + of_nat (i * 4)) = peek_u32 (poke_words m a ws) (a + of_nat (i * 4))"
    by (rule agree_peek)
  then show ?thesis
    using poke_words_peek [of i ws 0 m a] assms(1,2) by (simp del: of_nat_mult)
qed

lemma riscv_save_words: "cmem (snd (riscv_save_callee sp c)) = poke_words (cmem c) (sp - 32) (map (gpr c) (map snd S_REGS))"
  by (simp add: riscv_save_callee_def S_REGS_def Let_def algebra_simps)

interpretation arm_hal: callee_switch arm_save_callee arm_restore_callee arm_switch "{4..<12}"
proof unfold_locales
  fix sp c k and c' :: Cpu
  assume k: "k \<in> {4..<12::nat}" and "agree (bytes (sp - 32) 32) (cmem (snd (arm_save_callee sp c))) (cmem c')"
  then have "peek_u32 (cmem c') (sp - 32 + of_nat ((k - 4) * 4)) = map (gpr c) [4..<12] ! (k - 4)"
    by (intro saved_words) (auto simp: arm_save_callee_def stmdb_def simp del: upt_rec_numeral)
  moreover have "map (gpr c) [4..<12] ! (k - 4) = gpr c k"
    using k by (subst nth_map) (auto simp del: upt_rec_numeral)
  ultimately show "gpr (snd (arm_restore_callee (sp - 32) c')) k = gpr c k"
    using k by (simp add: arm_restore_callee_def ldmia_def del: upt_rec_numeral of_nat_mult)
qed (use frame_poke_words [of "map (gpr _) [4..<12]"] in
  \<open>auto simp: arm_save_callee_def arm_restore_callee_def arm_switch_def stmdb_def ldmia_def simp del: upt_rec_numeral\<close>)

interpretation riscv_hal: callee_switch riscv_save_callee riscv_restore_callee riscv_switch "snd ` set S_REGS"
proof unfold_locales
  fix sp c
  show "frame (cmem c) (cmem (snd (riscv_save_callee sp c))) (sp - 32) 32"
    unfolding riscv_save_words using frame_poke_words [of "map (gpr c) (map snd S_REGS)" "cmem c" "sp - 32"]
    by (simp add: S_REGS_def)
next
  fix sp c k and c' :: Cpu
  assume k: "k \<in> snd ` set S_REGS" and "agree (bytes (sp - 32) 32) (cmem (snd (riscv_save_callee sp c))) (cmem c')"
  then have w: "peek_u32 (cmem c') (sp - 32 + of_nat (i * 4)) = map (gpr c) (map snd S_REGS) ! i" if "i < 8" for i
    unfolding riscv_save_words using that by (intro saved_words) (auto simp: S_REGS_def)
  from w [of 0] w [of 1] w [of 2] w [of 3] w [of 4] w [of 5] w [of 6] w [of 7] k
  show "gpr (snd (riscv_restore_callee (sp - 32) c')) k = gpr c k"
    by (auto simp: riscv_restore_callee_def S_REGS_def)
qed (simp_all add: riscv_save_callee_def riscv_restore_callee_def riscv_switch_def Let_def)

section \<open>Properties\<close>

text \<open>A context switch of the architecture crates loses nothing it promises to save: a task is switched away, with its
  stack pointer in the slot \<open>ca\<close> apart from the 32 bytes below it; other code runs, in which registers and memory change at will but for the slot
  and those bytes; and a switch from another task, with slot and frame elsewhere, resumes what the slot says. Then
  the stack pointer and the saved registers are as before: r4 to r11 on ARM, s0 to s7 on RISC-V.
  On x86 a switch has no effect at all.\<close>

theorem hal_switch_roundtrip:
  assumes spa: "spa = peek_u32 (cmem c) ca" and slot: "bytes ca 4 \<inter> bytes (spa - 32) 32 = {}"
    and arm: "agree (bytes ca 4 \<union> bytes (spa - 32) 32) (cmem (arm_switch ca nxt c)) (cmem c2)"
    and riscv: "agree (bytes ca 4 \<union> bytes (spa - 32) 32) (cmem (riscv_switch ca nxt c)) (cmem d2)"
    and arm_b: "bytes (spa - 32) 32 \<inter> (bytes cb 4 \<union> bytes (peek_u32 (cmem c2) cb - 32) 32) = {}"
    and riscv_b: "bytes (spa - 32) 32 \<inter> (bytes cb 4 \<union> bytes (peek_u32 (cmem d2) cb - 32) 32) = {}"
  shows "sp_reg (arm_switch cb (peek_u32 (cmem c2) ca) c2) = spa
    \<and> (\<forall>k\<in>{4..<12}. gpr (arm_switch cb (peek_u32 (cmem c2) ca) c2) k = gpr c k)
    \<and> sp_reg (riscv_switch cb (peek_u32 (cmem d2) ca) d2) = spa
    \<and> (\<forall>k\<in>{8, 9, 18, 19, 20, 21, 22, 23}. gpr (riscv_switch cb (peek_u32 (cmem d2) ca) d2) k = gpr c k)
    \<and> x86_switch cb nxt c2 = c2"
proof -
  have regs: "{8, 9, 18, 19, 20, 21, 22, 23} = snd ` set S_REGS"
    by (auto simp: S_REGS_def)
  show ?thesis
    unfolding regs using arm_hal.switch_back [OF spa slot arm arm_b] riscv_hal.switch_back [OF spa slot riscv riscv_b]
    by (simp add: x86_switch_def)
qed

lemma next_task_round_robin:
  assumes "len \<noteq> 0"
  shows "((\<lambda>t. the (arm_next_task t len)) ^^ n) t mod len = (t + n) mod len"
    "riscv_next_task t len = arm_next_task t len" "x86_next_task t len = arm_next_task t len"
proof -
  show "((\<lambda>t. the (arm_next_task t len)) ^^ n) t mod len = (t + n) mod len"
  proof (induction n)
    case (Suc n)
    have "((\<lambda>t. the (arm_next_task t len)) ^^ Suc n) t mod len = Suc (((\<lambda>t. the (arm_next_task t len)) ^^ n) t) mod len"
      using assms by (simp add: arm_next_task_def)
    also have "\<dots> = (t + Suc n) mod len"
      using Suc by (metis add_Suc_right mod_Suc_eq)
    finally show ?case .
  qed simp
qed (simp_all add: arm_next_task_def riscv_next_task_def x86_next_task_def)

lemma arm_pending_range: "arm_pending icsr = Some n \<Longrightarrow> n < 496"
proof -
  have "unat (icsr AND 0x1FF) < 512"
    using word_and_le1 [of icsr "0x1FF"] by (simp add: word_le_nat_alt)
  then show "arm_pending icsr = Some n \<Longrightarrow> n < 496"
    by (auto simp: arm_pending_def Let_def split: if_splits)
qed

text \<open>Two tasks with slots at 0x20000000 and 0x20000004 and stacks at 0x20001000 and 0x20002000.\<close>

definition demo_cpu :: Cpu where
  "demo_cpu = \<lparr>gpr = of_nat, sp_reg = 0, cmem = poke_u32 (poke_u32 (\<lambda>a. 0) 0x20000000 0x20001000) 0x20000004 0x20002000\<rparr>"

lemma bytes_apart:
  assumes "n \<le> unat (b - a)" "m \<le> unat (a - b)"
  shows "bytes a n \<inter> bytes b m = {}"
proof (rule ccontr)
  assume "bytes a n \<inter> bytes b m \<noteq> {}"
  then obtain c where c: "unat (c - a) < n" "unat (c - b) < m"
    by (auto simp: bytes_def)
  show False
  proof (cases "c - b \<le> c - a")
    case True
    then have "unat (b - a) = unat (c - a) - unat (c - b)"
      using unat_sub [of "c - b" "c - a"] by simp
    then show False
      using c(1) assms(1) by simp
  next
    case False
    then have "unat (a - b) = unat (c - b) - unat (c - a)"
      using unat_sub [of "c - a" "c - b"] by simp
    then show False
      using c(2) assms(2) by simp
  qed
qed

theorem hal_switch_roundtrip_witness:
  "sp_reg (arm_switch 0x20000004 (peek_u32 (cmem (arm_switch 0x20000000 0x20003000 demo_cpu)) 0x20000000)
      (arm_switch 0x20000000 0x20003000 demo_cpu)) = 0x20001000
    \<and> gpr (riscv_switch 0x20000004 (peek_u32 (cmem (riscv_switch 0x20000000 0x20003000 demo_cpu)) 0x20000000)
      (riscv_switch 0x20000000 0x20003000 demo_cpu)) 18 = 18"
proof -
  let ?c2 = "arm_switch 0x20000000 0x20003000 demo_cpu" and ?d2 = "riscv_switch 0x20000000 0x20003000 demo_cpu"
  have p: "0x20001000 = peek_u32 (cmem demo_cpu) 0x20000000" "peek_u32 (cmem ?c2) 0x20000004 = 0x20002000"
    "peek_u32 (cmem ?d2) 0x20000004 = 0x20002000" "gpr demo_cpu 18 = 18"
    by code_simp+
  have slot: "bytes 0x20000000 4 \<inter> bytes (0x20001000 - 32) 32 = {}"
    by (rule bytes_apart) simp_all
  have "bytes (0x20001000 - 32) 32 \<inter> bytes 0x20000004 4 = {}" "bytes (0x20001000 - 32) 32 \<inter> bytes (0x20002000 - 32) 32 = {}"
    by (rule bytes_apart; simp)+
  then have other: "bytes (0x20001000 - 32) 32 \<inter> (bytes 0x20000004 4 \<union> bytes (0x20002000 - 32) 32) = {}"
    by blast
  have refl: "agree A m m" for A m
    by (simp add: agree_def)
  from hal_switch_roundtrip [where nxt = "0x20003000" and cb = "0x20000004", OF p(1) slot refl refl] show ?thesis
    unfolding p(2,3) using other p(4) by simp
qed

end
