(* ===== verification/Hros_Jit.thy ===== *)
theory Hros_Jit
  imports Complex_Main Lexer "HOL-Library.Log_Nat"
begin

text \<open>
  The lexer of the crate \<^verbatim>\<open>crates/hros-jit\<close> and the pseudo-random generator and fuzz loop of
  \<^verbatim>\<open>crates/hros-kernel/src/fuzz.rs\<close>. The lexer works on a cursor into a byte array; arithmetic on literals wraps around, as in a
  release build. The window test of the watchdog computes in single precision, which is modelled by rounding rational numbers.
\<close>

section \<open>The lexer\<close>

datatype jit_Token = JIdentifier string | JLiteral u32 | JSemicolon | JEof | JError string

record jit_Lexer =
  jl_stream :: string
  jl_cursor :: nat

definition jit_lexer_new :: "string \<Rightarrow> jit_Lexer" where
  "jit_lexer_new s = \<lparr>jl_stream = s, jl_cursor = 0\<rparr>"

text \<open>The loops that advance the cursor while a byte belongs to a class.\<close>

function advance :: "(char \<Rightarrow> bool) \<Rightarrow> string \<Rightarrow> nat \<Rightarrow> nat" where
  "advance p s c = (if c < length s \<and> p (s ! c) then advance p s (c + 1) else c)"
  by pat_completeness auto
termination
  by (relation "measure (\<lambda>(p, s, c). length s - c)") auto

declare advance.simps [simp del]

function literal_loop :: "string \<Rightarrow> nat \<Rightarrow> u32 \<Rightarrow> u32 \<times> nat" where
  "literal_loop s c v =
    (if c < length s \<and> is_ascii_digit (s ! c) then literal_loop s (c + 1) (v * 10 + of_nat (of_char (s ! c) - 48)) else (v, c))"
  by pat_completeness auto
termination
  by (relation "measure (\<lambda>(s, c, v). length s - c)") auto

declare literal_loop.simps [simp del]

definition jit_next_token :: "jit_Lexer \<Rightarrow> jit_Token \<times> jit_Lexer" where
  "jit_next_token l =
    (let s = jl_stream l; c = advance (\<lambda>b. b = CHR '' '') s (jl_cursor l)
     in if c \<ge> length s then (JEof, l\<lparr>jl_cursor := c\<rparr>)
        else let b = s ! c
             in if is_ascii_alphabetic b then
                  (let e = advance is_ascii_alphanumeric s c in (JIdentifier (take (e - c) (drop c s)), l\<lparr>jl_cursor := e\<rparr>))
                else if is_ascii_digit b then (let (v, e) = literal_loop s c 0 in (JLiteral v, l\<lparr>jl_cursor := e\<rparr>))
                else (JError ''unexpected'', l\<lparr>jl_cursor := c + 1\<rparr>))"

section \<open>The fuzz loop\<close>

definition lcg_next :: "u32 \<Rightarrow> u32" where
  "lcg_next state = state * 1664525 + 1013904223"

definition next_byte :: "u32 \<Rightarrow> u8 \<times> u32" where
  "next_byte state = (let s = lcg_next state in (ucast (drop_bit 24 s), s))"

text \<open>One buffer is filled with \<open>len\<close> bytes; a write past its end panics.\<close>

fun fill_buf :: "nat \<Rightarrow> nat \<Rightarrow> u8 list \<Rightarrow> u32 \<Rightarrow> (u8 list \<times> u32) option" where
  "fill_buf i 0 buf rng = Some (buf, rng)"
| "fill_buf i (Suc n) buf rng =
    (if i < length buf then (let (b, rng1) = next_byte rng in fill_buf (i + 1) n (buf[i := b]) rng1) else None)"

fun fuzz_rounds :: "nat \<Rightarrow> nat \<Rightarrow> u32 \<Rightarrow> nat option" where
  "fuzz_rounds 0 checks rng = Some checks"
| "fuzz_rounds (Suc n) checks rng =
    (let (b, rng1) = next_byte rng; len = unat (b mod 32 + 1)
     in case fill_buf 0 len (replicate 32 0) rng1 of
          None \<Rightarrow> None
        | Some (_, rng2) \<Rightarrow> fuzz_rounds n (checks + 1) (lcg_next rng2))"

definition fuzz_uart :: "nat \<Rightarrow> u32 \<Rightarrow> (nat \<times> nat) option" where
  "fuzz_uart n seed = map_option (Pair n) (fuzz_rounds n 0 seed)"

text \<open>The jitter gate, for the bare-metal build and for the simulated one.\<close>

definition verify_jitter_bounds :: "bool \<Rightarrow> u64 \<Rightarrow> bool" where
  "verify_jitter_bounds baremetal delta_ns = (if baremetal then delta_ns = 0 else delta_ns < 100000)"

section \<open>The watchdog window test\<close>

text \<open>\<open>f32\<close>: a positive number of the normal range is rounded to 24 significant bits, to the nearest, and to the even one of two nearest;
  \<open>floor_log2\<close> is its binary exponent. The cast to \<open>u32\<close> truncates and saturates.\<close>

definition floor_log2 :: "rat \<Rightarrow> int" where
  "floor_log2 x = (let (n, d) = quotient_of x; g = bitlen n - bitlen d in if x \<ge> 2 powi g then g else g - 1)"

definition round_even :: "rat \<Rightarrow> int" where
  "round_even q = (let f = \<lfloor>q\<rfloor>; r = q - of_int f in if r < 1 / 2 \<or> (r = 1 / 2 \<and> even f) then f else f + 1)"

definition f32_round :: "rat \<Rightarrow> rat" where
  "f32_round x = (let ulp = 2 powi (floor_log2 x - 23) in of_int (round_even (x / ulp)) * ulp)"

definition f32_as_u32 :: "rat \<Rightarrow> u32" where
  "f32_as_u32 x = word_of_int (max 0 (min (2 ^ 32 - 1) \<lfloor>x\<rfloor>))"

definition t_lower :: u32 where
  "t_lower = f32_as_u32 (f32_round (f32_round 84000000 * f32_round (8 / 10000)))"

definition t_upper :: u32 where
  "t_upper = f32_as_u32 (f32_round (f32_round 84000000 * f32_round (1 / 1000)))"

definition wwdt_window_test :: bool where
  "wwdt_window_test =
    (let inside = (t_lower + t_upper) div 2; before0 = t_lower - 1000; after0 = t_upper + 1000
     in inside > t_lower \<and> inside < t_upper \<and> \<not> (before0 > t_lower \<and> before0 < t_upper) \<and> \<not> (after0 > t_lower \<and> after0 < t_upper))"

section \<open>The lexer on lists\<close>

lemma advance_take_drop:
  assumes "c \<le> length s"
  shows "advance p s c \<le> length s" "c \<le> advance p s c" "take (advance p s c - c) (drop c s) = takeWhile p (drop c s)"
    "drop (advance p s c) s = dropWhile p (drop c s)"
proof -
  have "advance p s c = c + length (takeWhile p (drop c s))"
    using assms
  proof (induction p s c rule: advance.induct)
    case (1 p s c)
    show ?case
    proof (cases "c < length s \<and> p (s ! c)")
      case True
      then have "drop c s = s ! c # drop (c + 1) s"
        by (simp add: Cons_nth_drop_Suc)
      then show ?thesis
        using 1 True by (subst advance.simps) simp
    next
      case False
      then have "takeWhile p (drop c s) = []"
        using 1(2) by (cases "drop c s") (auto simp: nth_via_drop)
      then show ?thesis
        using False by (auto simp: advance.simps [of p s c])
    qed
  qed
  note a = this
  have "length (takeWhile p (drop c s)) \<le> length s - c"
    using length_takeWhile_le [of p "drop c s"] by simp
  then show "advance p s c \<le> length s" "c \<le> advance p s c"
    using a assms by simp_all
  show "take (advance p s c - c) (drop c s) = takeWhile p (drop c s)"
    by (simp add: a takeWhile_eq_take [symmetric])
  show "drop (advance p s c) s = dropWhile p (drop c s)"
    by (simp add: a dropWhile_eq_drop add.commute)
qed

text \<open>The value of a run of decimal digits.\<close>

definition digits_value :: "string \<Rightarrow> nat" where
  "digits_value ds = foldl (\<lambda>n c. 10 * n + (of_char c - 48)) 0 ds"

lemma literal_loop_value:
  assumes "c \<le> length s"
  shows "literal_loop s c (of_nat n) =
    (of_nat (foldl (\<lambda>n c. 10 * n + (of_char c - 48)) n (takeWhile is_ascii_digit (drop c s))), advance is_ascii_digit s c)"
  using assms
proof (induction "length s - c" arbitrary: c n)
  case 0
  then show ?case
    by (subst literal_loop.simps, subst advance.simps) simp
next
  case (Suc k)
  show ?case
  proof (cases "is_ascii_digit (s ! c)")
    case True
    have c: "c < length s"
      using Suc(2) by simp
    then have "drop c s = s ! c # drop (c + 1) s"
      by (simp add: Cons_nth_drop_Suc)
    moreover have "literal_loop s c (of_nat n) = literal_loop s (c + 1) (of_nat (10 * n + (of_char (s ! c) - 48)))"
      using c True by (subst literal_loop.simps) (simp add: mult.commute)
    moreover have "advance is_ascii_digit s c = advance is_ascii_digit s (c + 1)"
      using c True by (subst advance.simps) simp
    ultimately show ?thesis
      using Suc(1) [of "c + 1"] Suc(2) c True by (simp del: of_nat_add of_nat_mult)
  next
    case False
    have c: "c < length s"
      using Suc(2) by simp
    then have "takeWhile is_ascii_digit (drop c s) = []"
      using False by (simp add: Cons_nth_drop_Suc [symmetric])
    then show ?thesis
      using False by (subst literal_loop.simps, subst advance.simps) simp
  qed
qed

definition jit_rest :: "jit_Lexer \<Rightarrow> string" where
  "jit_rest l = drop (jl_cursor l) (jl_stream l)"

lemma drop_Cons_nth:
  assumes "c < length s"
  shows "drop c s = s ! c # drop (Suc c) s"
  using assms by (simp add: Cons_nth_drop_Suc)

text \<open>One call of \<open>next_token\<close> of the crate's lexer, on any stream with the cursor inside it, skips spaces and reads the longest
  identifier, the longest run of digits (whose value is taken modulo \<open>2 ^ 32\<close>) or one byte it rejects, leaves the
  cursor right behind it and inside the stream, and returns \<open>Eof\<close> exactly when only spaces are left; a semicolon is rejected.\<close>

theorem jit_next_token_reads:
  assumes "jl_cursor l \<le> length (jl_stream l)" "jit_next_token l = (t, l')" "dropWhile (\<lambda>b. b = CHR '' '') (jit_rest l) = r"
  shows "jl_stream l' = jl_stream l \<and> jl_cursor l \<le> jl_cursor l' \<and> jl_cursor l' \<le> length (jl_stream l) \<and>
    (case r of
       [] \<Rightarrow> t = JEof \<and> jit_rest l' = []
     | b # r' \<Rightarrow>
         if is_ascii_alphabetic b then t = JIdentifier (takeWhile is_ascii_alphanumeric r) \<and> jit_rest l' = dropWhile is_ascii_alphanumeric r
         else if is_ascii_digit b then
           t = JLiteral (of_nat (digits_value (takeWhile is_ascii_digit r))) \<and> jit_rest l' = dropWhile is_ascii_digit r
         else t = JError ''unexpected'' \<and> jit_rest l' = r')"
proof -
  define s where "s = jl_stream l"
  define c where "c = advance (\<lambda>b. b = CHR '' '') s (jl_cursor l)"
  have c: "jl_cursor l \<le> c" "c \<le> length s" "drop c s = r"
    using advance_take_drop [OF assms(1), of "\<lambda>b. b = CHR '' ''"] assms(3) by (simp_all add: c_def s_def jit_rest_def)
  note w = advance_take_drop [OF c(2)] and v = literal_loop_value [OF c(2), of 0]
  show ?thesis
  proof (cases "c < length s")
    case False
    then show ?thesis
      using c assms(2) by (auto simp: jit_next_token_def Let_def jit_rest_def simp flip: s_def c_def)
  next
    case True
    then have r: "r = s ! c # drop (Suc c) s"
      using drop_Cons_nth c(3) by metis
    show ?thesis
      using True c w [of is_ascii_alphanumeric] w [of is_ascii_digit] v assms(2)
      by (auto simp: jit_next_token_def Let_def jit_rest_def digits_value_def r split: if_splits simp flip: s_def c_def)
  qed
qed

theorem jit_next_token_reads_witness:
  "\<exists>t l'. jit_next_token \<lparr>jl_stream = ''  lit 4294967299;'', jl_cursor = 5\<rparr> = (t, l') \<and> t = JLiteral 3 \<and> jit_rest l' = '';''"
proof -
  let ?l = "\<lparr>jl_stream = ''  lit 4294967299;'', jl_cursor = 5\<rparr>"
  obtain t l' where n: "jit_next_token ?l = (t, l')"
    by fastforce
  have r: "dropWhile (\<lambda>b. b = CHR '' '') (jit_rest ?l) = ''4294967299;''"
    by code_simp
  show ?thesis
    using jit_next_token_reads [OF _ n r] n by (simp add: is_ascii_digit_def is_ascii_alphabetic_def in_range_def digits_value_def)
qed

section \<open>The fuzz loop returns\<close>

lemma fill_buf_returns:
  assumes "i + n \<le> length buf"
  shows "\<exists>buf' rng'. fill_buf i n buf rng = Some (buf', rng') \<and> length buf' = length buf"
  using assms
proof (induction n arbitrary: i buf rng)
  case (Suc n)
  obtain b rng1 where "next_byte rng = (b, rng1)"
    by fastforce
  then show ?case
    using Suc.IH [of "i + 1" "buf[i := b]" rng1] Suc.prems by simp
qed simp

lemma fuzz_len: "unat (b mod 32 + 1 :: u8) \<le> 32"
proof -
  have "b mod 32 \<le> 31"
    by (simp add: word_le_def uint_mod)
  then show ?thesis
    by (simp add: word_le_nat_alt unat_word_ariths)
qed

text \<open>The fuzz loop never writes outside its buffer and counts one check per mutation, whatever the seed.\<close>

theorem fuzz_uart_returns: "fuzz_uart n seed = Some (n, n)"
proof -
  have "fuzz_rounds n k rng = Some (n + k)" for k rng
  proof (induction n arbitrary: k rng)
    case (Suc n)
    obtain b rng1 where b: "next_byte rng = (b, rng1)"
      by fastforce
    obtain buf rng2 where "fill_buf 0 (unat (b mod 32 + 1)) (replicate 32 0) rng1 = Some (buf, rng2)"
      using fill_buf_returns [of 0 "unat (b mod 32 + 1)" "replicate 32 0" rng1] fuzz_len [of b] by auto
    then show ?case
      using b Suc.IH by simp
  qed simp
  then show ?thesis
    by (simp add: fuzz_uart_def)
qed

text \<open>The generator steps through distinct states: a step can be undone, since its factor is odd.\<close>

lemma lcg_factor: "(x :: u32) * 1664525 * 4276115653 = x" "x * 4276115653 * 1664525 = x"
proof -
  have "(1664525 :: u32) * 4276115653 = 1"
    by simp
  then show "x * 1664525 * 4276115653 = x" "x * 4276115653 * 1664525 = x"
    by (simp_all only: mult.assoc mult.commute [of 4276115653] mult_1_right)
qed

lemma lcg_next_bij: "bij lcg_next"
proof (rule o_bij)
  show "(\<lambda>y. (y - 1013904223) * 4276115653) \<circ> lcg_next = id"
    by (rule ext) (simp only: lcg_next_def comp_def id_def add_diff_cancel_right' lcg_factor)
  show "lcg_next \<circ> (\<lambda>y. (y - 1013904223) * 4276115653) = id"
    by (rule ext) (simp only: lcg_next_def comp_def id_def diff_add_cancel lcg_factor)
qed

section \<open>The watchdog window\<close>

text \<open>The exponent of the rounding is the binary one.\<close>

lemma floor_log2_bounds:
  assumes "0 < x"
  shows "2 powi floor_log2 x \<le> x" "x < 2 powi (floor_log2 x + 1)"
proof -
  obtain n d where q: "quotient_of x = (n, d)"
    by (cases "quotient_of x")
  have x: "x = of_int n / of_int d" and d: "0 < d"
    using quotient_of_div [OF q] quotient_of_denom_pos [OF q] by auto
  then have n: "0 < n"
    using assms by (simp add: zero_less_divide_iff)
  have bl: "2 powi (bitlen k - 1) \<le> (of_int k :: rat)" "(of_int k :: rat) < 2 powi bitlen k" if "0 < k" for k
  proof -
    have "0 < bitlen k"
      using that bitlen_eq_zero_iff [of k] bitlen_nonneg [of k] by linarith
    moreover have "(of_int (2 ^ nat (bitlen k - 1)) :: rat) \<le> of_int k" "(of_int k :: rat) < of_int (2 ^ nat (bitlen k))"
      using bitlen_bounds [OF that] by (simp_all only: of_int_le_iff of_int_less_iff)
    ultimately show "2 powi (bitlen k - 1) \<le> (of_int k :: rat)" "(of_int k :: rat) < 2 powi bitlen k"
      by (simp_all add: power_int_def)
  qed
  have up: "x < 2 powi (bitlen n - bitlen d + 1)"
  proof -
    have "(of_int n :: rat) < 2 powi bitlen n" "2 powi (bitlen d - 1) \<le> (of_int d :: rat)"
      using bl n d by auto
    then have "x < 2 powi bitlen n / 2 powi (bitlen d - 1)"
      unfolding x using n d by (intro frac_less) auto
    then show ?thesis
      by (simp add: power_int_diff power_int_add)
  qed
  have lo: "2 powi (bitlen n - bitlen d - 1) < x"
  proof -
    have "2 powi (bitlen n - 1) \<le> (of_int n :: rat)" "of_int d < (2 powi bitlen d :: rat)"
      using bl n d by auto
    then have "2 powi (bitlen n - 1) / 2 powi bitlen d < x"
      unfolding x using n d by (intro frac_less2) auto
    then show ?thesis
      by (simp add: power_int_diff)
  qed
  show "2 powi floor_log2 x \<le> x" "x < 2 powi (floor_log2 x + 1)"
    using up lo by (auto simp: floor_log2_def q Let_def)
qed

text \<open>The window of 0.8 to 1.0 milliseconds at 84 MHz is 67200 to 84000 cycles, the rounding errors of both products notwithstanding, and the test passes.\<close>

lemma t_lower_cycles: "t_lower = 67200"
  by code_simp

lemma t_upper_cycles: "t_upper = 84000"
  by code_simp

theorem wwdt_window: "wwdt_window_test"
  by (simp add: wwdt_window_test_def t_lower_cycles t_upper_cycles)

end
