(* ===== verification/Crate_Drivers.thy ===== *)
theory Crate_Drivers
  imports Pcie Kernel_Memory Drivers
begin

text \<open>
  The drivers and memory functions of the crates \<^verbatim>\<open>hros-drivers\<close> and \<^verbatim>\<open>hros-kernel\<close>, which restate those
  of \<^verbatim>\<open>src/\<close>. The indices of the DMA ring are kept here as the 32-bit atomics they are, the descriptor is
  written through a raw pointer (a write past the array is \<open>None\<close>), and the arithmetic of \<open>capacity\<close> wraps; the refinement
  shows that the ring never leaves the states in which this makes a difference. The section loops count by words of
  memory and agree with the loops of \<^verbatim>\<open>src/kernel/memory.rs\<close>.
\<close>

section \<open>Definitions\<close>

subsection \<open>The memory functions of the kernel crate\<close>

definition kc_reg_set_bit :: "mem \<Rightarrow> u32 \<Rightarrow> u8 \<Rightarrow> mem" where
  "kc_reg_set_bit m addr b = (let v = peek_u32 m addr OR shl1 (unat b) in poke_u32 m addr v)"

definition kc_reg_clr_bit :: "mem \<Rightarrow> u32 \<Rightarrow> u8 \<Rightarrow> mem" where
  "kc_reg_clr_bit m addr b = (let v = peek_u32 m addr AND NOT (shl1 (unat b)) in poke_u32 m addr v)"

partial_function (option) kc_copy :: "u32 \<Rightarrow> u32 \<Rightarrow> u32 \<Rightarrow> mem \<Rightarrow> mem option" where
  "kc_copy src dst stop m =
    (if dst < stop then kc_copy (src + 4) (dst + 4) stop (poke_u32 m dst (peek_u32 m src)) else Some m)"

partial_function (option) kc_zero :: "u32 \<Rightarrow> u32 \<Rightarrow> mem \<Rightarrow> mem option" where
  "kc_zero z stop m = (if z < stop then kc_zero (z + 4) stop (poke_u32 m z 0) else Some m)"

definition kc_init_data_bss :: "u32 \<Rightarrow> u32 \<Rightarrow> u32 \<Rightarrow> u32 \<Rightarrow> u32 \<Rightarrow> mem \<Rightarrow> mem option" where
  "kc_init_data_bss sidata sdata edata sbss ebss m = Option.bind (kc_copy sidata sdata edata m) (kc_zero sbss ebss)"

subsection \<open>The timer and configuration space of the driver crate\<close>

definition dc_systick_reload :: "u32 \<Rightarrow> u32 \<Rightarrow> u32" where
  "dc_systick_reload f_cpu_hz delta_ms = (f_cpu_hz div 1000) * delta_ms"

definition dc_timer_configure :: "u32 \<Rightarrow> mem \<Rightarrow> mem" where
  "dc_timer_configure ticks m =
    (let m1 = poke_u32 m 0xE000E014 ticks; m2 = poke_u32 m1 0xE000E018 0 in poke_u32 m2 0xE000E010 0x07)"

definition dc_ecam_addr :: "u32 \<Rightarrow> u8 \<Rightarrow> u8 \<Rightarrow> u8 \<Rightarrow> u32 \<Rightarrow> u32" where
  "dc_ecam_addr base bus dev func reg =
    base + push_bit 20 (ucast bus) + push_bit 15 (ucast dev) + push_bit 12 (ucast func) + reg"

definition dc_bar_size :: "(u32 \<Rightarrow> u32 \<Rightarrow> u32) \<Rightarrow> u32 \<Rightarrow> u32 \<times> u32" where
  "dc_bar_size answer bar =
    (let orig = bar; bar' = answer bar 0xFFFFFFFF; bar'' = answer bar' orig in (NOT (bar' AND NOT 0xF) + 1, bar''))"

subsection \<open>The DMA ring of the driver crate\<close>

record dc_DmaDescriptor =
  dc_src_addr :: u64
  dc_dest_addr :: u64
  dc_length :: u32
  dc_flags :: u32

record dc_AutonomousDmaRing =
  dc_descriptors :: "dc_DmaDescriptor list"
  dc_head :: u32
  dc_tail :: u32

definition dc_DMA_RING :: dc_AutonomousDmaRing where
  "dc_DMA_RING = \<lparr>dc_descriptors = replicate 128 \<lparr>dc_src_addr = 0, dc_dest_addr = 0, dc_length = 0, dc_flags = 0\<rparr>,
    dc_head = 0, dc_tail = 0\<rparr>"

definition dc_submit_transfer :: "dc_AutonomousDmaRing \<Rightarrow> u64 \<Rightarrow> u64 \<Rightarrow> u32 \<Rightarrow> ((unit + unit) \<times> dc_AutonomousDmaRing) option" where
  "dc_submit_transfer q src dest len =
    (let cur_tail = dc_tail q; next_tail = (cur_tail + 1) mod 128
     in if next_tail = dc_head q then Some (Inl (), q)
        else if unat cur_tail < length (dc_descriptors q) then
          Some (Inr (), q\<lparr>dc_descriptors := (dc_descriptors q)[unat cur_tail :=
            \<lparr>dc_src_addr = src, dc_dest_addr = dest, dc_length = len, dc_flags = 0x01\<rparr>], dc_tail := next_tail\<rparr>)
        else None)"

definition dc_has_completed :: "dc_AutonomousDmaRing \<Rightarrow> bool" where
  "dc_has_completed q \<longleftrightarrow> dc_head q \<noteq> dc_tail q"

definition dc_capacity :: "dc_AutonomousDmaRing \<Rightarrow> u32" where
  "dc_capacity q = (dc_head q + 128 - dc_tail q - 1) mod 128"

section \<open>The memory functions agree with those of the kernel\<close>

lemma kc_copy_eq: "kc_copy src dst stop m = copy_data m src dst stop"
proof -
  have "kc_copy src dst stop m = Some m' \<Longrightarrow> copy_data m src dst stop = Some m'" for m'
    by (erule kc_copy.raw_induct [where P = "\<lambda>src dst stop m m'. copy_data m src dst stop = Some m'", rotated])
      (subst copy_data.simps, auto split: if_splits)
  moreover have "copy_data m src dst stop = Some m' \<Longrightarrow> kc_copy src dst stop m = Some m'" for m'
    by (erule copy_data.raw_induct [where P = "\<lambda>m src dst stop m'. kc_copy src dst stop m = Some m'", rotated])
      (subst kc_copy.simps, auto split: if_splits)
  ultimately show ?thesis
    by (metis not_None_eq)
qed

lemma kc_zero_eq: "kc_zero z stop m = zero_bss m z stop"
proof -
  have "kc_zero z stop m = Some m' \<Longrightarrow> zero_bss m z stop = Some m'" for m'
    by (erule kc_zero.raw_induct [where P = "\<lambda>z stop m m'. zero_bss m z stop = Some m'", rotated])
      (subst zero_bss.simps, auto split: if_splits)
  moreover have "zero_bss m z stop = Some m' \<Longrightarrow> kc_zero z stop m = Some m'" for m'
    by (erule zero_bss.raw_induct [where P = "\<lambda>m z stop m'. kc_zero z stop m = Some m'", rotated])
      (subst kc_zero.simps, auto split: if_splits)
  ultimately show ?thesis
    by (metis not_None_eq)
qed

lemma kc_init_data_bss_eq:
  "kc_init_data_bss sidata sdata edata sbss ebss m = init_data_bss sidata sdata edata sbss ebss m"
  by (auto simp: kc_init_data_bss_def init_data_bss_def kc_copy_eq kc_zero_eq split: option.splits)

lemma kc_reg_bits:
  "bit (peek_u32 (kc_reg_set_bit m a b) a) k \<longleftrightarrow> k = unat b mod 32 \<or> bit (peek_u32 m a) k"
  "bit (peek_u32 (kc_reg_clr_bit m a b) a) k \<longleftrightarrow> k \<noteq> unat b mod 32 \<and> bit (peek_u32 m a) k"
  using reg_set_bit_peek [of m a b k] reg_clr_bit_peek [of m a b k]
  by (simp_all only: kc_reg_set_bit_def kc_reg_clr_bit_def reg_set_bit_def reg_clr_bit_def)

lemma dc_timer_eq:
  "dc_timer_configure ticks m = timer_configure ticks m" "dc_systick_reload f d = systick_reload f d"
  by (simp_all add: dc_timer_configure_def timer_configure_def Let_def STK_LOAD_def STK_VAL_def STK_CTRL_def CTRL_BITS_def
      dc_systick_reload_def systick_reload_def)

lemma dc_pcie_eq: "dc_ecam_addr = ecam_addr" "dc_bar_size = bar_size"
  by (simp_all add: fun_eq_iff dc_ecam_addr_def ecam_addr_def dc_bar_size_def bar_size_def Let_def)

section \<open>The ring refines the queue of transfers\<close>

definition dc_inv :: "dc_AutonomousDmaRing \<Rightarrow> bool" where
  "dc_inv q \<longleftrightarrow> length (dc_descriptors q) = 128 \<and> dc_head q < 128 \<and> dc_tail q < 128"

definition dc_abs_desc :: "dc_DmaDescriptor \<Rightarrow> DmaDescriptor" where
  "dc_abs_desc d = \<lparr>src_addr = dc_src_addr d, dest_addr = dc_dest_addr d, dma_length = dc_length d, flags = dc_flags d\<rparr>"

definition dc_abs :: "dc_AutonomousDmaRing \<Rightarrow> AutonomousDmaRing" where
  "dc_abs q = \<lparr>descriptors = map dc_abs_desc (dc_descriptors q), dma_head = unat (dc_head q), dma_tail = unat (dc_tail q)\<rparr>"

lemma ring_next: "unat ((x + 1) mod 128 :: u32) = (unat x + 1) mod 128" if "x < 128"
proof -
  have "unat (x + 1) = unat x + 1"
    using that unat_add_u32 [of x 1] by (simp add: word_less_nat_alt)
  then show ?thesis
    by (simp add: unat_mod)
qed

lemma ring_next_less: "((x + 1) mod 128 :: u32) < 128"
  by (simp add: word_less_nat_alt unat_mod)

lemma dc_inv_abs: "dc_inv q \<Longrightarrow> dma_inv (dc_abs q)"
  by (simp add: dc_inv_def dma_inv_def dc_abs_def word_less_nat_alt)

lemma dc_submit_refines:
  assumes "dc_inv q"
  shows "\<exists>r q'. dc_submit_transfer q src dest len = Some (r, q') \<and> dc_inv q' \<and>
    submit_transfer (dc_abs q) src dest len = (r = Inr (), dc_abs q')"
proof -
  have t: "unat (dc_tail q) < 128" "unat ((dc_tail q + 1) mod 128) = (unat (dc_tail q) + 1) mod 128"
    using assms by (simp_all add: dc_inv_def ring_next word_less_nat_alt)
  have "(dc_tail q + 1) mod 128 = dc_head q \<longleftrightarrow> (unat (dc_tail q) + 1) mod 128 = unat (dc_head q)"
    using t(2) by (simp only: word_unat_eq_iff)
  then show ?thesis
    using assms t ring_next_less [of "dc_tail q"]
    by (auto simp: dc_submit_transfer_def submit_transfer_def dc_abs_def dc_inv_def Let_def map_update dc_abs_desc_def)
qed

lemma dc_diagnostics_refine:
  assumes "dc_inv q"
  shows "dc_has_completed q = has_completed (dc_abs q)" "unat (dc_capacity q) = capacity (dc_abs q)"
proof -
  show "dc_has_completed q = has_completed (dc_abs q)"
    by (simp add: dc_has_completed_def has_completed_def dc_abs_def word_unat_eq_iff)
  have b: "unat (dc_head q) < 128" "unat (dc_tail q) < 128"
    using assms by (simp_all add: dc_inv_def word_less_nat_alt)
  have "unat (dc_head q + 128 - dc_tail q - 1) = unat (dc_head q) + 128 - unat (dc_tail q) - 1"
  proof -
    have 1: "unat (dc_head q + 128) = unat (dc_head q) + 128"
      using b unat_add_u32 [of "dc_head q" 128] by simp
    have 2: "unat (dc_head q + 128 - dc_tail q) = unat (dc_head q) + 128 - unat (dc_tail q)"
      using 1 b by (subst unat_sub) (auto simp: word_le_nat_alt)
    have 3: "1 \<le> dc_head q + 128 - dc_tail q"
      unfolding word_le_nat_alt 2 using b by simp
    show ?thesis
      using unat_sub [OF 3] 2 by simp
  qed
  then show "unat (dc_capacity q) = capacity (dc_abs q)"
    by (simp add: dc_capacity_def capacity_def dc_abs_def unat_mod)
qed

text \<open>The states of the ring under calls of \<open>submit_transfer\<close> and completions by the device, which advances the head
  past a transfer it has done.\<close>

inductive dc_reach :: "dc_AutonomousDmaRing \<Rightarrow> bool" where
  start: "dc_reach dc_DMA_RING"
| submit: "dc_reach q \<Longrightarrow> dc_submit_transfer q src dest len = Some (r, q') \<Longrightarrow> dc_reach q'"
| complete: "dc_reach q \<Longrightarrow> dc_head q \<noteq> dc_tail q \<Longrightarrow> dc_reach (q\<lparr>dc_head := (dc_head q + 1) mod 128\<rparr>)"

lemma dc_reach_inv: "dc_reach q \<Longrightarrow> dc_inv q"
proof (induction rule: dc_reach.induct)
  case (submit q src dest len r q')
  then show ?case
    using dc_submit_refines [of q src dest len] by auto
qed (auto simp: dc_inv_def dc_DMA_RING_def ring_next_less)

text \<open>The DMA ring of the driver crate, on 32-bit indices and with descriptors written through a raw pointer, in every state that
  submissions and completions lead to: a submission never writes outside the descriptor array, it is refused exactly if
  127 transfers are outstanding, and otherwise adds its transfer behind the outstanding ones; the capacity is what is left of 127
  and \<open>has_completed\<close> tells that a transfer is still outstanding.\<close>

theorem crate_ring_is_queue:
  assumes "dc_reach q" "xs = dma_contents (dc_abs q)"
  shows "\<exists>r q'. dc_submit_transfer q src dest len = Some (r, q') \<and> dc_reach q' \<and> (r = Inl () \<longleftrightarrow> length xs = 127) \<and>
    dma_contents (dc_abs q') = (if r = Inl () then xs else xs @ [(src, dest, len)]) \<and>
    unat (dc_capacity q) = 127 - length xs \<and> length xs \<le> 127 \<and> (dc_has_completed q \<longleftrightarrow> xs \<noteq> [])"
proof -
  note inv = dc_reach_inv [OF assms(1)]
  note ainv = dc_inv_abs [OF inv]
  obtain r q' where s: "dc_submit_transfer q src dest len = Some (r, q')" "dc_inv q'"
    "submit_transfer (dc_abs q) src dest len = (r = Inr (), dc_abs q')"
    using dc_submit_refines [OF inv] by blast
  have r: "r = Inr () \<longleftrightarrow> r \<noteq> Inl ()"
    by (cases r) auto
  have "length xs \<le> 127"
    using dma_invD [OF ainv] ring_len_cases [of "dma_head (dc_abs q)" 128 "dma_tail (dc_abs q)"] by (auto simp: assms(2))
  then show ?thesis
    using s dc_reach.submit [OF assms(1) s(1)] dma_queue.push_fst [OF ainv, of "(src, dest, len)"]
      dma_queue.push_snd [OF ainv, of "(src, dest, len)"] dma_diagnostics(1,2) [OF ainv] dc_diagnostics_refine [OF inv]
    by (intro exI [of _ r] exI [of _ q']) (auto simp: dma_push_def assms(2) r)
qed

theorem crate_ring_is_queue_witness:
  "\<exists>r q'. dc_submit_transfer dc_DMA_RING 1 2 3 = Some (r, q') \<and> r = Inr () \<and> dma_contents (dc_abs q') = [(1, 2, 3)]"
proof -
  have "dma_contents (dc_abs dc_DMA_RING) = []"
    by (simp add: dc_abs_def dc_DMA_RING_def dma_contents_def ring_contents_Nil)
  moreover have "r = Inr ()" if "r \<noteq> Inl ()" for r :: "unit + unit"
    using that by (cases r) auto
  ultimately show ?thesis
    using crate_ring_is_queue [OF dc_reach.start refl, of 1 2 3] by force
qed

text \<open>The section loops of the crate do what the boot loops of the kernel do, on every input: they return on the
  same ones, with the same memory, so that \<open>init_data_bss\<close> has one meaning in both.\<close>

theorem crate_memory_agrees:
  "kc_init_data_bss sidata sdata edata sbss ebss m = init_data_bss sidata sdata edata sbss ebss m \<and>
    kc_reg_set_bit m a b = reg_set_bit m a b \<and> kc_reg_clr_bit m a b = reg_clr_bit m a b"
  by (simp add: kc_init_data_bss_eq kc_reg_set_bit_def kc_reg_clr_bit_def reg_set_bit_def reg_clr_bit_def)

end
