(* ===== verification/Task_Bodies.thy ===== *)
theory Task_Bodies
  imports Multitask
begin

text \<open>
  The assembly bodies of the counter tasks, \<^verbatim>\<open>task_body_1\<close> and \<^verbatim>\<open>task_body_2\<close> of \<^verbatim>\<open>src/kernel/multitask.rs\<close>, one step
  per instruction, interleaved with PendSV exceptions at every instruction boundary. A body addresses the table of
  tasks as bytes; the table is the list of records of \<open>Multitask\<close>, with 16 bytes for each. The
  registers r0 and r1 of a body belong to its exception frame, which the hardware stacks and unstacks, so that
  each task has its own.
\<close>

section \<open>The bodies\<close>

text \<open>The word of the table at a byte address, the table being at \<open>tb\<close>.\<close>

definition tcb_load :: "u32 \<Rightarrow> Tcb list \<Rightarrow> u32 \<Rightarrow> u32" where
  "tcb_load tb ts addr =
    (let off = unat (addr - tb); t = ts ! (off div 16); f = off mod 16
     in if f = 0 then tcb_sp t else if f = 4 then tcb_pc t else if f = 8 then tcb_state t else tcb_counter t)"

definition tcb_store :: "u32 \<Rightarrow> Tcb list \<Rightarrow> u32 \<Rightarrow> u32 \<Rightarrow> Tcb list" where
  "tcb_store tb ts addr v =
    (let off = unat (addr - tb); k = off div 16; t = ts ! k; f = off mod 16
     in ts[k := if f = 0 then t\<lparr>tcb_sp := v\<rparr> else if f = 4 then t\<lparr>tcb_pc := v\<rparr> else if f = 8 then t\<lparr>tcb_state := v\<rparr>
                else t\<lparr>tcb_counter := v\<rparr>])"

text \<open>The five instructions: \<open>ldr r0, =tcbs\<close>, and in the loop \<open>ldr r1, [r0, #off]\<close>, \<open>adds r1, r1, #1\<close>,
  \<open>str r1, [r0, #off]\<close> and \<open>b 1b\<close>.\<close>

datatype body_pc = LdrBase | LdrCount | Adds | StrCount | Branch

record Body =
  b_pc :: body_pc
  b_r0 :: u32
  b_r1 :: u32

fun body_instr :: "u32 \<Rightarrow> u32 \<Rightarrow> body_pc \<Rightarrow> Body \<Rightarrow> Tcb list \<Rightarrow> Body \<times> Tcb list" where
  "body_instr tb off LdrBase b ts = (b\<lparr>b_r0 := tb, b_pc := LdrCount\<rparr>, ts)"
| "body_instr tb off LdrCount b ts = (b\<lparr>b_r1 := tcb_load tb ts (b_r0 b + off), b_pc := Adds\<rparr>, ts)"
| "body_instr tb off Adds b ts = (b\<lparr>b_r1 := b_r1 b + 1, b_pc := StrCount\<rparr>, ts)"
| "body_instr tb off StrCount b ts = (b\<lparr>b_pc := Branch\<rparr>, tcb_store tb ts (b_r0 b + off) (b_r1 b))"
| "body_instr tb off Branch b ts = (b\<lparr>b_pc := LdrCount\<rparr>, ts)"

definition task_body_1 :: "u32 \<Rightarrow> Body \<Rightarrow> Tcb list \<Rightarrow> Body \<times> Tcb list" where
  "task_body_1 tb b ts = body_instr tb 28 (b_pc b) b ts"

definition task_body_2 :: "u32 \<Rightarrow> Body \<Rightarrow> Tcb list \<Rightarrow> Body \<times> Tcb list" where
  "task_body_2 tb b ts = body_instr tb 44 (b_pc b) b ts"

text \<open>The body that \<open>spawn_counter_task\<close> gives to a task.\<close>

definition body_of :: "nat \<Rightarrow> u32 \<Rightarrow> Body \<Rightarrow> Tcb list \<Rightarrow> Body \<times> Tcb list" where
  "body_of k = (if k = 1 then task_body_1 else task_body_2)"

definition body_start :: Body where
  "body_start = \<lparr>b_pc = LdrBase, b_r0 = 0, b_r1 = 0\<rparr>"

section \<open>Interleavings\<close>

text \<open>Runs from a state \<open>s0\<close> in which the counter tasks are at their start: the current task executes an instruction of its
  body, or (the interactive task) code that leaves the states and counters of the table alone; or a PendSV exception arrives. Two numbers
  are kept along the run: the stores of task 1 and the switches to it.\<close>

inductive counting :: "u32 \<Rightarrow> Machine \<Rightarrow> (nat \<Rightarrow> Body) \<Rightarrow> nat \<Rightarrow> nat \<Rightarrow> Machine \<Rightarrow> bool" for tb s0 where
  start: "counting tb s0 (\<lambda>_. body_start) 0 0 s0"
| instr: "counting tb s0 B st sw s \<Longrightarrow> cur s = k \<Longrightarrow> k \<in> {1, 2, 3} \<Longrightarrow> body_of k tb (B k) (tcbs s) = (b, ts) \<Longrightarrow>
    counting tb s0 (B(k := b)) (if k = 1 \<and> b_pc (B 1) = StrCount then st + 1 else st) sw (s\<lparr>tcbs := ts\<rparr>)"
| repl: "counting tb s0 B st sw s \<Longrightarrow> task_code f \<Longrightarrow> map tcb_counter (tcbs (f s)) = map tcb_counter (tcbs s) \<Longrightarrow>
    counting tb s0 B st sw (f s)"
| tick: "counting tb s0 B st sw s \<Longrightarrow>
    counting tb s0 B st (if next_task s = Some 1 then sw + 1 else sw) (PendSV_Handler s)"

section \<open>The table under one instruction\<close>

lemma offsets: "unat (tb + 28 - tb :: u32) = 28" "unat (tb + 44 - tb :: u32) = 44"
  by simp_all

lemma tcb_counter_words:
  "tcb_load tb ts (tb + 28) = tcb_counter (ts ! 1)" "tcb_load tb ts (tb + 44) = tcb_counter (ts ! 2)"
  "tcb_store tb ts (tb + 28) v = ts[1 := (ts ! 1)\<lparr>tcb_counter := v\<rparr>]"
  "tcb_store tb ts (tb + 44) v = ts[2 := (ts ! 2)\<lparr>tcb_counter := v\<rparr>]"
  by (simp_all only: tcb_load_def tcb_store_def offsets Let_def) simp_all

text \<open>A body that has been started holds the address of the table, and its instructions change counters only.\<close>

definition started :: "u32 \<Rightarrow> Body \<Rightarrow> bool" where
  "started tb b \<longleftrightarrow> b_pc b = LdrBase \<or> b_r0 b = tb"

lemma body_of_keeps:
  assumes "started tb b" "body_of k tb b ts = (b', ts')"
  shows "started tb b'" "map tcb_state ts' = map tcb_state ts"
    "k \<noteq> 1 \<Longrightarrow> 1 < length ts \<Longrightarrow> ts' ! 1 = ts ! 1"
proof -
  have s: "map tcb_state (ts[j := (ts ! j)\<lparr>tcb_counter := v\<rparr>]) = map tcb_state ts" for j v
    by (cases "j < length ts") (simp_all add: map_update list_update_same_conv list_update_beyond)
  show "started tb b'" "map tcb_state ts' = map tcb_state ts"
    "k \<noteq> 1 \<Longrightarrow> 1 < length ts \<Longrightarrow> ts' ! 1 = ts ! 1"
    using assms
    by (cases "b_pc b"; auto simp: body_of_def task_body_1_def task_body_2_def started_def tcb_counter_words s
        split: if_splits)+
qed

section \<open>What the counter counts\<close>

text \<open>The counter of task 1 is its stores and some of the switches; the value in r1 lags behind by the switches since
  it was loaded.\<close>

definition count_inv :: "u32 \<Rightarrow> u32 \<Rightarrow> (nat \<Rightarrow> Body) \<Rightarrow> nat \<Rightarrow> nat \<Rightarrow> Machine \<Rightarrow> bool" where
  "count_inv tb v B st sw s \<longleftrightarrow> length (tcbs s) = 5 \<and> cur s < 5 \<and> (\<forall>k. started tb (B k))
    \<and> (\<exists>d d'. d \<le> d' \<and> d' \<le> sw \<and> tcb_counter (tcbs s ! 1) = v + of_nat (st + d')
         \<and> (b_pc (B 1) = Adds \<longrightarrow> b_r1 (B 1) = v + of_nat (st + d))
         \<and> (b_pc (B 1) = StrCount \<longrightarrow> b_r1 (B 1) = v + of_nat (st + 1 + d)))"

lemma count_invI:
  assumes "length (tcbs s) = 5" "cur s < 5" "\<And>k. started tb (B k)" "d \<le> d'" "d' \<le> sw"
    and "tcb_counter (tcbs s ! 1) = v + of_nat (st + d')"
    and "b_pc (B 1) = Adds \<Longrightarrow> b_r1 (B 1) = v + of_nat (st + d)"
    and "b_pc (B 1) = StrCount \<Longrightarrow> b_r1 (B 1) = v + of_nat (st + 1 + d)"
  shows "count_inv tb v B st sw s"
  using assms unfolding count_inv_def by blast

lemma count_inv_other:
  assumes "count_inv tb v B st sw s" "cur s' < 5" "length (tcbs s') = 5" "tcb_counter (tcbs s' ! 1) = tcb_counter (tcbs s ! 1)"
    and "B' 1 = B 1" "\<And>k. started tb (B' k)"
  shows "count_inv tb v B' st sw s'"
  using assms unfolding count_inv_def by auto

lemma count_inv_body_1:
  assumes "count_inv tb v B st sw s" "cur s = 1" "task_body_1 tb (B 1) (tcbs s) = (b, ts)"
  shows "count_inv tb v (B(1 := b)) (if b_pc (B 1) = StrCount then st + 1 else st) sw (s\<lparr>tcbs := ts\<rparr>)"
proof -
  obtain d d' where d: "d \<le> d'" "d' \<le> sw" "tcb_counter (tcbs s ! 1) = v + of_nat (st + d')"
    "b_pc (B 1) = Adds \<Longrightarrow> b_r1 (B 1) = v + of_nat (st + d)" "b_pc (B 1) = StrCount \<Longrightarrow> b_r1 (B 1) = v + of_nat (st + 1 + d)"
    and w: "length (tcbs s) = 5" "cur s < 5" "\<And>k. started tb (B k)"
    using assms(1) unfolding count_inv_def by blast
  have keep: "started tb b" "length ts = 5"
  proof -
    have "body_of 1 tb (B 1) (tcbs s) = (b, ts)"
      using assms(3) by (simp add: body_of_def)
    note k = body_of_keeps(1,2) [OF w(3) this]
    show "started tb b"
      by (rule k(1))
    show "length ts = 5"
      using arg_cong [OF k(2), of length] w(1) by simp
  qed
  have r0: "b_pc (B 1) \<noteq> LdrBase \<Longrightarrow> b_r0 (B 1) = tb"
    using w(3) [of 1] by (simp add: started_def)
  show ?thesis
  proof (cases "b_pc (B 1)")
    case StrCount
    then have "ts = (tcbs s)[1 := (tcbs s ! 1)\<lparr>tcb_counter := v + of_nat (st + 1 + d)\<rparr>]" "b_pc b = Branch"
      using assms(3) r0 d(5) by (auto simp: task_body_1_def tcb_counter_words)
    then show ?thesis
      using StrCount d w keep by (intro count_invI [where d = d and d' = d]) auto
  next
    case LdrCount
    then have "ts = tcbs s" "b_pc b = Adds" "b_r1 b = v + of_nat (st + d')"
      using assms(3) r0 d(3) by (auto simp: task_body_1_def tcb_counter_words)
    then show ?thesis
      using LdrCount d w keep by (intro count_invI [where d = d' and d' = d']) auto
  next
    case Adds
    then have "ts = tcbs s" "b_pc b = StrCount" "b_r1 b = v + of_nat (st + 1 + d)"
      using assms(3) d(4) by (auto simp: task_body_1_def)
    then show ?thesis
      using Adds d w keep by (intro count_invI [where d = d and d' = d']) auto
  qed (use assms(3) d w keep in \<open>auto simp: task_body_1_def intro!: count_invI [where d = d and d' = d']\<close>)
qed

lemma count_inv_tick:
  assumes "count_inv tb v B st sw s"
  shows "count_inv tb v B st (if next_task s = Some 1 then sw + 1 else sw) (PendSV_Handler s)"
proof -
  have w: "length (tcbs s) = 5" "cur s < 5" "\<And>k. started tb (B k)"
    using assms by (auto simp: count_inv_def)
  show ?thesis
  proof (cases "next_task s")
    case None
    then show ?thesis
      using count_inv_other [OF assms, of "PendSV_Handler s" B] PendSV_none [OF None] w by simp
  next
    case (Some n)
    note t = PendSV_some(1,4) [OF Some w(1,2)]
    have n: "n < 5" "n \<noteq> cur s"
      using Some by (simp_all add: next_task_Some)
    show ?thesis
    proof (cases "n = 1")
      case True
      obtain d d' where "d \<le> d'" "d' \<le> sw" "tcb_counter (tcbs s ! 1) = v + of_nat (st + d')"
        "b_pc (B 1) = Adds \<Longrightarrow> b_r1 (B 1) = v + of_nat (st + d)"
        "b_pc (B 1) = StrCount \<Longrightarrow> b_r1 (B 1) = v + of_nat (st + 1 + d)"
        using assms unfolding count_inv_def by blast
      then show ?thesis
        using t w n True Some by (intro count_invI [where d = d and d' = "d' + 1"]) (auto simp: nth_list_update)
    next
      case False
      then show ?thesis
        using count_inv_other [OF assms, of "PendSV_Handler s" B] t w n Some by (simp add: nth_list_update)
    qed
  qed
qed

lemma counting_inv:
  assumes "counting tb s0 B st sw s" "tasks_ok s0"
  shows "count_inv tb (tcb_counter (tcbs s0 ! 1)) B st sw s"
  using assms
proof (induction rule: counting.induct)
  case start
  then show ?case
    by (auto simp: count_inv_def tasks_ok_def started_def body_start_def)
next
  case (instr B st sw s k b ts)
  note inv = instr.IH [OF instr.prems]
  show ?case
  proof (cases "k = 1")
    case True
    then show ?thesis
      using count_inv_body_1 [OF inv, of b ts] instr.hyps by (simp add: body_of_def fun_upd_def split: if_splits)
  next
    case False
    have w: "length (tcbs s) = 5" "cur s < 5" "\<And>k. started tb (B k)"
      using inv by (auto simp: count_inv_def)
    note keep = body_of_keeps [OF w(3) instr.hyps(4)]
    have "length ts = 5"
      using arg_cong [OF keep(2), of length] w(1) by simp
    then show ?thesis
      using count_inv_other [OF inv, of "s\<lparr>tcbs := ts\<rparr>" "B(k := b)"] keep w False by (simp add: fun_upd_def)
  qed
next
  case (repl B st sw s f)
  note inv = repl.IH [OF repl.prems]
  have "length (tcbs s) = 5"
    using inv by (simp add: count_inv_def)
  moreover have "length (tcbs (f s)) = length (tcbs s)"
    using task_code_keeps(2) [OF repl.hyps(2)] .
  ultimately show ?case
    using count_inv_other [OF inv, of "f s" B] task_code_keeps(1) [OF repl.hyps(2), of s]
      arg_cong [OF repl.hyps(3), of "\<lambda>xs. xs ! 1"] inv
    by (simp add: count_inv_def)
next
  case (tick B st sw s)
  then show ?case
    using count_inv_tick by blast
qed

text \<open>C38. The counter of task 1 under preemption at any instruction: its body adds one by a load, an addition and a store, and the
  PendSV handler adds one to it at every switch to the task. After \<open>st\<close> stores and \<open>sw\<close> switches it has grown, modulo
  \<open>2\<^sup>3\<^sup>2\<close>, by all of the stores and by at most the switches, whatever the other tasks do.\<close>

theorem task_counter_bounds:
  assumes "counting tb s0 B st sw s" "tasks_ok s0"
  shows "\<exists>d. d \<le> sw \<and> tcb_counter (tcbs s ! 1) = tcb_counter (tcbs s0 ! 1) + of_nat (st + d)"
  using counting_inv [OF assms] unfolding count_inv_def by blast

section \<open>A switch that is not counted\<close>

definition demo_count :: Machine where
  "demo_count = demo_machine\<lparr>tcbs := [\<lparr>tcb_sp = 0x20007000, tcb_pc = 0, tcb_state = 1, tcb_counter = 0\<rparr>,
      \<lparr>tcb_sp = 0x20006000, tcb_pc = 0, tcb_state = 2, tcb_counter = 0\<rparr>, tcb_dead, tcb_dead, tcb_dead], cur := 1\<rparr>"

text \<open>A schedule, played from a state of a run.\<close>

datatype sched = Instr | Tick

fun play :: "u32 \<Rightarrow> sched list \<Rightarrow> (nat \<Rightarrow> Body) \<times> nat \<times> nat \<times> Machine \<Rightarrow> (nat \<Rightarrow> Body) \<times> nat \<times> nat \<times> Machine" where
  "play tb [] c = c"
| "play tb (Instr # es) (B, st, sw, s) =
    (let k = cur s; (b, ts) = body_of k tb (B k) (tcbs s)
     in if k \<in> {1, 2, 3} then play tb es (B(k := b), if k = 1 \<and> b_pc (B 1) = StrCount then st + 1 else st, sw, s\<lparr>tcbs := ts\<rparr>)
        else play tb es (B, st, sw, s))"
| "play tb (Tick # es) (B, st, sw, s) = play tb es (B, st, if next_task s = Some 1 then sw + 1 else sw, PendSV_Handler s)"

lemma play_counting:
  assumes "counting tb s0 B st sw s" "play tb es (B, st, sw, s) = (B', st', sw', s')"
  shows "counting tb s0 B' st' sw' s'"
  using assms
proof (induction es arbitrary: B st sw s)
  case (Cons e es)
  show ?case
  proof (cases e)
    case Tick
    then show ?thesis
      using Cons.IH [OF counting.tick [OF Cons.prems(1)]] Cons.prems(2) by simp
  next
    case Instr
    obtain b ts where b: "body_of (cur s) tb (B (cur s)) (tcbs s) = (b, ts)"
      by fastforce
    show ?thesis
    proof (cases "cur s \<in> {1, 2, 3}")
      case True
      then show ?thesis
        using Cons.IH [OF counting.instr [OF Cons.prems(1) refl True b]] Cons.prems(2) Instr b by (simp add: fun_upd_def Let_def)
    next
      case False
      then show ?thesis
        using Cons.IH [OF Cons.prems(1)] Cons.prems(2) Instr b by simp
    qed
  qed
qed simp

text \<open>Task 1 is preempted between its load and its store; the switch back to it is counted by the handler, and then overwritten.\<close>

definition race :: "sched list" where
  "race = [Instr, Instr, Tick, Tick, Instr, Instr]"

theorem task_counter_bounds_witness:
  "\<exists>B s. counting 0x20000100 demo_count B 1 1 s \<and> tcb_counter (tcbs s ! 1) = 1
    \<and> (\<exists>d. d \<le> 1 \<and> tcb_counter (tcbs s ! 1) = tcb_counter (tcbs demo_count ! 1) + of_nat (1 + d))"
proof -
  obtain B st sw s where p: "play 0x20000100 race (\<lambda>_. body_start, 0, 0, demo_count) = (B, st, sw, s)"
    by (metis prod_cases4)
  have "(case play 0x20000100 race (\<lambda>_. body_start, 0, 0, demo_count) of (B, st, sw, s) \<Rightarrow> (st, sw, tcb_counter (tcbs s ! 1))) = (1, 1, 1)"
    by code_simp
  then have e: "st = 1" "sw = 1" "tcb_counter (tcbs s ! 1) = 1"
    using p by simp_all
  have c: "counting 0x20000100 demo_count B 1 1 s"
    using play_counting [OF counting.start p] e by simp
  moreover have "tasks_ok demo_count"
    by code_simp
  ultimately show ?thesis
    using task_counter_bounds [OF c] e(3) by blast
qed

text \<open>A third counter task runs the body of the second and counts for it: the counter of task 3 is that of its switches.\<close>

lemma third_task_counts_for_second:
  assumes "b_pc b = StrCount" "b_r0 b = tb"
  shows "body_of 3 tb b ts = (b\<lparr>b_pc := Branch\<rparr>, ts[2 := (ts ! 2)\<lparr>tcb_counter := b_r1 b\<rparr>])"
  using assms by (simp add: body_of_def task_body_2_def tcb_counter_words)

end
