(* ===== verification/Expressions.thy ===== *)
theory Expressions
  imports Parser_Safety Uart
begin

text \<open>
  The expression language of the compiler, as a grammar with a printer, against the lexer and the expression parser. A term is a number, a
  constant bound by \<open>let\<close>, a \<open>peek\<close> of a term or a parenthesised expression, and an expression is a term
  followed by operators and terms, evaluated from left to right. The parser of \<^verbatim>\<open>src/compiler/parser.rs\<close> evaluates
  while it parses; the value here is defined on the syntax tree.
\<close>

section \<open>Syntax and values\<close>

datatype trm = Num u32 | Var string | Peek trm | Par trm "(char \<times> trm) list"

fun show_trm :: "trm \<Rightarrow> string" where
  "show_trm (Num n) = digits10 (unat n)"
| "show_trm (Var x) = x"
| "show_trm (Peek t) = ''peek '' @ show_trm t"
| "show_trm (Par t ops) = ''('' @ show_trm t @ concat (map (\<lambda>(c, u). c # show_trm u) ops) @ '')''"

definition show_ops :: "(char \<times> trm) list \<Rightarrow> string" where
  "show_ops ops = concat (map (\<lambda>(c, u). c # show_trm u) ops)"

fun toks_trm :: "trm \<Rightarrow> Token list" where
  "toks_trm (Num n) = [Literal n]"
| "toks_trm (Var x) = [Identifier x]"
| "toks_trm (Peek t) = Identifier ''peek'' # toks_trm t"
| "toks_trm (Par t ops) = LParen # toks_trm t @ concat (map (\<lambda>(c, u). Operator c # toks_trm u) ops) @ [RParen]"

definition toks_ops :: "(char \<times> trm) list \<Rightarrow> Token list" where
  "toks_ops ops = concat (map (\<lambda>(c, u). Operator c # toks_trm u) ops)"

text \<open>Names that lex to an identifier and are not the keyword of a term, and the operators.\<close>

definition ident_char :: "char \<Rightarrow> bool" where
  "ident_char b \<longleftrightarrow> is_ascii_alphanumeric b \<or> b = CHR ''_''"

definition name_ok :: "string \<Rightarrow> bool" where
  "name_ok x \<longleftrightarrow> x \<noteq> [] \<and> ident_start (hd x) \<and> list_all ident_char x \<and> x \<notin> {''fn'', ''let''}"

fun wf_trm :: "trm \<Rightarrow> bool" where
  "wf_trm (Num n) = True"
| "wf_trm (Var x) = (name_ok x \<and> x \<noteq> ''peek'')"
| "wf_trm (Peek t) = wf_trm t"
| "wf_trm (Par t ops) = (wf_trm t \<and> (\<forall>(c, u)\<in>set ops. c \<in> set ''+-*/%'' \<and> wf_trm u))"

definition wf_ops :: "(char \<times> trm) list \<Rightarrow> bool" where
  "wf_ops ops \<longleftrightarrow> (\<forall>(c, u)\<in>set ops. c \<in> set ''+-*/%'' \<and> wf_trm u)"

text \<open>The value of a term, for an assignment of the constants and a memory: 32-bit arithmetic, an error for an unbound name
  and for a division by zero.\<close>

definition arith :: "char \<Rightarrow> u32 \<Rightarrow> u32 \<Rightarrow> ParseError + u32" where
  "arith c a b =
    (if c = CHR ''+'' then Inr (a + b) else if c = CHR ''-'' then Inr (a - b) else if c = CHR ''*'' then Inr (a * b)
     else if b = 0 then Inl DivByZero else if c = CHR ''/'' then Inr (a div b) else Inr (a mod b))"

fun value_trm :: "(string \<rightharpoonup> u32) \<Rightarrow> mem \<Rightarrow> trm \<Rightarrow> ParseError + u32"
  and value_ops :: "(string \<rightharpoonup> u32) \<Rightarrow> mem \<Rightarrow> u32 \<Rightarrow> (char \<times> trm) list \<Rightarrow> ParseError + u32"
where
  "value_trm \<sigma> m (Num n) = Inr n"
| "value_trm \<sigma> m (Var x) = (case \<sigma> x of None \<Rightarrow> Inl UnknownSymbol | Some v \<Rightarrow> Inr v)"
| "value_trm \<sigma> m (Peek t) = (case value_trm \<sigma> m t of Inl e \<Rightarrow> Inl e | Inr a \<Rightarrow> Inr (peek_u32 m a))"
| "value_trm \<sigma> m (Par t ops) = (case value_trm \<sigma> m t of Inl e \<Rightarrow> Inl e | Inr v \<Rightarrow> value_ops \<sigma> m v ops)"
| "value_ops \<sigma> m v [] = Inr v"
| "value_ops \<sigma> m v ((c, u) # ops) =
    (case value_trm \<sigma> m u of
       Inl e \<Rightarrow> Inl e
     | Inr w \<Rightarrow> (case arith c v w of Inl e \<Rightarrow> Inl e | Inr v' \<Rightarrow> value_ops \<sigma> m v' ops))"

lemma ops_simps [simp]:
  "show_ops [] = []" "show_ops ((c, u) # ops) = c # show_trm u @ show_ops ops"
  "toks_ops [] = []" "toks_ops ((c, u) # ops) = Operator c # toks_trm u @ toks_ops ops"
  "wf_ops []" "wf_ops ((c, u) # ops) \<longleftrightarrow> c \<in> set ''+-*/%'' \<and> wf_trm u \<and> wf_ops ops"
  by (simp_all add: show_ops_def toks_ops_def wf_ops_def)

lemma Par_simps [simp]:
  "show_trm (Par t ops) = CHR ''('' # show_trm t @ show_ops ops @ [CHR '')'']"
  "toks_trm (Par t ops) = LParen # toks_trm t @ toks_ops ops @ [RParen]"
  "wf_trm (Par t ops) \<longleftrightarrow> wf_trm t \<and> wf_ops ops"
  by (simp_all add: show_ops_def toks_ops_def wf_ops_def)

declare show_trm.simps(4) [simp del] toks_trm.simps(4) [simp del] wf_trm.simps(4) [simp del]

lemma toks_trm_nonempty [simp]: "toks_trm t \<noteq> []"
  by (cases t) simp_all

section \<open>Lexing what is printed\<close>

text \<open>Successive calls of the lexer.\<close>

fun lexes :: "Lexer \<Rightarrow> Token list \<Rightarrow> Lexer \<Rightarrow> bool" where
  "lexes lx [] lx' \<longleftrightarrow> lx' = lx"
| "lexes lx (t # ts) lx' \<longleftrightarrow> (\<exists>lx1. next_token lx = (t, lx1) \<and> lexes lx1 ts lx')"

lemma lexes_append: "lexes lx (ts @ us) lx' \<longleftrightarrow> (\<exists>lx1. lexes lx ts lx1 \<and> lexes lx1 us lx')"
  by (induction ts arbitrary: lx) auto

definition delimited :: "string \<Rightarrow> bool" where
  "delimited s \<longleftrightarrow> s = [] \<or> \<not> ident_char (hd s)"

lemma delimited_ops [simp]:
  "delimited s \<Longrightarrow> wf_ops ops \<Longrightarrow> delimited (show_ops ops @ s)" "delimited (CHR '')'' # s)" "delimited (CHR '';'' # s)" "delimited []"
  "delimited (CHR '' '' # s)"
  by (cases ops; auto simp: delimited_def ident_char_def is_ascii_alphanumeric_def is_ascii_alphabetic_def is_ascii_digit_def in_range_def)+

lemma next_token_char:
  assumes "lx_rest lx = c # s" "\<not> is_space c" "\<not> ident_char c"
  shows "next_token lx = (single_token c, lx_advance 1 lx)" "lx_rest (lx_advance 1 lx) = s"
  using lx_rest_ConsD [OF assms(1)] assms(2,3) next_token_single [of lx]
  by (auto simp: ident_char_def ident_start_def is_ascii_alphanumeric_def)

lemma next_token_skips:
  assumes "lx_rest lx = CHR '' '' # s"
  shows "next_token lx = next_token (lx_advance 1 lx)" "lx_rest (lx_advance 1 lx) = s"
  using lx_rest_ConsD [OF assms] next_token.simps [of lx] by (simp_all add: Let_def)

lemma next_token_word:
  assumes "lx_rest lx = x @ s" "x \<noteq> []" "ident_start (hd x)" "list_all ident_char x" "delimited s"
  shows "next_token lx = (if x = ''fn'' then KwFn else if x = ''let'' then KwLet else Identifier x, lx_advance (length x) lx)"
    and "lx_rest (lx_advance (length x) lx) = s"
proof -
  obtain c cs where x: "x = c # cs" "ident_start c"
    using assms(2,3) by (cases x) auto
  have lx: "lx_more lx" "lx_byte lx = c"
    using lx_rest_ConsD [of lx c "cs @ s"] assms(1) x(1) by simp_all
  have "takeWhile ident_char (lx_rest lx) = x"
    unfolding assms(1) using assms(4,5) by (intro takeWhile_prefix) (auto simp: delimited_def)
  then have "skip_while (\<lambda>b. is_ascii_alphanumeric b \<or> b = CHR ''_'') lx = lx_advance (length x) lx"
    by (simp add: skip_while_eq ident_char_def [abs_def])
  moreover have "take (length x) (drop (lx_cursor lx) (lx_stream lx)) = x"
    using assms(1) by (simp add: lx_rest_def)
  ultimately show "next_token lx = (if x = ''fn'' then KwFn else if x = ''let'' then KwLet else Identifier x, lx_advance (length x) lx)"
    using next_token_ident [OF lx(1)] lx(2) x(2) by (simp add: parse_identifier_def)
  show "lx_rest (lx_advance (length x) lx) = s"
    by (simp add: assms(1))
qed

lemma next_token_name:
  assumes "lx_rest lx = x @ s" "name_ok x" "delimited s"
  shows "next_token lx = (Identifier x, lx_advance (length x) lx)" "lx_rest (lx_advance (length x) lx) = s"
  using next_token_word [of lx x s] assms by (auto simp: name_ok_def)

lemma next_token_digits:
  assumes "lx_rest lx = digits10 (unat n) @ s" "delimited s"
  shows "next_token lx = (Literal n, lx_advance (length (digits10 (unat n))) lx)" "lx_rest (lx_advance (length (digits10 (unat n))) lx) = s"
proof -
  let ?ds = "digits10 (unat n)"
  have ds: "list_all is_ascii_digit ?ds" "?ds \<noteq> []"
    using digits10_digits [of "unat n"] by simp_all
  obtain c cs where c: "?ds = c # cs" "is_ascii_digit c"
    using ds by (cases ?ds) auto
  have lx: "lx_more lx" "lx_byte lx = c"
    using lx_rest_ConsD [of lx c "cs @ s"] assms(1) c(1) by simp_all
  have "takeWhile dec_char (lx_rest lx) = ?ds"
    unfolding assms(1) using ds(1) assms(2)
    by (intro takeWhile_prefix) (auto simp: list_all_iff delimited_def ident_char_def is_ascii_alphanumeric_def)
  moreover have "\<not> hex_prefix (lx_rest lx)"
  proof
    assume "hex_prefix (lx_rest lx)"
    then obtain y r where "?ds @ s = CHR ''0'' # y # r" "y = CHR ''x'' \<or> y = CHR ''X''"
      by (auto simp: hex_prefix_def assms(1))
    then show False
      using c ds(1) assms(2)
      by (cases cs) (auto simp: delimited_def ident_char_def is_ascii_alphanumeric_def is_ascii_alphabetic_def is_ascii_digit_def in_range_def)
  qed
  ultimately show "next_token lx = (Literal n, lx_advance (length ?ds) lx)"
    using parse_literal_dec [OF lx(1)] next_token_literal [OF lx(1)] lx(2) c(2) unat_less_u32 [of n] by (simp add: num_val_digits10)
  show "lx_rest (lx_advance (length ?ds) lx) = s"
    by (simp add: assms(1))
qed

lemma operator_token:
  assumes "c \<in> set ''+-*/%''"
  shows "single_token c = Operator c" "\<not> is_space c" "\<not> ident_char c"
  using assms by (auto simp: single_token_def is_operator_def is_space_def ident_char_def is_ascii_alphanumeric_def
      is_ascii_alphabetic_def is_ascii_digit_def in_range_def)

lemma paren_tokens:
  "single_token CHR ''('' = LParen" "single_token CHR '')'' = RParen" "single_token CHR '';'' = Semicolon"
  "\<not> is_space CHR ''(''" "\<not> is_space CHR '')''" "\<not> is_space CHR '';''" "\<not> ident_char CHR ''(''" "\<not> ident_char CHR '')''" "\<not> ident_char CHR '';''"
  by (simp_all add: single_token_def is_space_def ident_char_def is_ascii_alphanumeric_def is_ascii_alphabetic_def
      is_ascii_digit_def in_range_def)

lemma lexes_char:
  assumes "lx_rest lx = c # s" "\<not> is_space c" "\<not> ident_char c"
    and "\<And>lx1. lx_rest lx1 = s \<Longrightarrow> \<exists>lx'. lexes lx1 ts lx' \<and> lx_rest lx' = r"
  shows "\<exists>lx'. lexes lx (single_token c # ts) lx' \<and> lx_rest lx' = r"
  using next_token_char [OF assms(1-3)] assms(4) [of "lx_advance 1 lx"] by auto

lemma lexes_then:
  assumes "\<exists>lx1. lexes lx ts lx1 \<and> lx_rest lx1 = s"
    and "\<And>lx1. lx_rest lx1 = s \<Longrightarrow> \<exists>lx'. lexes lx1 us lx' \<and> lx_rest lx' = r"
  shows "\<exists>lx'. lexes lx (ts @ us) lx' \<and> lx_rest lx' = r"
  unfolding lexes_append using assms by blast

lemma lexes_skip:
  assumes "lx_rest lx = CHR '' '' # s" "ts \<noteq> []"
    and "\<And>lx1. lx_rest lx1 = s \<Longrightarrow> \<exists>lx'. lexes lx1 ts lx' \<and> lx_rest lx' = r"
  shows "\<exists>lx'. lexes lx ts lx' \<and> lx_rest lx' = r"
proof -
  obtain t us where "ts = t # us"
    using assms(2) by (cases ts) auto
  then show ?thesis
    using next_token_skips [OF assms(1)] assms(3) [of "lx_advance 1 lx"] by auto
qed

lemma lexes_Par:
  assumes "lx_rest lx = show_trm (Par t ops) @ s"
    and "\<And>lx. lx_rest lx = show_trm t @ show_ops ops @ CHR '')'' # s \<Longrightarrow>
           \<exists>lx'. lexes lx (toks_trm t) lx' \<and> lx_rest lx' = show_ops ops @ CHR '')'' # s"
    and "\<And>lx. lx_rest lx = show_ops ops @ CHR '')'' # s \<Longrightarrow> \<exists>lx'. lexes lx (toks_ops ops) lx' \<and> lx_rest lx' = CHR '')'' # s"
  shows "\<exists>lx'. lexes lx (toks_trm (Par t ops)) lx' \<and> lx_rest lx' = s"
proof -
  have close: "\<exists>lx'. lexes lx [RParen] lx' \<and> lx_rest lx' = s" if "lx_rest lx = CHR '')'' # s" for lx
    using lexes_char [of lx "CHR '')''" s "[]" s] that by (simp add: paren_tokens)
  have "\<exists>lx'. lexes lx (toks_trm t @ toks_ops ops @ [RParen]) lx' \<and> lx_rest lx' = s"
    if "lx_rest lx = show_trm t @ show_ops ops @ CHR '')'' # s" for lx
    by (rule lexes_then [OF assms(2) [OF that]], rule lexes_then [OF assms(3)], assumption, rule close)
  then show ?thesis
    using lexes_char [of lx "CHR ''(''" "show_trm t @ show_ops ops @ CHR '')'' # s" "toks_trm t @ toks_ops ops @ [RParen]" s] assms(1)
    by (simp add: paren_tokens)
qed

lemma trm_ops_induct [case_names Num Var Peek Par Nil Cons]:
  assumes "\<And>n. P (Num n)" "\<And>x. P (Var x)" "\<And>t. P t \<Longrightarrow> P (Peek t)" "\<And>t ops. P t \<Longrightarrow> Q ops \<Longrightarrow> P (Par t ops)"
    and "Q []" "\<And>c u ops. P u \<Longrightarrow> Q ops \<Longrightarrow> Q ((c, u) # ops)"
  shows "P t" "Q ops"
proof -
  have ops: "Q ops" if "\<And>c u. (c, u) \<in> set ops \<Longrightarrow> P u" for ops
    using that
  proof (induction ops)
    case (Cons cu ops)
    obtain c u where "cu = (c, u)" by (cases cu)
    then show ?case using Cons assms(6) [of u ops c] by auto
  qed (rule assms(5))
  have "P t" for t
    by (induction t) (use assms(1-4) ops in \<open>auto simp: snds.simps\<close>)
  then show "P t" "Q ops"
    using ops by blast+
qed

lemma lexes_printed:
  "wf_trm t \<Longrightarrow> delimited s \<Longrightarrow> lx_rest lx = show_trm t @ s \<Longrightarrow> \<exists>lx'. lexes lx (toks_trm t) lx' \<and> lx_rest lx' = s"
  "wf_ops ops \<Longrightarrow> delimited s \<Longrightarrow> lx_rest lx = show_ops ops @ s \<Longrightarrow> \<exists>lx'. lexes lx (toks_ops ops) lx' \<and> lx_rest lx' = s"
proof (induction t and ops arbitrary: s lx and s lx rule: trm_ops_induct)
  case (Num n)
  then show ?case using next_token_digits [of lx n s] by simp
next
  case (Var x)
  then show ?case using next_token_name [of lx x s] by simp
next
  case (Peek t)
  have "next_token lx = (Identifier ''peek'', lx_advance 4 lx)" "lx_rest (lx_advance 4 lx) = CHR '' '' # show_trm t @ s"
    using next_token_name [of lx "''peek''" "CHR '' '' # show_trm t @ s"] Peek.prems(3)
    by (simp_all add: name_ok_def ident_start_def ident_char_def is_ascii_alphanumeric_def is_ascii_alphabetic_def in_range_def)
  moreover have "\<exists>lx'. lexes (lx_advance 4 lx) (toks_trm t) lx' \<and> lx_rest lx' = s"
    by (rule lexes_skip [OF calculation(2)]) (use Peek in auto)
  ultimately show ?case by simp
next
  case (Par t ops)
  show ?case
    by (rule lexes_Par [OF Par.prems(3)]; use Par in \<open>auto simp del: lexes.simps\<close>)
next
  case Nil
  then show ?case by simp
next
  case (Cons c u ops)
  have "\<exists>lx'. lexes lx (toks_trm u @ toks_ops ops) lx' \<and> lx_rest lx' = s" if "lx_rest lx = show_trm u @ show_ops ops @ s" for lx
    by (rule lexes_then [OF Cons.IH(1) Cons.IH(2)]) (use Cons.prems that in auto)
  then show ?case
    using lexes_char [of lx c "show_trm u @ show_ops ops @ s" "toks_trm u @ toks_ops ops" s] operator_token [of c] Cons.prems by simp
qed

section \<open>Parsing what is printed\<close>

text \<open>The tokens that a cursor delivers.\<close>

definition reads :: "Cur \<Rightarrow> Token list \<Rightarrow> bool" where
  "reads cur ts \<longleftrightarrow>
    (case cur_ahead cur of
       None \<Rightarrow> \<exists>lx'. lexes (cur_lx cur) ts lx'
     | Some t \<Rightarrow> \<exists>us lx'. ts = t # us \<and> lexes (cur_lx cur) us lx')"

lemma reads_next: "reads cur (t # ts) \<Longrightarrow> \<exists>cur1. cur_next cur = (t, cur1) \<and> reads cur1 ts"
  by (cases "cur_ahead cur"; clarsimp simp: reads_def cur_next_def; blast)

lemma reads_peek: "reads cur (t # ts) \<Longrightarrow> \<exists>cur1. cur_peek cur = (t, cur1) \<and> reads cur1 (t # ts)"
  by (cases "cur_ahead cur"; clarsimp simp: reads_def cur_peek_def; blast)

lemma reads_expect: "reads cur (t # ts) \<Longrightarrow> \<exists>cur1. expect_token t cur = Some (Inr cur1) \<and> reads cur1 ts"
  using reads_next [of cur t ts] by (auto simp: expect_token_def)

text \<open>A parser result that is the value, or the error, of the syntax tree, with the tokens \<open>ts\<close> left to read.\<close>

definition delivers :: "Token list \<Rightarrow> ParseError + u32 \<Rightarrow> (u32 \<times> Cur) pres \<Rightarrow> bool" where
  "delivers ts x r \<longleftrightarrow>
    (case x of Inl e \<Rightarrow> r = Some (Inl e) | Inr v \<Rightarrow> \<exists>cur'. r = Some (Inr (v, cur')) \<and> reads cur' ts)"

lemma delivers_bind:
  assumes "delivers ts x r"
    and "\<And>e. x = Inl e \<Longrightarrow> y = Inl e"
    and "\<And>v cur'. x = Inr v \<Longrightarrow> reads cur' ts \<Longrightarrow> delivers us y (f (v, cur'))"
  shows "delivers us y (pbind r f)"
  using assms by (auto simp: delivers_def pbind_def split: sum.splits)

lemma delivers_Inr: "reads cur ts \<Longrightarrow> delivers ts (Inr v) (Some (Inr (v, cur)))"
  by (simp add: delivers_def)

lemma delivers_Inl: "delivers ts (Inl e) (Some (Inl e))"
  by (simp add: delivers_def)

lemma apply_op_arith: "c \<in> set ''+-*/%'' \<Longrightarrow> apply_op c a b = arith c a b"
  by (auto simp: apply_op_def arith_def)

lemma length_ops_le: "length ops \<le> length (toks_ops ops)"
  by (induction ops) auto

lemma toks_trm_Cons: "toks_trm t = hd (toks_trm t) # tl (toks_trm t)"
  by simp

lemma expr_delivers:
  assumes "\<And>cur. reads cur (tl (toks_trm t) @ toks_ops ops @ ts) \<Longrightarrow> delivers (toks_ops ops @ ts) x (operand (hd (toks_trm t)) cur)"
    and "\<And>v cur. x = Inr v \<Longrightarrow> reads cur (toks_ops ops @ ts) \<Longrightarrow> delivers ts y (eval_ops n operand v cur)"
    and "\<And>e. x = Inl e \<Longrightarrow> y = Inl e"
  shows "reads cur (toks_trm t @ toks_ops ops @ ts) \<Longrightarrow> delivers ts y (expr_with n operand None cur)"
    and "reads cur (tl (toks_trm t) @ toks_ops ops @ ts) \<Longrightarrow> delivers ts y (expr_with n operand (Some (hd (toks_trm t))) cur)"
proof -
  have *: "delivers ts y (pbind (operand (hd (toks_trm t)) cur) (\<lambda>(acc, cur2). eval_ops n operand acc cur2))"
    if "reads cur (tl (toks_trm t) @ toks_ops ops @ ts)" for cur
    by (rule delivers_bind [OF assms(1) [OF that]]) (use assms(2,3) in auto)
  then show "reads cur (tl (toks_trm t) @ toks_ops ops @ ts) \<Longrightarrow> delivers ts y (expr_with n operand (Some (hd (toks_trm t))) cur)"
    by (simp add: expr_with_def)
  assume "reads cur (toks_trm t @ toks_ops ops @ ts)"
  then obtain cur1 where "cur_next cur = (hd (toks_trm t), cur1)" "reads cur1 (tl (toks_trm t) @ toks_ops ops @ ts)"
    using reads_next [of cur "hd (toks_trm t)" "tl (toks_trm t) @ toks_ops ops @ ts"] toks_trm_Cons [of t] by (metis append_Cons)
  then show "delivers ts y (expr_with n operand None cur)"
    using * by (simp add: expr_with_def)
qed

lemma eval_ops_step:
  assumes "reads cur (Operator c # toks_trm u @ ts)" "c \<in> set ''+-*/%''"
    and "\<And>cur. reads cur (tl (toks_trm u) @ ts) \<Longrightarrow> delivers ts x (operand (hd (toks_trm u)) cur)"
    and "\<And>w cur. x = Inr w \<Longrightarrow> reads cur ts \<Longrightarrow>
           delivers us y (case arith c acc w of Inl e \<Rightarrow> Some (Inl e) | Inr acc' \<Rightarrow> eval_ops n operand acc' cur)"
    and "\<And>e. x = Inl e \<Longrightarrow> y = Inl e"
  shows "delivers us y (eval_ops (Suc n) operand acc cur)"
proof -
  obtain cur1 where c1: "cur_peek cur = (Operator c, cur1)" "reads cur1 (Operator c # toks_trm u @ ts)"
    using reads_peek [OF assms(1)] by blast
  obtain cur2 where c2: "cur_next cur1 = (Operator c, cur2)" "reads cur2 (toks_trm u @ ts)"
    using reads_next [OF c1(2)] by blast
  obtain cur3 where c3: "cur_next cur2 = (hd (toks_trm u), cur3)" "reads cur3 (tl (toks_trm u) @ ts)"
    using reads_next [of cur2 "hd (toks_trm u)" "tl (toks_trm u) @ ts"] c2(2) toks_trm_Cons [of u] by (metis append_Cons)
  have "delivers us y (pbind (operand (hd (toks_trm u)) cur3) (\<lambda>(rhs, cur4).
      case apply_op c acc rhs of Inl e \<Rightarrow> Some (Inl e) | Inr acc' \<Rightarrow> eval_ops n operand acc' cur4))"
    by (rule delivers_bind [OF assms(3) [OF c3(2)]]) (use assms(4,5) in \<open>auto simp: apply_op_arith [OF assms(2)]\<close>)
  then show ?thesis
    using c1(1) c2(1) c3(1) assms(2) by (simp add: arith_op_def)
qed

lemma printed_delivers:
  "wf_trm t \<Longrightarrow> length (toks_trm t) \<le> n \<Longrightarrow> reads cur (tl (toks_trm t) @ ts) \<Longrightarrow>
    delivers ts (value_trm (lookup_symbol syms) (env_mem env) t) (eval_operand n env syms (hd (toks_trm t)) cur)"
  "wf_ops ops \<Longrightarrow> length ops < n \<Longrightarrow> length (toks_ops ops) \<le> k \<Longrightarrow> reads cur (toks_ops ops @ t0 # us) \<Longrightarrow> arith_op t0 = None \<Longrightarrow>
    delivers (t0 # us) (value_ops (lookup_symbol syms) (env_mem env) v ops) (eval_ops n (eval_operand k env syms) v cur)"
proof (induction t and ops arbitrary: n cur ts and n k v cur t0 us rule: trm_ops_induct)
  case (Num x)
  then show ?case by (cases n) (simp_all add: resolve_term_def term_value_def delivers_Inr)
next
  case (Var x)
  then show ?case
    by (cases n) (auto simp: resolve_term_def term_value_def delivers_Inr delivers_def split: option.split)
next
  case (Peek t)
  then obtain m where n: "n = Suc m" by (cases n) auto
  obtain cur1 where c1: "cur_next cur = (hd (toks_trm t), cur1)" "reads cur1 (tl (toks_trm t) @ ts)"
    using Peek.prems(3) reads_next [of cur "hd (toks_trm t)" "tl (toks_trm t) @ ts"] toks_trm_Cons [of t] by (metis append_Cons list.sel(3) toks_trm.simps(3))
  have "delivers ts (value_trm (lookup_symbol syms) (env_mem env) (Peek t))
      (pbind (eval_operand m env syms (hd (toks_trm t)) cur1) (\<lambda>(addr, cur2). Some (Inr (peek_u32 (env_mem env) addr, cur2))))"
    by (rule delivers_bind [OF Peek.IH [OF _ _ c1(2)]]) (use Peek.prems n in \<open>auto simp: delivers_Inr\<close>)
  then show ?case
    using c1(1) n by (simp add: resolve_term_def term_value_def)
next
  case (Par t ops)
  then obtain m where n: "n = Suc m" by (cases n) auto
  have "delivers (RParen # ts) (value_trm (lookup_symbol syms) (env_mem env) (Par t ops)) (expr_with m (eval_operand m env syms) None cur)"
    by (rule expr_delivers(1) [where t = t and ops = ops and x = "value_trm (lookup_symbol syms) (env_mem env) t"])
      (use Par n length_ops_le [of ops] in \<open>auto simp: arith_op_def\<close>)
  then have "delivers ts (value_trm (lookup_symbol syms) (env_mem env) (Par t ops))
      (pbind (expr_with m (eval_operand m env syms) None cur) (\<lambda>(val, cur1).
       pbind (expect_token RParen cur1) (\<lambda>cur2. Some (Inr (val, cur2)))))"
    by (rule delivers_bind) (auto dest!: reads_expect simp: pbind_def delivers_Inr)
  then show ?case
    by (simp add: n del: value_trm.simps)
next
  case Nil
  then obtain m where n: "n = Suc m" by (cases n) auto
  show ?case
    using reads_peek [of cur t0 us] Nil.prems n by (auto simp: delivers_Inr)
next
  case (Cons c u ops)
  then obtain m where n: "n = Suc m" by (cases n) auto
  show ?case
    unfolding n
    by (rule eval_ops_step [where c = c and u = u and ts = "toks_ops ops @ t0 # us" and x = "value_trm (lookup_symbol syms) (env_mem env) u"])
      (use Cons n in \<open>auto simp: delivers_Inl split: sum.split simp del: insert_iff\<close>)
qed

lemma printed_expression:
  assumes "wf_trm t" "wf_ops ops" "length (toks_trm t @ toks_ops ops) < n" "arith_op t0 = None"
  shows "reads cur (toks_trm t @ toks_ops ops @ t0 # ts) \<Longrightarrow>
      delivers (t0 # ts) (value_trm (lookup_symbol syms) (env_mem env) (Par t ops)) (eval_expr n env syms None cur)"
    and "reads cur (tl (toks_trm t) @ toks_ops ops @ t0 # ts) \<Longrightarrow>
      delivers (t0 # ts) (value_trm (lookup_symbol syms) (env_mem env) (Par t ops)) (eval_expr n env syms (Some (hd (toks_trm t))) cur)"
proof -
  have "length ops < n"
    using assms(3) length_ops_le [of ops] by simp
  then show "reads cur (toks_trm t @ toks_ops ops @ t0 # ts) \<Longrightarrow>
      delivers (t0 # ts) (value_trm (lookup_symbol syms) (env_mem env) (Par t ops)) (eval_expr n env syms None cur)"
    and "reads cur (tl (toks_trm t) @ toks_ops ops @ t0 # ts) \<Longrightarrow>
      delivers (t0 # ts) (value_trm (lookup_symbol syms) (env_mem env) (Par t ops)) (eval_expr n env syms (Some (hd (toks_trm t))) cur)"
    unfolding eval_expr_def
    using expr_delivers [where t = t and ops = ops and ts = "t0 # ts" and x = "value_trm (lookup_symbol syms) (env_mem env) t"
        and y = "value_trm (lookup_symbol syms) (env_mem env) (Par t ops)" and operand = "eval_operand n env syms" and n = n]
      printed_delivers assms by simp_all
qed

section \<open>Lines\<close>

datatype calc_line = Bind string trm "(char \<times> trm) list" | Eval trm "(char \<times> trm) list"

fun show_line :: "calc_line \<Rightarrow> string" where
  "show_line (Bind x t ops) = ''let '' @ x @ '' = '' @ show_trm t @ show_ops ops @ '';''"
| "show_line (Eval t ops) = show_trm t @ show_ops ops @ '';''"

definition command_words :: "string list" where
  "command_words =
    [''peek'', ''poke'', ''cap_claim'', ''cap_drop'', ''reg_set_bit'', ''reg_clr_bit'', ''help'', ''banner'', ''sys_audit'', ''bench'',
     ''pwm'', ''pwm_duty'', ''store'', ''load'', ''store_list'', ''loop'', ''flash_test'', ''pool_alloc'', ''pool_free'', ''pool_stats'',
     ''spawn'', ''spi_tx'']"

text \<open>A line that starts with a keyword of the command language is a command, and an evaluation does not start with one.\<close>

fun line_ok :: "calc_line \<Rightarrow> bool" where
  "line_ok (Bind x t ops) = (name_ok x \<and> wf_trm t \<and> wf_ops ops)"
| "line_ok (Eval t ops) =
    (wf_trm t \<and> wf_ops ops \<and> (case t of Var x \<Rightarrow> x \<notin> set command_words | Peek _ \<Rightarrow> False | _ \<Rightarrow> True))"

text \<open>What a line means: the value or the error, and the constants after it.\<close>

fun run_line :: "mem \<Rightarrow> calc_line \<Rightarrow> (string \<rightharpoonup> u32) \<Rightarrow> (ParseError + u32) \<times> (string \<rightharpoonup> u32)" where
  "run_line m (Eval t ops) \<sigma> = (value_trm \<sigma> m (Par t ops), \<sigma>)"
| "run_line m (Bind x t ops) \<sigma> =
    (if length x > 16 then (Inl NameTooLong, \<sigma>)
     else (case value_trm \<sigma> m (Par t ops) of
             Inl e \<Rightarrow> (Inl e, \<sigma>)
           | Inr v \<Rightarrow> if x \<notin> dom \<sigma> \<and> card (dom \<sigma>) = 32 then (Inl SymbolTableFull, \<sigma>) else (Inr v, \<sigma>(x \<mapsto> v))))"

definition value_program :: "(prim \<Rightarrow> u32) \<Rightarrow> u32 \<Rightarrow> StreamProgram" where
  "value_program wof v =
    \<lparr>sp_words = [wof lit_prim, v, wof halt_prim] @ replicate 125 0, sp_len = 3, sp_yields_value = True\<rparr>"

text \<open>What the compiler promises about a line: the error, or the outcome that carries the value.\<close>

definition line_outcome :: "(prim \<Rightarrow> u32) \<Rightarrow> calc_line \<Rightarrow> ParseError + u32 \<Rightarrow> ParseError + Outcome \<Rightarrow> bool" where
  "line_outcome wof l x r \<longleftrightarrow>
    (case x of
       Inl e \<Rightarrow> r = Inl e
     | Inr v \<Rightarrow>
         (case l of
            Eval t ops \<Rightarrow> r = Inr (Run (value_program wof v))
          | Bind y t ops \<Rightarrow> \<exists>nb. r = Inr (Bound nb v) \<and> as_slice nb = y))"

definition calc_inv :: "Compiler \<Rightarrow> bool" where
  "calc_inv c \<longleftrightarrow> symbols_inv (symbols c) \<and> length (stream c) = MAX_STREAM_WORDS"

lemma calc_inv_new: "calc_inv compiler_new" "lookup_symbol (symbols compiler_new) = Map.empty"
  by (simp_all add: calc_inv_def compiler_new_def symbols_inv_empty lookup_symbol_empty)

lemma build_value_program_eq:
  assumes "length (stream c) = MAX_STREAM_WORDS"
  shows "\<exists>c'. build_value_program env c v = Some (Inr (value_program (env_word env) v), c')
    \<and> symbols c' = symbols c \<and> length (stream c') = MAX_STREAM_WORDS"
proof -
  let ?wof = "env_word env"
  have "take 3 ((stream c)[0 := ?wof lit_prim, Suc 0 := v, 2 := ?wof halt_prim]) = [?wof lit_prim, v, ?wof halt_prim]"
    using assms by (intro nth_equalityI) (auto simp: MAX_STREAM_WORDS_def less_Suc_eq numeral_eq_Suc)
  then show ?thesis
    using assms
    by (auto simp: build_value_program_def stream_push_lit_def stream_halt_def stream_push_def sbind_def stream_reset_def take_program_def
        value_program_def copy_prefix_def MAX_STREAM_WORDS_def numeral_2_eq_2 [symmetric] simp flip: numeral_3_eq_3)
qed

lemma expect_semicolon_reads: "reads cur (Semicolon # ts) \<Longrightarrow> \<exists>cur'. expect_semicolon cur = Some (Inr cur')"
  using reads_next [of cur Semicolon ts] by (auto simp: expect_semicolon_def)

lemma command_value_line:
  assumes "wf_trm t" "wf_ops ops" "length (toks_trm t @ toks_ops ops) < n" "calc_inv c"
    and "reads cur (tl (toks_trm t) @ toks_ops ops @ [Semicolon])"
  shows "\<exists>r c'. command_value n env (hd (toks_trm t)) cur c = Some (r, c')
    \<and> line_outcome (env_word env) (Eval t ops) (value_trm (lookup_symbol (symbols c)) (env_mem env) (Par t ops)) r
    \<and> symbols c' = symbols c \<and> calc_inv c'"
proof -
  have d: "delivers [Semicolon] (value_trm (lookup_symbol (symbols c)) (env_mem env) (Par t ops))
      (eval_expr n env (symbols c) (Some (hd (toks_trm t))) cur)"
    by (rule printed_expression(2) [OF assms(1-3)]) (use assms(5) in \<open>simp_all add: arith_op_def\<close>)
  show ?thesis
  proof (cases "value_trm (lookup_symbol (symbols c)) (env_mem env) (Par t ops)")
    case (Inl e)
    then show ?thesis
      using d assms(4) unfolding command_value_def line_outcome_def by (simp add: delivers_def sbind_def pure_def)
  next
    case (Inr v)
    then obtain cur1 cur2 where "eval_expr n env (symbols c) (Some (hd (toks_trm t))) cur = Some (Inr (v, cur1))"
      "expect_semicolon cur1 = Some (Inr cur2)"
      using d expect_semicolon_reads by (fastforce simp: delivers_def)
    then show ?thesis
      using build_value_program_eq [of c env v] assms(4) Inr
      unfolding command_value_def line_outcome_def by (auto simp: sbind_def pure_def calc_inv_def)
  qed
qed

lemma length_toks:
  "wf_trm t \<Longrightarrow> length (toks_trm t) \<le> length (show_trm t)"
  "wf_ops ops \<Longrightarrow> length (toks_ops ops) \<le> length (show_ops ops)"
proof (induction t and ops rule: trm_ops_induct)
  case (Num n)
  then show ?case using digits10_digits [of "unat n"] by (simp add: Suc_le_eq)
next
  case (Var x)
  then show ?case by (simp add: name_ok_def Suc_le_eq)
qed auto

lemma reads_new:
  assumes "\<And>lx. lx_rest lx = line \<Longrightarrow> \<exists>lx'. lexes lx ts lx' \<and> lx_rest lx' = []"
  shows "reads (cur_new line) ts"
  using assms [of "lexer_new line"] by (auto simp: reads_def cur_new_def lexer_new_def lx_rest_def)

lemma lexes_expression:
  assumes "wf_trm t" "wf_ops ops" "lx_rest lx = show_trm t @ show_ops ops @ '';''"
  shows "\<exists>lx'. lexes lx (toks_trm t @ toks_ops ops @ [Semicolon]) lx' \<and> lx_rest lx' = []"
proof (rule lexes_then [OF lexes_printed(1) [OF assms(1) _ assms(3)]])
  show "\<exists>lx'. lexes lx1 (toks_ops ops @ [Semicolon]) lx' \<and> lx_rest lx' = []" if "lx_rest lx1 = show_ops ops @ '';''" for lx1
  proof (rule lexes_then [OF lexes_printed(2) [OF assms(2) _ that]])
    show "\<exists>lx'. lexes lx2 [Semicolon] lx' \<and> lx_rest lx' = []" if "lx_rest lx2 = '';''" for lx2
      using lexes_char [of lx2 "CHR '';''" "[]" "[]" "[]"] that by (simp add: paren_tokens)
  qed simp
qed (simp add: assms(2))

lemma parse_command_other:
  assumes "x \<notin> set command_words" "name_ok x"
  shows "parse_command n env x cur c = command_other n env x cur c"
proof -
  have "x \<noteq> ''pool_stats;''"
    using assms(2) paren_tokens(9) by (auto simp: name_ok_def)
  then show ?thesis
    using assms(1) unfolding parse_command_def Let_def command_words_def by simp
qed

lemma parse_eval:
  assumes ok: "line_ok (Eval t ops)" and "calc_inv c"
  shows "\<exists>r c'. parse env (show_line (Eval t ops)) c = Some (r, c')
    \<and> line_outcome (env_word env) (Eval t ops) (value_trm (lookup_symbol (symbols c)) (env_mem env) (Par t ops)) r
    \<and> symbols c' = symbols c \<and> calc_inv c'"
proof -
  let ?line = "show_line (Eval t ops)"
  let ?n = "parse_fuel ?line"
  have wf: "wf_trm t" "wf_ops ops"
    using ok by simp_all
  have fuel: "length (toks_trm t @ toks_ops ops) < ?n"
    using length_toks(1) [OF wf(1)] length_toks(2) [OF wf(2)] by (simp add: parse_fuel_def)
  have "reads (cur_new ?line) (toks_trm t @ toks_ops ops @ [Semicolon])"
    by (rule reads_new, rule lexes_expression [OF wf]) simp
  then obtain cur where cur: "cur_next (cur_new ?line) = (hd (toks_trm t), cur)" "reads cur (tl (toks_trm t) @ toks_ops ops @ [Semicolon])"
    using reads_next [of "cur_new ?line" "hd (toks_trm t)" "tl (toks_trm t) @ toks_ops ops @ [Semicolon]"] toks_trm_Cons [of t]
    by (metis append_Cons)
  note val = command_value_line [OF wf fuel assms(2)]
  show ?thesis
  proof (cases t)
    case (Var x)
    obtain u us where u: "toks_ops ops @ [Semicolon] = u # us" "u \<noteq> LParen"
      by (cases ops) auto
    obtain cur1 where cur1: "cur_peek cur = (u, cur1)" "reads cur1 (toks_ops ops @ [Semicolon])"
      using reads_peek [of cur u us] cur(2) u(1) Var by auto
    have "command_other ?n env x cur c = command_value ?n env (Identifier x) cur1 c"
      using cur1(1) u(2) by (cases u) (simp_all add: command_other_def)
    moreover have "parse env ?line c = command_other ?n env x cur c"
      using cur(1) ok Var by (simp add: parse_def parse_line_def parse_command_other)
    ultimately show ?thesis
      using val [of cur1 env] cur1(2) Var by simp
  qed (use val [OF cur(2), of env] cur(1) ok in \<open>simp_all add: parse_def parse_line_def\<close>)
qed

lemma reads_let:
  assumes ok: "line_ok (Bind x t ops)"
  shows "reads (cur_new (show_line (Bind x t ops))) (KwLet # Identifier x # Operator CHR ''='' # toks_trm t @ toks_ops ops @ [Semicolon])"
proof (rule reads_new)
  let ?e = "show_trm t @ show_ops ops @ '';''"
  let ?ts = "toks_trm t @ toks_ops ops @ [Semicolon]"
  fix lx assume lx: "lx_rest lx = show_line (Bind x t ops)"
  have 1: "\<exists>lx'. lexes lx1 (single_token CHR ''='' # ?ts) lx' \<and> lx_rest lx' = []" if "lx_rest lx1 = CHR ''='' # CHR '' '' # ?e" for lx1
    by (rule lexes_char [OF that]) (use ok in \<open>auto simp: is_space_def ident_char_def is_ascii_alphanumeric_def is_ascii_alphabetic_def
        is_ascii_digit_def in_range_def simp del: lexes.simps intro: lexes_skip lexes_expression\<close>)
  have 2: "\<exists>lx'. lexes lx1 (Identifier x # Operator CHR ''='' # ?ts) lx' \<and> lx_rest lx' = []" if "lx_rest lx1 = x @ '' = '' @ ?e" for lx1
  proof -
    have "next_token lx1 = (Identifier x, lx_advance (length x) lx1)" "lx_rest (lx_advance (length x) lx1) = '' = '' @ ?e"
      using next_token_name [of lx1 x "'' = '' @ ?e"] that ok by simp_all
    moreover have "\<exists>lx'. lexes (lx_advance (length x) lx1) (Operator CHR ''='' # ?ts) lx' \<and> lx_rest lx' = []"
      by (rule lexes_skip [where s = "CHR ''='' # CHR '' '' # ?e"]) (use 1 calculation(2) in \<open>simp_all add: single_token_def is_operator_def del: lexes.simps\<close>)
    ultimately show ?thesis by simp
  qed
  have "next_token lx = (KwLet, lx_advance 3 lx)" "lx_rest (lx_advance 3 lx) = CHR '' '' # x @ '' = '' @ ?e"
    using next_token_word [of lx "''let''" "CHR '' '' # x @ '' = '' @ ?e"] lx
    by (simp_all add: ident_start_def ident_char_def is_ascii_alphanumeric_def is_ascii_alphabetic_def in_range_def)
  moreover have "\<exists>lx'. lexes (lx_advance 3 lx) (Identifier x # Operator CHR ''='' # ?ts) lx' \<and> lx_rest lx' = []"
    by (rule lexes_skip [OF calculation(2)]) (use 2 in simp_all)
  ultimately show "\<exists>lx'. lexes lx (KwLet # Identifier x # Operator CHR ''='' # ?ts) lx' \<and> lx_rest lx' = []"
    by simp
qed

lemma insert_symbol_binds:
  assumes "symbols_inv syms" "as_slice nb = x" "length x \<le> 16"
  shows "if x \<notin> dom (lookup_symbol syms) \<and> card (dom (lookup_symbol syms)) = 32 then insert_symbol syms nb v = Inl SymbolTableFull
    else \<exists>syms'. insert_symbol syms nb v = Inr syms' \<and> symbols_inv syms' \<and> lookup_symbol syms' = (lookup_symbol syms)(x \<mapsto> v)"
proof -
  have len: "length x \<le> NAME_MAX"
    using assms(3) by (simp add: NAME_MAX_def)
  have "insert_key syms x v = None \<longleftrightarrow> x \<notin> dom (lookup_symbol syms) \<and> card (dom (lookup_symbol syms)) = 32"
    using insert_key_refused [OF assms(1)] by (simp add: SYMBOL_SLOTS_def)
  then show ?thesis
    using insert_key_lookup [OF assms(1) len] insert_key_inv [OF assms(1) len]
    unfolding insert_symbol_key assms(2) by (auto split: option.split)
qed

lemma parse_let_line:
  assumes ok: "line_ok (Bind x t ops)" and c: "calc_inv c" and n: "length (toks_trm t @ toks_ops ops) < n"
    and cur: "reads cur (Identifier x # Operator CHR ''='' # toks_trm t @ toks_ops ops @ [Semicolon])"
    and run: "run_line (env_mem env) (Bind x t ops) (lookup_symbol (symbols c)) = (y, \<sigma>')"
  shows "\<exists>r c'. parse_let n env cur c = Some (r, c') \<and> line_outcome wof (Bind x t ops) y r
    \<and> lookup_symbol (symbols c') = \<sigma>' \<and> calc_inv c'"
proof -
  obtain cur1 where cur1: "cur_next cur = (Identifier x, cur1)" "reads cur1 (Operator CHR ''='' # toks_trm t @ toks_ops ops @ [Semicolon])"
    using reads_next [OF cur] by blast
  obtain cur2 where cur2: "expect_token (Operator CHR ''='') cur1 = Some (Inr cur2)" "reads cur2 (toks_trm t @ toks_ops ops @ [Semicolon])"
    using reads_expect [OF cur1(2)] by blast
  have d: "delivers [Semicolon] (value_trm (lookup_symbol (symbols c)) (env_mem env) (Par t ops)) (eval_expr n env (symbols c) None cur2)"
    by (rule printed_expression(1) [OF _ _ n]) (use ok cur2(2) in \<open>simp_all add: arith_op_def\<close>)
  note defs = parse_let_def expect_name_def cur1(1) cur2(1) sbind_def pure_def line_outcome_def
  show ?thesis
  proof (cases "length x > 16")
    case True
    then show ?thesis
      using run c by (auto simp: defs from_slice_def NAME_MAX_def)
  next
    case False
    then obtain nb where nb: "from_slice x = Inr nb" "as_slice nb = x"
      using from_slice_Inr [of x] by (auto simp: from_slice_def NAME_MAX_def)
    show ?thesis
    proof (cases "value_trm (lookup_symbol (symbols c)) (env_mem env) (Par t ops)")
      case (Inl e)
      then have "y = Inl e" "\<sigma>' = lookup_symbol (symbols c)"
        using run False by simp_all
      then show ?thesis
        using d c nb Inl by (simp add: defs delivers_def del: value_trm.simps)
    next
      case (Inr v)
      then obtain cur3 cur4 where "eval_expr n env (symbols c) None cur2 = Some (Inr (v, cur3))" "expect_semicolon cur3 = Some (Inr cur4)"
        using d expect_semicolon_reads by (fastforce simp: delivers_def)
      moreover have "(y, \<sigma>') = (if x \<notin> dom (lookup_symbol (symbols c)) \<and> card (dom (lookup_symbol (symbols c))) = 32
          then (Inl SymbolTableFull, lookup_symbol (symbols c)) else (Inr v, (lookup_symbol (symbols c))(x \<mapsto> v)))"
        using run False Inr by (simp only: run_line.simps if_False sum.case)
      ultimately show ?thesis
        using insert_symbol_binds [OF _ nb(2), of "symbols c" v] c False nb
        by (auto simp: defs calc_inv_def split: if_splits)
    qed
  qed
qed

text \<open>The compiler on a printed line.\<close>

lemma parse_printed_line:
  assumes ok: "line_ok l" and c: "calc_inv c" and run: "run_line (env_mem env) l (lookup_symbol (symbols c)) = (y, \<sigma>')"
  shows "\<exists>r c'. parse env (show_line l) c = Some (r, c') \<and> line_outcome (env_word env) l y r
    \<and> lookup_symbol (symbols c') = \<sigma>' \<and> calc_inv c'"
proof (cases l)
  case (Eval t ops)
  then show ?thesis
    using parse_eval [of t ops c env] ok c run by auto
next
  case (Bind x t ops)
  let ?line = "show_line (Bind x t ops)"
  obtain cur where cur: "cur_next (cur_new ?line) = (KwLet, cur)"
      "reads cur (Identifier x # Operator CHR ''='' # toks_trm t @ toks_ops ops @ [Semicolon])"
    using reads_next [OF reads_let [of x t ops]] ok Bind by blast
  have "length (toks_trm t @ toks_ops ops) < parse_fuel ?line"
    using length_toks(1) [of t] length_toks(2) [of ops] ok Bind by (simp add: parse_fuel_def)
  then show ?thesis
    using parse_let_line [OF _ c _ cur(2), of "parse_fuel ?line" env y \<sigma>' "env_word env"] ok run cur(1)
    unfolding Bind by (simp add: parse_def parse_line_def)
qed

section \<open>The compiler implements the expression language\<close>

text \<open>C7. Every expression and every binding that can be written down compiles to what it means. Take any line that prints
  a syntax tree: \<open>E;\<close> or \<open>let x = E;\<close> where \<open>E\<close> is built from numbers, names, \<open>peek\<close> and parentheses to any depth and any length,
  with operators applied from left to right. The compiler reports exactly the error that the tree has (unbound name, division by zero, a name of more than 16 bytes,
  a 33rd name), or yields a program whose three words push the value of the tree and halt, or the binding
  of the value; and the constants it knows afterwards are those the line leaves.\<close>

theorem compiler_evaluates:
  assumes "line_ok l" "calc_inv c"
  shows "\<exists>r c'. parse env (show_line l) c = Some (r, c')
    \<and> line_outcome (env_word env) l (fst (run_line (env_mem env) l (lookup_symbol (symbols c)))) r
    \<and> lookup_symbol (symbols c') = snd (run_line (env_mem env) l (lookup_symbol (symbols c))) \<and> calc_inv c'"
  using parse_printed_line [OF assms surjective_pairing] .

text \<open>\<open>let x = 2+3*(10-4);\<close>, which is 30.\<close>

theorem compiler_evaluates_witness:
  "\<exists>nb c'. parse \<lparr>env_arch = Arm, env_reg = replicate 8 0, env_mem = (\<lambda>_. 0), env_word = example_words\<rparr> ''let x = 2+3*(10-4);'' compiler_new
      = Some (Inr (Bound nb 30), c') \<and> as_slice nb = ''x'' \<and> lookup_symbol (symbols c') ''x'' = Some 30"
proof -
  let ?l = "Bind ''x'' (Num 2) [(CHR ''+'', Num 3), (CHR ''*'', Par (Num 10) [(CHR ''-'', Num 4)])]"
  have ok: "line_ok ?l"
    by (simp add: name_ok_def ident_start_def ident_char_def is_ascii_alphanumeric_def is_ascii_alphabetic_def in_range_def)
  have show_line: "show_line ?l = ''let x = 2+3*(10-4);''"
    by code_simp
  have run: "run_line m ?l Map.empty = (Inr 30, [''x'' \<mapsto> 30])" for m
    by (simp add: arith_def)
  show ?thesis
    using compiler_evaluates [OF ok calc_inv_new(1)] unfolding show_line calc_inv_new(2) run
    by (fastforce simp: line_outcome_def)
qed

end
