(* ===== verification/Statements.thy ===== *)
theory Statements
  imports Expressions
begin

text \<open>
  The statements of the \<open>loop\<close> command (\<^verbatim>\<open>src/compiler/parser.rs\<close>, \<open>parse_loop\<close>), as syntax trees over the expressions of theory \<open>Expressions\<close>:
  a printed loop compiles to the accesses of its statements, in order, as often as its count says, and running the
  program performs exactly these accesses. The statement \<open>peek\<close> asks the registry, the term \<open>peek\<close> does not.
\<close>

section \<open>Syntax and meaning\<close>

datatype stmt = PokeStmt trm trm "(char \<times> trm) list" | PeekStmt trm

fun show_stmt :: "stmt \<Rightarrow> string" where
  "show_stmt (PokeStmt a t ops) = ''poke '' @ show_trm a @ '' '' @ show_trm t @ show_ops ops @ ''; ''"
| "show_stmt (PeekStmt a) = ''peek '' @ show_trm a @ ''; ''"

definition show_loop :: "trm \<Rightarrow> stmt list \<Rightarrow> string" where
  "show_loop k ss = ''loop '' @ show_trm k @ '' { '' @ concat (map show_stmt ss) @ ''}''"

fun wf_stmt :: "stmt \<Rightarrow> bool" where
  "wf_stmt (PokeStmt a t ops) = (wf_trm a \<and> wf_trm t \<and> wf_ops ops)"
| "wf_stmt (PeekStmt a) = wf_trm a"

fun toks_stmt :: "stmt \<Rightarrow> Token list" where
  "toks_stmt (PokeStmt a t ops) = Identifier ''poke'' # toks_trm a @ toks_trm t @ toks_ops ops @ [Semicolon]"
| "toks_stmt (PeekStmt a) = Identifier ''peek'' # toks_trm a @ [Semicolon]"

text \<open>A statement is an access, or an error: of its terms, from left to right, or the refusal of the registry.\<close>

definition permitted :: "Env \<Rightarrow> u32 \<Rightarrow> act \<Rightarrow> ParseError + act" where
  "permitted env a x = (case check_access (env_arch env) (env_reg env) a of Inl _ \<Rightarrow> Inl CapabilityViolationP | Inr _ \<Rightarrow> Inr x)"

fun stmt_act :: "Env \<Rightarrow> (string \<rightharpoonup> u32) \<Rightarrow> stmt \<Rightarrow> ParseError + act" where
  "stmt_act env \<sigma> (PokeStmt a t ops) =
    (case value_trm \<sigma> (env_mem env) a of
       Inl e \<Rightarrow> Inl e
     | Inr addr \<Rightarrow>
         (case value_trm \<sigma> (env_mem env) (Par t ops) of
            Inl e \<Rightarrow> Inl e
          | Inr v \<Rightarrow> permitted env addr (APoke addr v)))"
| "stmt_act env \<sigma> (PeekStmt a) =
    (case value_trm \<sigma> (env_mem env) a of Inl e \<Rightarrow> Inl e | Inr addr \<Rightarrow> permitted env addr (APeek addr))"

text \<open>Five words for a write, three for a read.\<close>

fun act_size :: "act \<Rightarrow> nat" where
  "act_size (APoke a v) = 5"
| "act_size (APeek a) = 3"

text \<open>The accesses of a block, unless a statement fails or the words exceed the stream of 128; \<open>k\<close> words are used already.\<close>

fun block_acts :: "Env \<Rightarrow> (string \<rightharpoonup> u32) \<Rightarrow> nat \<Rightarrow> stmt list \<Rightarrow> ParseError + act list" where
  "block_acts env \<sigma> k [] = Inr []"
| "block_acts env \<sigma> k (s # ss) =
    (case stmt_act env \<sigma> s of
       Inl e \<Rightarrow> Inl e
     | Inr x \<Rightarrow>
         if k + act_size x > 128 then Inl StreamFull
         else (case block_acts env \<sigma> (k + act_size x) ss of Inl e \<Rightarrow> Inl e | Inr xs \<Rightarrow> Inr (x # xs)))"

text \<open>The accesses of a loop: the block, as often as the count says, with one word left for the halt.\<close>

definition loop_acts :: "Env \<Rightarrow> (string \<rightharpoonup> u32) \<Rightarrow> trm \<Rightarrow> stmt list \<Rightarrow> ParseError + act list" where
  "loop_acts env \<sigma> k ss =
    (case value_trm \<sigma> (env_mem env) k of
       Inl e \<Rightarrow> Inl e
     | Inr n \<Rightarrow>
         if n = 0 \<or> n > 64 then Inl LoopTooLarge
         else (case block_acts env \<sigma> 0 ss of
                 Inl e \<Rightarrow> Inl e
               | Inr xs \<Rightarrow> if unat n * sum_list (map act_size xs) \<ge> 128 then Inl StreamFull else Inr (concat (replicate (unat n) xs))))"

section \<open>Lexing\<close>

lemma lexes_word:
  assumes "lx_rest lx = x @ CHR '' '' # s" "name_ok x" "ts \<noteq> []"
    and "\<And>lx1. lx_rest lx1 = s \<Longrightarrow> \<exists>lx'. lexes lx1 ts lx' \<and> lx_rest lx' = r"
  shows "\<exists>lx'. lexes lx (Identifier x # ts) lx' \<and> lx_rest lx' = r"
proof -
  have "next_token lx = (Identifier x, lx_advance (length x) lx)" "lx_rest (lx_advance (length x) lx) = CHR '' '' # s"
    using next_token_name [of lx x "CHR '' '' # s"] assms(1,2) by simp_all
  then show ?thesis
    using lexes_skip [OF _ assms(3,4), of "lx_advance (length x) lx"] by auto
qed

lemma brace_tokens:
  "single_token CHR ''{'' = LBrace" "single_token CHR ''}'' = RBrace"
  "\<not> is_space CHR ''{''" "\<not> is_space CHR ''}''" "\<not> ident_char CHR ''{''" "\<not> ident_char CHR ''}''"
  by (simp_all add: single_token_def is_space_def is_operator_def ident_char_def is_ascii_alphanumeric_def is_ascii_alphabetic_def is_ascii_digit_def in_range_def)

lemma keywords_ok: "name_ok ''poke''" "name_ok ''peek''" "name_ok ''loop''"
  by (simp_all add: name_ok_def ident_start_def ident_char_def is_ascii_alphanumeric_def is_ascii_alphabetic_def in_range_def)

text \<open>A term and the blank that ends it.\<close>

lemma lexes_term_blank:
  assumes "wf_trm t" "lx_rest lx = show_trm t @ CHR '' '' # s" "ts \<noteq> []"
    and "\<And>lx1. lx_rest lx1 = s \<Longrightarrow> \<exists>lx'. lexes lx1 ts lx' \<and> lx_rest lx' = r"
  shows "\<exists>lx'. lexes lx (toks_trm t @ ts) lx' \<and> lx_rest lx' = r"
proof (rule lexes_then [OF lexes_printed(1) [OF assms(1) _ assms(2)]])
  show "\<exists>lx'. lexes lx1 ts lx' \<and> lx_rest lx' = r" if "lx_rest lx1 = CHR '' '' # s" for lx1
    by (rule lexes_skip [OF that assms(3,4)])
qed simp

text \<open>An expression, its semicolon and the blank after it.\<close>

lemma lexes_expression_blank:
  assumes "wf_trm t" "wf_ops ops" "lx_rest lx = show_trm t @ show_ops ops @ CHR '';'' # CHR '' '' # s" "ts \<noteq> []"
    and "\<And>lx1. lx_rest lx1 = s \<Longrightarrow> \<exists>lx'. lexes lx1 ts lx' \<and> lx_rest lx' = r"
  shows "\<exists>lx'. lexes lx (toks_trm t @ toks_ops ops @ Semicolon # ts) lx' \<and> lx_rest lx' = r"
proof (rule lexes_then [OF lexes_printed(1) [OF assms(1) _ assms(3)]])
  have "\<exists>lx'. lexes lx2 (single_token CHR '';'' # ts) lx' \<and> lx_rest lx' = r" if "lx_rest lx2 = CHR '';'' # CHR '' '' # s" for lx2
    by (rule lexes_char [OF that]) (simp_all add: paren_tokens lexes_skip [OF _ assms(4,5)])
  then show "\<exists>lx'. lexes lx1 (toks_ops ops @ Semicolon # ts) lx' \<and> lx_rest lx' = r" if "lx_rest lx1 = show_ops ops @ CHR '';'' # CHR '' '' # s" for lx1
    using lexes_then [OF lexes_printed(2) [OF assms(2) _ that]] by (simp add: paren_tokens del: lexes.simps)
qed (simp add: assms(2))

lemma lexes_stmt:
  assumes "wf_stmt st" "lx_rest lx = show_stmt st @ s" "ts \<noteq> []"
    and "\<And>lx1. lx_rest lx1 = s \<Longrightarrow> \<exists>lx'. lexes lx1 ts lx' \<and> lx_rest lx' = r"
  shows "\<exists>lx'. lexes lx (toks_stmt st @ ts) lx' \<and> lx_rest lx' = r"
proof (cases st)
  case (PokeStmt a t ops)
  have wf: "wf_trm a" "wf_trm t" "wf_ops ops"
    using assms(1) PokeStmt by simp_all
  have "\<exists>lx'. lexes lx1 (toks_trm a @ toks_trm t @ toks_ops ops @ Semicolon # ts) lx' \<and> lx_rest lx' = r"
    if "lx_rest lx1 = show_trm a @ CHR '' '' # show_trm t @ show_ops ops @ CHR '';'' # CHR '' '' # s" for lx1
    by (rule lexes_term_blank [OF wf(1) that _ lexes_expression_blank [OF wf(2,3) _ assms(3,4)]]) simp_all
  then have "\<exists>lx'. lexes lx (Identifier ''poke'' # toks_trm a @ toks_trm t @ toks_ops ops @ Semicolon # ts) lx' \<and> lx_rest lx' = r"
    by (intro lexes_word [where s = "show_trm a @ CHR '' '' # show_trm t @ show_ops ops @ CHR '';'' # CHR '' '' # s"] keywords_ok)
      (use assms(2) PokeStmt in \<open>simp_all del: lexes.simps\<close>)
  then show ?thesis
    using PokeStmt by simp
next
  case (PeekStmt a)
  have "\<exists>lx'. lexes lx1 (toks_trm a @ Semicolon # ts) lx' \<and> lx_rest lx' = r"
    if "lx_rest lx1 = show_trm a @ CHR '';'' # CHR '' '' # s" for lx1
    using lexes_expression_blank [OF _ _ _ assms(3,4), of a "[]" lx1 s] assms(1) PeekStmt that by simp
  then have "\<exists>lx'. lexes lx (Identifier ''peek'' # toks_trm a @ Semicolon # ts) lx' \<and> lx_rest lx' = r"
    by (intro lexes_word [where s = "show_trm a @ CHR '';'' # CHR '' '' # s"] keywords_ok)
      (use assms(2) PeekStmt in \<open>simp_all del: lexes.simps\<close>)
  then show ?thesis
    using PeekStmt by simp
qed

definition toks_block :: "stmt list \<Rightarrow> Token list" where
  "toks_block ss = concat (map toks_stmt ss) @ [RBrace]"

lemma toks_block_simps [simp]: "toks_block [] = [RBrace]" "toks_block (s # ss) = toks_stmt s @ toks_block ss" "toks_block ss \<noteq> []"
  by (simp_all add: toks_block_def)

lemma lexes_block:
  "\<forall>s\<in>set ss. wf_stmt s \<Longrightarrow> lx_rest lx = concat (map show_stmt ss) @ ''}'' \<Longrightarrow> \<exists>lx'. lexes lx (toks_block ss) lx' \<and> lx_rest lx' = []"
proof (induction ss arbitrary: lx)
  case Nil
  then show ?case
    using lexes_char [of lx "CHR ''}''" "[]" "[]" "[]"] by (simp add: brace_tokens)
next
  case (Cons s ss)
  show ?case
    unfolding toks_block_simps
    by (rule lexes_stmt [where s = "concat (map show_stmt ss) @ ''}''"]) (use Cons in \<open>auto simp del: lexes.simps\<close>)
qed

lemma reads_loop:
  assumes "wf_trm k" "\<forall>s\<in>set ss. wf_stmt s"
  shows "reads (cur_new (show_loop k ss)) (Identifier ''loop'' # toks_trm k @ LBrace # toks_block ss)"
proof (rule reads_new)
  let ?b = "concat (map show_stmt ss) @ ''}''"
  fix lx assume lx: "lx_rest lx = show_loop k ss"
  have block: "\<exists>lx'. lexes lx1 (single_token CHR ''{'' # toks_block ss) lx' \<and> lx_rest lx' = []" if "lx_rest lx1 = CHR ''{'' # CHR '' '' # ?b" for lx1
    by (rule lexes_char [OF that]) (simp_all add: brace_tokens lexes_skip [OF _ _ lexes_block [OF assms(2)]])
  have "\<exists>lx'. lexes lx1 (toks_trm k @ LBrace # toks_block ss) lx' \<and> lx_rest lx' = []"
    if "lx_rest lx1 = show_trm k @ CHR '' '' # CHR ''{'' # CHR '' '' # ?b" for lx1
    by (rule lexes_term_blank [OF assms(1) that]) (use block in \<open>simp_all add: brace_tokens del: lexes.simps\<close>)
  then show "\<exists>lx'. lexes lx (Identifier ''loop'' # toks_trm k @ LBrace # toks_block ss) lx' \<and> lx_rest lx' = []"
    by (intro lexes_word [where s = "show_trm k @ CHR '' '' # CHR ''{'' # CHR '' '' # ?b"] keywords_ok)
      (use lx in \<open>simp_all add: show_loop_def del: lexes.simps\<close>)
qed

section \<open>Emission\<close>

lemma sbind_assoc: "sbind (sbind r f) g = sbind r (\<lambda>x c. sbind (f x c) g)"
  by (cases r rule: sres_cases) simp_all

text \<open>What pushing words does, also when they do not fit.\<close>

definition extends :: "(prim \<Rightarrow> u32) \<Rightarrow> u32 set \<Rightarrow> Compiler \<Rightarrow> u32 list \<Rightarrow> unit sres \<Rightarrow> bool" where
  "extends wof A c ws r \<longleftrightarrow>
    (if stream_len c + length ws \<le> 128
     then \<exists>c'. r = Some (Inr (), c') \<and> comp_inv wof A c' \<and> emitted c' = emitted c @ ws \<and> symbols c' = symbols c \<and> stream_len c' = stream_len c + length ws
     else \<exists>c'. r = Some (Inl StreamFull, c'))"

lemma extends_push:
  assumes "comp_inv wof A c"
  shows "extends wof A c [w] (stream_push c w)"
  using sok_stream_push [OF assms, of w] by (auto simp: extends_def stream_push_def MAX_STREAM_WORDS_def)

lemma extends_bind:
  assumes "extends wof A c ws r" "\<And>c'. comp_inv wof A c' \<Longrightarrow> extends wof A c' vs (f () c')"
  shows "extends wof A c (ws @ vs) (sbind r f)"
proof (cases "stream_len c + length ws \<le> 128")
  case True
  then obtain c' where c': "r = Some (Inr (), c')" "comp_inv wof A c'" "emitted c' = emitted c @ ws" "symbols c' = symbols c"
      "stream_len c' = stream_len c + length ws"
    using assms(1) by (auto simp: extends_def)
  then show ?thesis
    using assms(2) [OF c'(2)] by (auto simp: extends_def add.assoc split: if_splits)
next
  case False
  then show ?thesis
    using assms(1) by (auto simp: extends_def)
qed

lemma extends_push_words: "comp_inv wof A c \<Longrightarrow> extends wof A c ws (push_words c ws)"
proof (induction ws arbitrary: c)
  case Nil
  then show ?case
    by (auto simp: extends_def comp_inv_def MAX_STREAM_WORDS_def)
next
  case (Cons w ws)
  then show ?case
    using extends_bind [OF extends_push [OF Cons.prems, of w], of ws "\<lambda>_ c1. push_words c1 ws"] by simp
qed

lemma replay_push_words:
  "comp_inv wof A c \<Longrightarrow> \<forall>i\<in>set is. i < stream_len c \<Longrightarrow> replay c is = push_words c (map ((!) (emitted c)) is)"
proof (induction "is" arbitrary: c)
  case (Cons i "is")
  have i: "stream c ! i = emitted c ! i"
    using Cons.prems by (intro nth_emitted) auto
  show ?case
  proof (cases "stream_push c (emitted c ! i)" rule: sres_cases)
    case (result u c1)
    then have c1: "comp_inv wof A c1" "emitted c1 = emitted c @ [emitted c ! i]" "stream_len c1 = Suc (stream_len c)"
      using sok_stream_push [OF Cons.prems(1), of "emitted c ! i"] by (auto simp: stream_push_def split: if_splits)
    have "map ((!) (emitted c1)) is = map ((!) (emitted c)) is"
      using Cons.prems length_emitted [OF Cons.prems(1)] by (auto simp: c1(2) nth_append)
    then have "replay c1 is = push_words c1 (map ((!) (emitted c)) is)"
      using Cons.IH [OF c1(1)] Cons.prems(2) c1(3) less_SucI by (metis list.set_intros(2))
    then show ?thesis
      using i result by simp
  qed (simp_all add: i)
qed simp

lemma extends_unroll:
  "comp_inv wof A c \<Longrightarrow> e \<le> stream_len c \<Longrightarrow>
    extends wof A c (concat (replicate k (take e (emitted c)))) (unroll 0 e k c)"
proof (induction k arbitrary: c)
  case 0
  then show ?case
    by (auto simp: extends_def comp_inv_def MAX_STREAM_WORDS_def)
next
  case (Suc k)
  let ?b = "take e (emitted c)"
  have len: "length ?b = e" "length (concat (replicate k ?b)) = k * e"
    using Suc.prems length_emitted [OF Suc.prems(1)] by (simp_all add: length_concat sum_list_replicate)
  show ?case
  proof (cases "stream_len c + e \<le> 128")
    case True
    have "map ((!) (emitted c)) [0..<e] = ?b"
      using Suc.prems length_emitted [OF Suc.prems(1)] by (intro nth_equalityI) auto
    then have "replay c [0..<e] = push_words c ?b"
      using replay_push_words [OF Suc.prems(1), of "[0..<e]"] Suc.prems(2) by simp
    then obtain c' where c': "replay c [0..<e] = Some (Inr (), c')" "comp_inv wof A c'" "emitted c' = emitted c @ ?b"
        "symbols c' = symbols c" "stream_len c' = stream_len c + e"
      using extends_push_words [OF Suc.prems(1), of ?b] len(1) True by (auto simp: extends_def)
    have "take e (emitted c') = ?b"
      using c'(3) Suc.prems(2) length_emitted [OF Suc.prems(1)] by simp
    then have "extends wof A c' (concat (replicate k ?b)) (unroll 0 e k c')"
      using Suc.IH [OF c'(2)] c'(5) Suc.prems(2) by simp
    then show ?thesis
      using True c' len by (auto simp: extends_def MAX_STREAM_WORDS_def add.assoc split: if_splits)
  next
    case False
    then show ?thesis
      using len by (simp add: extends_def MAX_STREAM_WORDS_def)
  qed
qed

section \<open>Statements\<close>

definition act_words :: "(prim \<Rightarrow> u32) \<Rightarrow> act list \<Rightarrow> u32 list" where
  "act_words wof xs = code_words wof (acts_code xs)"

lemma act_words_simps [simp]: "act_words wof [] = []" "act_words wof (xs @ ys) = act_words wof xs @ act_words wof ys"
  by (simp_all add: act_words_def)

lemma act_words_Cons: "act_words wof (x # xs) = act_words wof [x] @ act_words wof xs"
  by (simp add: act_words_def)

lemma length_act_words: "length (act_words wof [x]) = act_size x" "length (act_words wof xs) = sum_list (map act_size xs)"
proof -
  show one: "length (act_words wof [x]) = act_size x" for x
    by (cases x) (simp_all add: act_words_def)
  show "length (act_words wof xs) = sum_list (map act_size xs)"
  proof (induction xs)
    case (Cons x xs)
    then show ?case
      using one [of x] by (subst act_words_Cons) simp
  qed simp
qed

text \<open>A statement of a block: its access, as words, or its error.\<close>

definition compiles :: "Env \<Rightarrow> u32 set \<Rightarrow> Compiler \<Rightarrow> Token list \<Rightarrow> ParseError + act \<Rightarrow> Cur sres \<Rightarrow> bool" where
  "compiles env A c ts x r \<longleftrightarrow>
    (case x of
       Inl e \<Rightarrow> \<exists>c'. r = Some (Inl e, c')
     | Inr x \<Rightarrow> \<exists>cur r'. reads cur ts \<and> extends (env_word env) A c (act_words (env_word env) [x]) r' \<and> r = sbind r' (\<lambda>_ c. Some (Inr cur, c)))"

lemma reads_semicolon: "reads cur (Semicolon # ts) \<Longrightarrow> \<exists>cur'. expect_semicolon cur = Some (Inr cur') \<and> reads cur' ts"
  using reads_next [of cur Semicolon ts] by (auto simp: expect_semicolon_def)

lemma atomic_delivers:
  assumes "wf_trm t" "length (toks_trm t) \<le> n" "reads cur (toks_trm t @ ts)"
  shows "delivers ts (value_trm (lookup_symbol syms) (env_mem env) t) (parse_atomic_term n env syms cur)"
proof -
  obtain cur1 where "cur_next cur = (hd (toks_trm t), cur1)" "reads cur1 (tl (toks_trm t) @ ts)"
    using reads_next [of cur "hd (toks_trm t)" "tl (toks_trm t) @ ts"] assms(3) toks_trm_Cons [of t] by (metis append_Cons)
  then show ?thesis
    using printed_delivers(1) [OF assms(1,2)] by (simp add: parse_atomic_term_def)
qed

lemma sbind_delivers:
  assumes "delivers ts x r"
  obtains e where "x = Inl e" "pure c r = Some (Inl e, c)"
  | v cur where "x = Inr v" "reads cur ts" "pure c r = Some (Inr (v, cur), c)"
  using assms by (cases x) (auto simp: delivers_def pure_def)

lemma permitted_cases:
  obtains e where "permitted env a x = Inl e" "check_cap env a = Inl e" | "permitted env a x = Inr x" "check_cap env a = Inr ()"
  by (cases "check_access (env_arch env) (env_reg env) a") (simp_all add: check_cap_def permitted_def that)

lemma compile_peek_compiles:
  assumes wf: "wf_trm a" and n: "length (toks_trm a) \<le> n" and c: "comp_inv (env_word env) A c" and cur: "reads cur (toks_trm a @ Semicolon # ts)"
  shows "compiles env A c ts (stmt_act env (lookup_symbol (symbols c)) (PeekStmt a)) (compile_peek n env cur c)"
proof (cases rule: sbind_delivers [OF atomic_delivers [OF wf n cur, of "symbols c" env], where c = c])
  case (1 e)
  then show ?thesis
    by (simp add: compiles_def compile_peek_def)
next
  case addr: (2 addr cur1)
  obtain cur2 where cur2: "expect_semicolon cur1 = Some (Inr cur2)" "reads cur2 ts"
    using reads_semicolon [OF addr(2)] by blast
  have words: "act_words (env_word env) [APeek addr] = [env_word env lit_prim, addr, env_word env load_reg_prim]"
    by (simp add: act_words_def)
  show ?thesis
  proof (cases rule: permitted_cases [of env addr "APeek addr"])
    case (1 e)
    then show ?thesis
      using addr cur2 by (simp add: compiles_def compile_peek_def pure_def)
  next
    case 2
    have "compile_peek n env cur c = sbind (push_words c (act_words (env_word env) [APeek addr])) (\<lambda>_ c. Some (Inr cur2, c))"
      using addr(3) cur2 2 unfolding words
      by (simp add: compile_peek_def pure_def sbind_assoc stream_push_lit_def)
    then show ?thesis
      using 2 addr(1) cur2(2) extends_push_words [OF c] by (auto simp: compiles_def)
  qed
qed

lemma compile_poke_compiles:
  assumes wf: "wf_trm a" "wf_trm t" "wf_ops ops" and n: "length (toks_trm a) \<le> n" "length (toks_trm t @ toks_ops ops) < n"
    and c: "comp_inv (env_word env) A c" and cur: "reads cur (toks_trm a @ toks_trm t @ toks_ops ops @ Semicolon # ts)"
  shows "compiles env A c ts (stmt_act env (lookup_symbol (symbols c)) (PokeStmt a t ops)) (compile_poke n env cur c)"
proof (cases rule: sbind_delivers [OF atomic_delivers [OF wf(1) n(1) cur, of "symbols c" env], where c = c])
  case (1 e)
  then show ?thesis
    by (simp add: compiles_def compile_poke_def)
next
  case addr: (2 addr cur1)
  have "delivers (Semicolon # ts) (value_trm (lookup_symbol (symbols c)) (env_mem env) (Par t ops)) (eval_expr n env (symbols c) None cur1)"
    by (rule printed_expression(1) [OF wf(2,3) n(2) _ addr(2)]) (simp add: arith_op_def)
  then show ?thesis
  proof (cases rule: sbind_delivers [where c = c])
    case (1 e)
    then show ?thesis
      using addr by (simp add: compiles_def compile_poke_def del: value_trm.simps(4))
  next
    case val: (2 v cur2)
    obtain cur3 where cur3: "expect_semicolon cur2 = Some (Inr cur3)" "reads cur3 ts"
      using reads_semicolon [OF val(2)] by blast
    have words: "act_words (env_word env) [APoke addr v]
        = [env_word env lit_prim, addr, env_word env lit_prim, v, env_word env write_reg_prim]"
      by (simp add: act_words_def)
    show ?thesis
    proof (cases rule: permitted_cases [of env addr "APoke addr v"])
      case (1 e)
      then show ?thesis
        using addr val cur3 by (simp add: compiles_def compile_poke_def pure_def del: value_trm.simps(4))
    next
      case 2
      have "compile_poke n env cur c = sbind (push_words c (act_words (env_word env) [APoke addr v])) (\<lambda>_ c. Some (Inr cur3, c))"
        using addr(3) val(3) cur3 2 unfolding words
        by (simp add: compile_poke_def pure_def sbind_assoc stream_push_lit_def)
      then show ?thesis
        using 2 addr(1) val(1) cur3(2) extends_push_words [OF c] by (auto simp: compiles_def simp del: value_trm.simps(4))
    qed
  qed
qed

section \<open>The loop command\<close>

definition block_result :: "Env \<Rightarrow> u32 set \<Rightarrow> Compiler \<Rightarrow> ParseError + act list \<Rightarrow> Cur sres \<Rightarrow> bool" where
  "block_result env A c x r \<longleftrightarrow>
    (case x of
       Inl e \<Rightarrow> \<exists>c'. r = Some (Inl e, c')
     | Inr xs \<Rightarrow> \<exists>cur c'. r = Some (Inr cur, c') \<and> comp_inv (env_word env) A c' \<and> emitted c' = emitted c @ act_words (env_word env) xs)"

lemma block_result_step:
  assumes "compiles env A c ts y r"
    and "\<And>x cur c'. y = Inr x \<Longrightarrow> reads cur ts \<Longrightarrow> comp_inv (env_word env) A c' \<Longrightarrow> symbols c' = symbols c \<Longrightarrow>
      stream_len c' = stream_len c + act_size x \<Longrightarrow> emitted c' = emitted c @ act_words (env_word env) [x] \<Longrightarrow>
      block_result env A c' (block_acts env \<sigma> (stream_len c + act_size x) ss) (f cur c')"
    and "stmt_act env \<sigma> st = y"
  shows "block_result env A c (block_acts env \<sigma> (stream_len c) (st # ss)) (sbind r f)"
proof (cases y)
  case (Inl e)
  then show ?thesis
    using assms(1,3) by (auto simp: compiles_def block_result_def)
next
  case (Inr x)
  then obtain cur r' where r': "reads cur ts" "extends (env_word env) A c (act_words (env_word env) [x]) r'" "r = sbind r' (\<lambda>_ c. Some (Inr cur, c))"
    using assms(1) by (auto simp: compiles_def)
  show ?thesis
  proof (cases "stream_len c + act_size x \<le> 128")
    case True
    then obtain c' where c': "r' = Some (Inr (), c')" "comp_inv (env_word env) A c'" "emitted c' = emitted c @ act_words (env_word env) [x]"
        "symbols c' = symbols c" "stream_len c' = stream_len c + act_size x"
      using r'(2) by (auto simp: extends_def length_act_words)
    have f: "block_result env A c' (block_acts env \<sigma> (stream_len c + act_size x) ss) (f cur c')"
      using assms(2) [OF Inr r'(1) c'(2,4,5,3)] .
    show ?thesis
    proof (cases "block_acts env \<sigma> (stream_len c + act_size x) ss")
      case (Inr xs)
      then show ?thesis
        using f True \<open>y = Inr x\<close> assms(3) c' r'(3) act_words_Cons [of "env_word env" x xs] by (auto simp: block_result_def)
    qed (use f True Inr assms(3) c' r'(3) in \<open>auto simp: block_result_def\<close>)
  next
    case False
    then show ?thesis
      using Inr assms(3) r' by (auto simp: block_result_def extends_def length_act_words)
  qed
qed

lemma loop_block_compiles:
  "\<forall>s\<in>set ss. wf_stmt s \<Longrightarrow> length (toks_block ss) < n \<Longrightarrow> comp_inv (env_word env) A c \<Longrightarrow> reads cur (toks_block ss) \<Longrightarrow>
    block_result env A c (block_acts env (lookup_symbol (symbols c)) (stream_len c) ss) (loop_block n env cur c)"
proof (induction ss arbitrary: n c cur)
  case Nil
  then show ?case
    using reads_peek [of cur RBrace "[]"] by (cases n) (auto simp: block_result_def)
next
  case (Cons st ss)
  obtain m where n: "n = Suc m"
    using Cons.prems(2) by (cases n) auto
  let ?w = "case st of PokeStmt a t ops \<Rightarrow> ''poke'' | PeekStmt a \<Rightarrow> ''peek''"
  have toks: "toks_stmt st = Identifier ?w # tl (toks_stmt st)"
    by (cases st) simp_all
  obtain cur1 cur2 where cur: "cur_peek cur = (Identifier ?w, cur1)" "cur_next cur1 = (Identifier ?w, cur2)" "reads cur2 (tl (toks_stmt st) @ toks_block ss)"
    using reads_peek [of cur "Identifier ?w" "tl (toks_stmt st) @ toks_block ss"] reads_next [of _ "Identifier ?w" "tl (toks_stmt st) @ toks_block ss"]
      Cons.prems(4) toks by (metis append_Cons toks_block_simps(2))
  let ?r = "case st of PokeStmt a t ops \<Rightarrow> compile_poke m env cur2 c | PeekStmt a \<Rightarrow> compile_peek m env cur2 c"
  have "loop_block n env cur c = sbind ?r (loop_block m env)"
    using cur(1,2) n by (cases st) (simp_all add: stmt_of_def)
  moreover have "compiles env A c (toks_block ss) (stmt_act env (lookup_symbol (symbols c)) st) ?r"
  proof (cases st)
    case (PokeStmt a t ops)
    then show ?thesis
      using compile_poke_compiles [of a t ops m env A c cur2 "toks_block ss"] Cons.prems n cur(3) by simp
  next
    case (PeekStmt a)
    then show ?thesis
      using compile_peek_compiles [of a m env A c cur2 "toks_block ss"] Cons.prems n cur(3) by simp
  qed
  moreover have "length (toks_block ss) < m"
    using Cons.prems(2) n toks by (cases st) simp_all
  ultimately show ?case
    using block_result_step [of env A c "toks_block ss" "stmt_act env (lookup_symbol (symbols c)) st" ?r "lookup_symbol (symbols c)" ss "loop_block m env" st]
      Cons.IH Cons.prems(1) by (metis list.set_intros(2))
qed

text \<open>Unrolling and the halt, on a stream that holds the block.\<close>

lemma loop_finishes:
  assumes c: "comp_inv (env_word env) A c" "emitted c = act_words (env_word env) xs" and k: "0 < k"
  shows "\<exists>c'. sbind (unroll 0 (stream_len c) (k - 1) c) (\<lambda>_ c. sbind (stream_halt env c) (\<lambda>_ c. Some (Inr (Run (take_program c False)), c)))
    = Some (if k * sum_list (map act_size xs) \<ge> 128 then Inl StreamFull
            else Inr (Run (call_program env (act_words (env_word env) (concat (replicate k xs))))), c')"
proof -
  let ?ws = "act_words (env_word env) xs" and ?h = "env_word env halt_prim"
  obtain j where j: "k = Suc j"
    using k by (cases k) auto
  have len: "stream_len c = length ?ws" "length ?ws = sum_list (map act_size xs)"
    using length_emitted [OF c(1)] c(2) length_act_words(2) by simp_all
  have rep: "act_words (env_word env) (concat (replicate i xs)) = concat (replicate i ?ws)" for i
    by (induction i) simp_all
  have "extends (env_word env) A c (concat (replicate j ?ws) @ [?h]) (sbind (unroll 0 (stream_len c) j c) (\<lambda>_ c. stream_halt env c))"
    using extends_unroll [OF c(1) order_refl, of j] c(2) len(1) extends_push
    by (intro extends_bind) (simp_all add: stream_halt_def)
  moreover have "length (concat (replicate j ?ws)) = j * length ?ws"
    by (simp add: length_concat sum_list_replicate)
  ultimately have ext: "if k * sum_list (map act_size xs) \<ge> 128
      then \<exists>c'. sbind (unroll 0 (stream_len c) j c) (\<lambda>_ c. stream_halt env c) = Some (Inl StreamFull, c')
      else \<exists>c'. sbind (unroll 0 (stream_len c) j c) (\<lambda>_ c. stream_halt env c) = Some (Inr (), c') \<and> comp_inv (env_word env) A c'
        \<and> emitted c' = concat (replicate k ?ws) @ [?h]"
    using len c(2) j by (auto simp: extends_def add.assoc [symmetric] not_le split: if_splits)
  have prog: "take_program c' False = call_program env (concat (replicate k ?ws))"
    if "comp_inv (env_word env) A c'" "emitted c' = concat (replicate k ?ws) @ [?h]" for c'
  proof -
    have "stream_len c' = length (concat (replicate k ?ws)) + 1"
      using length_emitted [OF that(1)] that(2) by simp
    then show ?thesis
      using that(2) by (simp add: take_program_def call_program_def emitted_def)
  qed
  show ?thesis
    using ext prog unfolding rep by (auto simp: j sbind_assoc [symmetric] split: if_splits)
qed

lemma loop_count_ok_iff: "loop_count_ok n \<longleftrightarrow> \<not> (n = 0 \<or> n > 64)"
  by (simp add: loop_count_ok_def MAX_LOOP_UNROLL_def)

lemma parse_loop_compiles:
  assumes wf: "wf_trm k" "\<forall>s\<in>set ss. wf_stmt s" and n: "length (toks_trm k) \<le> n" "length (toks_block ss) < n"
    and c: "comp_inv (env_word env) A c" and cur: "reads cur (toks_trm k @ LBrace # toks_block ss)"
  shows "\<exists>c'. parse_loop n env cur c = Some (case loop_acts env (lookup_symbol (symbols c)) k ss of
      Inl e \<Rightarrow> Inl e | Inr xs \<Rightarrow> Inr (Run (call_program env (act_words (env_word env) xs))), c')"
proof (cases rule: sbind_delivers [OF atomic_delivers [OF wf(1) n(1) cur, of "symbols c" env], where c = c])
  case (1 e)
  then show ?thesis
    by (simp add: parse_loop_def loop_acts_def)
next
  case count: (2 v cur1)
  obtain cur2 where cur2: "expect_token LBrace cur1 = Some (Inr cur2)" "reads cur2 (toks_block ss)"
    using reads_expect [OF count(2)] by blast
  have c0: "comp_inv (env_word env) A (stream_reset c)" "emitted (stream_reset c) = []" "symbols (stream_reset c) = symbols c" "stream_len (stream_reset c) = 0"
    using stream_reset_inv [OF c] by (simp_all add: stream_reset_def)
  have block: "block_result env A (stream_reset c) (block_acts env (lookup_symbol (symbols c)) 0 ss) (loop_block n env cur2 (stream_reset c))"
    using loop_block_compiles [OF wf(2) n(2) c0(1) cur2(2)] c0(3,4) by simp
  show ?thesis
  proof (cases "loop_count_ok v")
    case True
    then have v: "0 < unat v" "\<not> (v = 0 \<or> v > 64)"
      by (simp_all add: loop_count_ok_iff unat_gt_0)
    show ?thesis
    proof (cases "block_acts env (lookup_symbol (symbols c)) 0 ss")
      case (Inl e)
      then show ?thesis
        using block count cur2 True v by (auto simp: parse_loop_def loop_acts_def block_result_def pure_def)
    next
      case (Inr xs)
      then obtain cur3 c1 where c1: "loop_block n env cur2 (stream_reset c) = Some (Inr cur3, c1)" "comp_inv (env_word env) A c1"
          "emitted c1 = act_words (env_word env) xs"
        using block c0(2) by (auto simp: block_result_def)
      show ?thesis
        using loop_finishes [OF c1(2,3) v(1)] count cur2 True v Inr c1(1)
        by (auto simp: parse_loop_def loop_acts_def pure_def)
    qed
  next
    case False
    then show ?thesis
      using count by (simp add: parse_loop_def loop_acts_def loop_count_ok_iff)
  qed
qed

lemma length_toks_block: "\<forall>s\<in>set ss. wf_stmt s \<Longrightarrow> length (toks_block ss) \<le> Suc (length (concat (map show_stmt ss)))"
proof (induction ss)
  case (Cons s ss)
  have "length (toks_stmt s) \<le> length (show_stmt s)"
  proof (cases s)
    case (PokeStmt a t ops)
    then show ?thesis
      using length_toks(1) [of a] length_toks(1) [of t] length_toks(2) [of ops] Cons.prems by simp
  next
    case (PeekStmt a)
    then show ?thesis
      using length_toks(1) [of a] Cons.prems by simp
  qed
  then show ?case
    using Cons by simp
qed simp

lemma parse_loop_line:
  assumes "wf_trm k" "\<forall>s\<in>set ss. wf_stmt s" "comp_inv (env_word env) A c"
  shows "\<exists>c'. parse env (show_loop k ss) c = Some (case loop_acts env (lookup_symbol (symbols c)) k ss of
      Inl e \<Rightarrow> Inl e | Inr xs \<Rightarrow> Inr (Run (call_program env (act_words (env_word env) xs))), c')"
proof -
  let ?n = "parse_fuel (show_loop k ss)"
  have n: "length (toks_trm k) \<le> ?n" "length (toks_block ss) < ?n"
    using length_toks(1) [OF assms(1)] length_toks_block [OF assms(2)] by (simp_all add: parse_fuel_def show_loop_def)
  obtain cur where cur: "cur_next (cur_new (show_loop k ss)) = (Identifier ''loop'', cur)" "reads cur (toks_trm k @ LBrace # toks_block ss)"
    using reads_next [OF reads_loop [OF assms(1,2)]] by blast
  have "parse env (show_loop k ss) c = parse_loop ?n env cur c"
    using cur(1) by (simp add: parse_def parse_line_def parse_command_def)
  then show ?thesis
    using parse_loop_compiles [OF assms(1,2) n assms(3) cur(2)] by simp
qed

lemma loop_acts_size: "loop_acts env \<sigma> k ss = Inr xs \<Longrightarrow> sum_list (map act_size xs) < 128"
proof -
  have "sum_list (map act_size (concat (replicate n ys))) = n * sum_list (map act_size ys)" for n ys
    by (induction n) simp_all
  then show "loop_acts env \<sigma> k ss = Inr xs \<Longrightarrow> sum_list (map act_size xs) < 128"
    by (auto simp: loop_acts_def split: sum.splits if_splits)
qed

text \<open>C13. Loops are unrolled exactly. Take any \<open>loop\<close> line that prints a count and a block of \<open>poke\<close> and \<open>peek\<close> statements, whose addresses and values
  are arbitrary expressions. If a term has no value, the count is not between 1 and 64, the registry refuses an address or the words exceed the stream, the compiler reports that
  error, the first in the order of the text. Otherwise the program is the code of the accesses of the statements, in order and as often as the count says, and a halt;
  and running it on the threaded engine performs exactly these writes on the memory.\<close>

theorem loop_command_unrolls:
  assumes "wf_trm k" "\<forall>s\<in>set ss. wf_stmt s" "comp_inv (env_word env) A c" "good_words (env_word env)"
  shows "case loop_acts env (lookup_symbol (symbols c)) k ss of
      Inl e \<Rightarrow> \<exists>c'. parse env (show_loop k ss) c = Some (Inl e, c')
    | Inr xs \<Rightarrow> \<exists>p c' vm. parse env (show_loop k ss) c = Some (Inr (Run p), c')
        \<and> take (sp_len p) (sp_words p) = code_words (env_word env) (acts_code xs) @ [env_word env halt_prim]
        \<and> run_threaded_stream (env_word env) (sp_words p) 0 (vm_init m) = Some vm \<and> vm_mem vm = snd (fold do_act xs ([], m))"
proof (cases "loop_acts env (lookup_symbol (symbols c)) k ss")
  case (Inl e)
  then show ?thesis
    using parse_loop_line [OF assms(1-3)] by simp
next
  case (Inr xs)
  let ?ws = "act_words (env_word env) xs"
  let ?p = "call_program env ?ws"
  have len: "length ?ws < 128"
    using loop_acts_size [OF Inr] by (simp add: length_act_words)
  then have "sp_words ?p = ?ws @ env_word env halt_prim # replicate (127 - length ?ws) 0"
    by (simp add: call_program_def copy_prefix_def MAX_STREAM_WORDS_def)
  then obtain vm where vm: "run_threaded_stream (env_word env) (sp_words ?p) 0 (vm_init m) = Some vm" "vm_mem vm = snd (fold do_act xs ([], m))"
    using acts_run [OF assms(4), of xs "replicate (127 - length ?ws) 0" m] len by (auto simp: act_words_def vm_is_def)
  have "take (sp_len ?p) (sp_words ?p) = code_words (env_word env) (acts_code xs) @ [env_word env halt_prim]"
    by (simp add: call_program_def copy_prefix_def act_words_def)
  then show ?thesis
    using parse_loop_line [OF assms(1-3)] Inr vm by (simp del: fold_simps) blast
qed

text \<open>\<open>loop 2 { poke 536870912 3+4; peek 536870912; }\<close>\<close>

theorem loop_command_unrolls_witness:
  "\<exists>p c' vm. parse example_env ''loop 2 { poke 536870912 3+4; peek 536870912; }'' compiler_new = Some (Inr (Run p), c')
    \<and> take (sp_len p) (sp_words p) = code_words example_words (acts_code
        [APoke 0x20000000 7, APeek 0x20000000, APoke 0x20000000 7, APeek 0x20000000]) @ [example_words halt_prim]
    \<and> run_threaded_stream example_words (sp_words p) 0 (vm_init (\<lambda>a. 0)) = Some vm \<and> peek_u32 (vm_mem vm) 0x20000000 = 7"
proof -
  let ?ss = "[PokeStmt (Num 0x20000000) (Num 3) [(CHR ''+'', Num 4)], PeekStmt (Num 0x20000000)]"
  have line: "show_loop (Num 2) ?ss = ''loop 2 { poke 536870912 3+4; peek 536870912; }''"
    by (simp add: show_loop_def digits10.simps char_of_def bit_Suc_0_iff)
  have "check_access (env_arch example_env) (env_reg example_env) 0x20000000 = Inr ()"
    by code_simp
  moreover have "replicate 2 xs = [xs, xs]" for xs :: "act list"
    by (simp add: numeral_2_eq_2)
  ultimately have acts: "loop_acts example_env Map.empty (Num 2) ?ss
      = Inr [APoke 0x20000000 7, APeek 0x20000000, APoke 0x20000000 7, APeek 0x20000000]"
    by (simp add: loop_acts_def permitted_def arith_def)
  show ?thesis
    using loop_command_unrolls [OF _ _ comp_inv_new, of "Num 2" ?ss example_env "\<lambda>a. 0"] acts good_example_words
    unfolding line calc_inv_new(2) example_env_word by (auto simp del: example_words.simps)
qed

text \<open>Other statements are skipped without an error: a call in the block of the \<open>loop\<close> command compiles to nothing.\<close>

lemma loop_skips_other_statements:
  "map_option (\<lambda>(r, c). map_option (\<lambda>p. take (sp_len p) (sp_words p)) (run_of (Some r)))
    (parse example_env ''loop 2 { f(); }'' compiler_new) = Some (Some [example_words halt_prim])"
  by code_simp

section \<open>The peek term\<close>

lemma parse_peek:
  assumes "wf_trm t"
  shows "parse env (''peek '' @ show_trm t @ '';'') c = Some (case value_trm (lookup_symbol (symbols c)) (env_mem env) t of
      Inl e \<Rightarrow> Inl e | Inr a \<Rightarrow> (case check_cap env a of Inl e \<Rightarrow> Inl e | Inr _ \<Rightarrow> Inr (EnforcedPeek a)), c)"
proof -
  let ?line = "''peek '' @ show_trm t @ '';''"
  let ?n = "parse_fuel ?line"
  have n: "length (toks_trm t) \<le> ?n"
    using length_toks(1) [OF assms] by (simp add: parse_fuel_def)
  have "reads (cur_new ?line) (Identifier ''peek'' # toks_trm t @ [Semicolon])"
  proof (rule reads_new)
    fix lx assume "lx_rest lx = ?line"
    then show "\<exists>lx'. lexes lx (Identifier ''peek'' # toks_trm t @ [Semicolon]) lx' \<and> lx_rest lx' = []"
      using lexes_expression [OF assms, of "[]"]
      by (intro lexes_word [where s = "show_trm t @ '';''"] keywords_ok) (simp_all del: lexes.simps)
  qed
  then obtain cur where cur: "cur_next (cur_new ?line) = (Identifier ''peek'', cur)" "reads cur (toks_trm t @ [Semicolon])"
    using reads_next by blast
  have line: "parse env ?line c = command1 ?n env cur c (check_cap env) EnforcedPeek"
    using cur(1) by (simp add: parse_def parse_line_def parse_command_def)
  show ?thesis
  proof (cases rule: sbind_delivers [OF atomic_delivers [OF assms n cur(2), of "symbols c" env], where c = c])
    case (1 e)
    then show ?thesis
      unfolding line by (simp add: command1_def)
  next
    case (2 a cur1)
    obtain cur2 where "expect_semicolon cur1 = Some (Inr cur2)"
      using reads_semicolon [OF 2(2)] by blast
    then show ?thesis
      using 2 unfolding line by (simp add: command1_def pure_def split: sum.split)
  qed
qed



end
