(* ===== verification/Calculator.thy ===== *)
theory Calculator
  imports Boot Expressions
begin

text \<open>
  A whole session at the console against the expression language of theory \<open>Expressions\<close>: what a user who types lines
  sees, byte for byte, from power-up. The reply to a line is defined on its syntax tree; lexer, parser, symbol
  table, code generator, the generated Thumb code, number formatting and line editing are on the other side of the equation.
\<close>

section \<open>Exact output\<close>

definition outputs :: "('f System \<Rightarrow> 'f System option) \<Rightarrow> string \<Rightarrow> bool" where
  "outputs a t \<longleftrightarrow> (\<forall>s. \<exists>c. a s = Some (s\<lparr>s_con := c\<rparr>) \<and> c_out c = c_out (s_con s) @ t)"

named_theorems exact_output

lemma outputsD: "outputs a t \<Longrightarrow> \<exists>c. a s = Some (s\<lparr>s_con := c\<rparr>) \<and> c_out c = c_out (s_con s) @ t"
  by (simp add: outputs_def)

lemma outputs_on_con:
  assumes "\<And>c. \<exists>r. f c = Some \<lparr>c_reads = r, c_out = c_out c @ t\<rparr>"
  shows "outputs (on_con f) t"
  unfolding outputs_def
proof
  fix s :: "'f System"
  obtain r where "f (s_con s) = Some \<lparr>c_reads = r, c_out = c_out (s_con s) @ t\<rparr>"
    using assms by blast
  then show "\<exists>c. on_con f s = Some (s\<lparr>s_con := c\<rparr>) \<and> c_out c = c_out (s_con s) @ t"
    by (auto simp: on_con_def intro!: exI [of _ "\<lparr>c_reads = r, c_out = c_out (s_con s) @ t\<rparr>"])
qed

lemma outputs_seq [exact_output]:
  "outputs (seq []) []"
  "outputs a t \<Longrightarrow> outputs (seq as) u \<Longrightarrow> outputs (seq (a # as)) (t @ u)"
proof -
  show "outputs (seq []) []"
    unfolding outputs_def by (metis seq.simps(1) System.surjective System.update_convs(12) append_Nil2)
  assume a: "outputs a t" and as: "outputs (seq as) u"
  show "outputs (seq (a # as)) (t @ u)"
    unfolding outputs_def
  proof
    fix s
    obtain c where c: "a s = Some (s\<lparr>s_con := c\<rparr>)" "c_out c = c_out (s_con s) @ t"
      using outputsD [OF a] by blast
    obtain c' where "seq as (s\<lparr>s_con := c\<rparr>) = Some (s\<lparr>s_con := c'\<rparr>)" "c_out c' = c_out c @ u"
      using outputsD [OF as, of "s\<lparr>s_con := c\<rparr>"] by auto
    then show "\<exists>c. seq (a # as) s = Some (s\<lparr>s_con := c\<rparr>) \<and> c_out c = c_out (s_con s) @ t @ u"
      using c by (intro exI [of _ c']) simp
  qed
qed

lemma write_str_twice:
  assumes "tx_ready a sr"
  shows "\<exists>r. (case write_str a sr con t of None \<Rightarrow> None | Some con' \<Rightarrow> write_str a sr con' u) = Some \<lparr>c_reads = r, c_out = c_out con @ t @ u\<rparr>"
proof -
  obtain r where "write_str a sr con t = Some \<lparr>c_reads = r, c_out = c_out con @ t\<rparr>"
    using write_str_ready [OF assms] by blast
  then show ?thesis
    using write_str_ready [OF assms, of "\<lparr>c_reads = r, c_out = c_out con @ t\<rparr>" u] by simp
qed

lemma write_dec_ready:
  assumes "tx_ready a sr"
  shows "\<exists>r. write_dec_u32 a sr con v = Some \<lparr>c_reads = r, c_out = c_out con @ digits10 (unat v)\<rparr>"
proof -
  have "length (digits10 (unat v)) \<le> Suc 9"
    using unat_less_u32 [of v] by (intro length_digits10) simp
  then obtain scratch' where "fill_scratch (replicate 10 (CHR 0x00)) 0 v = Some (scratch', length (digits10 (unat v)))"
      "take (length (digits10 (unat v))) scratch' = rev (digits10 (unat v))"
    using fill_scratch_digits [of 0 v "replicate 10 (CHR 0x00)"] by auto
  then show ?thesis
    using write_str_ready [OF assms, of con "digits10 (unat v)"] by (simp add: write_dec_u32_def)
qed

lemma console_outputs [exact_output]:
  assumes "console_ready W"
  shows "outputs (puts W t) t" "outputs (puts_line W t) (t @ crlf)" "outputs (puts_hex W v) (''0x'' @ hex_bytes v)"
    "outputs (puts_dec W v) (digits10 (unat v))" "outputs (prompt W) ''holy> ''"
    "outputs (on_con (\<lambda>c. put_byte (w_arch W) (w_uart_sr W) c b)) [b]"
proof -
  have W: "tx_ready (w_arch W) (w_uart_sr W)"
    using assms by (simp add: console_ready_def)
  show "outputs (puts W t) t" for t
    unfolding puts_def by (intro outputs_on_con write_str_ready W)
  then show "outputs (prompt W) ''holy> ''"
    by (simp add: prompt_def)
  show "outputs (puts_line W t) (t @ crlf)"
    unfolding puts_line_def write_line_def crlf_def by (intro outputs_on_con write_str_twice W)
  show "outputs (puts_hex W v) (''0x'' @ hex_bytes v)"
    unfolding puts_hex_def write_hex_u32_def by (intro outputs_on_con write_str_twice W)
  show "outputs (puts_dec W v) (digits10 (unat v))"
    unfolding puts_dec_def by (intro outputs_on_con write_dec_ready W)
  show "outputs (on_con (\<lambda>c. put_byte (w_arch W) (w_uart_sr W) c b)) [b]"
    by (intro outputs_on_con put_byte_ready W)
qed

definition value_text :: "u32 \<Rightarrow> string" where
  "value_text v = ''0x'' @ hex_bytes v @ '' ('' @ digits10 (unat v) @ '')'' @ crlf"

lemma write_value_outputs [exact_output]: "console_ready W \<Longrightarrow> outputs (write_value W v) (value_text v)"
  using outputs_seq console_outputs [of W]
  unfolding write_value_def value_text_def by (metis append.assoc append_Nil2)

section \<open>Replies\<close>

fun reply :: "calc_line \<Rightarrow> ParseError + u32 \<Rightarrow> string" where
  "reply l (Inl e) = ''ERR '' @ error_text e"
| "reply (Bind x t ops) (Inr v) = x @ '' = '' @ value_text v"
| "reply (Eval t ops) (Inr v) = ''= '' @ value_text v"

text \<open>The program of a value, as Thumb code.\<close>

lemma value_program_run:
  assumes "good_words (w_word W)" "w_arch W = Arm"
  shows "program_run W (value_program (w_word W) v) vm = Some (Some v, vm_reset vm)"
proof -
  have "compile_and_run arm_target (w_word W) ([w_word W lit_prim, v, w_word W halt_prim] @ replicate 125 0) 3 True s = Inr (Some v, snd s)" for s
    using arm.chain_native [OF assms(1), of "[]" v "replicate 125 0" s]
    by (simp add: chain_def chain_tail_def arith_ops_def chain_value_def code_words_def numeral_3_eq_3)
  then have "run_native W (value_program (w_word W) v) m = Inr (Some v, m)" for m
    using assms(2) by (simp add: run_native_def value_program_def)
  then show ?thesis
    by (simp add: program_run_def value_program_def)
qed

lemma exec_value:
  assumes "console_ready W" "good_words (w_word W)" "w_arch W = Arm"
  shows "\<exists>c vm. exec_run W (value_program (w_word W) v) s = Some (s\<lparr>s_vm := vm, s_con := c\<rparr>)
    \<and> c_out c = c_out (s_con s) @ ''= '' @ value_text v"
proof -
  let ?vm = "vm_reset ((s_vm s)\<lparr>vm_mem := s_mem s\<rparr>)"
  have s1: "set_mem (vm_mem ?vm) (s\<lparr>s_vm := ?vm\<rparr>) = s\<lparr>s_vm := ?vm\<rparr>"
    by (simp add: set_mem_def s_mem_def vm_reset_def)
  have "outputs (seq [puts W ''= '', write_value W v]) (''= '' @ value_text v @ [])"
    by (intro exact_output assms(1))
  from outputsD [OF this, of "s\<lparr>s_vm := ?vm\<rparr>"]
  obtain c where "seq [puts W ''= '', write_value W v] (s\<lparr>s_vm := ?vm\<rparr>) = Some (s\<lparr>s_vm := ?vm, s_con := c\<rparr>)"
      "c_out c = c_out (s_con s) @ ''= '' @ value_text v"
    by (auto simp del: seq.simps)
  then show ?thesis
    unfolding exec_run_def value_program_run [OF assms(2,3)] by (auto simp: Let_def s1 simp del: seq.simps)
qed

text \<open>The printing turn, for the outcome of a line.\<close>

definition respond :: "'f World \<Rightarrow> (ParseError + Outcome) option \<Rightarrow> 'f System \<Rightarrow> 'f System option" where
  "respond W r s =
    (case r of
       Some (Inr outcome) \<Rightarrow> execute W outcome s
     | Some (Inl err) \<Rightarrow> seq [puts W ''ERR '', puts W (error_text err)] s
     | None \<Rightarrow> Some s)"

lemma respond_reply:
  assumes W: "console_ready W" "good_words (w_word W)" "w_arch W = Arm" and out: "line_outcome (w_word W) l y r"
  shows "\<exists>c vm. respond W (Some r) s = Some (s\<lparr>s_vm := vm, s_con := c\<rparr>) \<and> c_out c = c_out (s_con s) @ reply l y"
proof -
  have keep: "\<exists>c vm. a s = Some (s\<lparr>s_vm := vm, s_con := c\<rparr>) \<and> c_out c = c_out (s_con s) @ t" if o: "outputs a t" for a t
  proof -
    obtain c where "a s = Some (s\<lparr>s_con := c\<rparr>)" "c_out c = c_out (s_con s) @ t"
      using outputsD [OF o, of s] by blast
    moreover have "s\<lparr>s_con := c\<rparr> = s\<lparr>s_vm := s_vm s, s_con := c\<rparr>"
      by simp
    ultimately show ?thesis by metis
  qed
  show ?thesis
  proof (cases y)
    case (Inl e)
    have "outputs (seq [puts W ''ERR '', puts W (error_text e)]) (''ERR '' @ error_text e @ [])"
      by (intro exact_output W(1))
    from keep [OF this] show ?thesis
      using out Inl by (simp add: line_outcome_def respond_def del: seq.simps)
  next
    case (Inr v)
    show ?thesis
    proof (cases l)
      case (Eval t ops)
      then show ?thesis
        using exec_value [OF W, of v s] out Inr by (simp add: line_outcome_def respond_def)
    next
      case (Bind x t ops)
      then obtain nb where nb: "r = Inr (Bound nb v)" "as_slice nb = x"
        using out Inr by (auto simp: line_outcome_def)
      have "outputs (seq [puts W x, puts W '' = '', write_value W v]) (x @ '' = '' @ value_text v @ [])"
        by (intro exact_output W(1))
      from keep [OF this] show ?thesis
        using nb Bind Inr by (simp add: respond_def del: seq.simps)
    qed
  qed
qed

section \<open>Typing a line\<close>

abbreviation printable :: "char \<Rightarrow> bool" where
  "printable b \<equiv> in_range (CHR 0x20) (CHR 0x7E) b"

lemma ident_printable: "ident_char b \<Longrightarrow> printable b"
  by (auto simp: ident_char_def is_ascii_alphanumeric_def is_ascii_alphabetic_def is_ascii_digit_def in_range_def)

lemma printed_printable:
  "wf_trm t \<Longrightarrow> list_all printable (show_trm t)"
  "wf_ops ops \<Longrightarrow> list_all printable (show_ops ops)"
proof (induction t and ops rule: trm_ops_induct)
  case (Num n)
  then show ?case
    using digits10_digits [of "unat n"] by (auto simp: list_all_iff is_ascii_digit_def in_range_def)
next
  case (Var x)
  then show ?case
    using ident_printable by (auto simp: name_ok_def list_all_iff)
qed (auto simp: in_range_def)

lemma line_printable: "line_ok l \<Longrightarrow> list_all printable (show_line l)"
proof (cases l)
  case (Bind x t ops)
  moreover assume "line_ok l"
  ultimately show ?thesis
    using printed_printable(1) [of t] printed_printable(2) [of ops] ident_printable
    by (auto simp: name_ok_def list_all_iff) (simp_all add: in_range_def)
next
  case (Eval t ops)
  moreover assume "line_ok l"
  ultimately show ?thesis
    using printed_printable(1) [of t] printed_printable(2) [of ops] by (simp add: in_range_def)
qed

text \<open>A printable character within the line is echoed, and the line end answered by a new line.\<close>

lemma feed_echo:
  assumes "console_ready W" "line_inv s" "printable b" "length (line_of s) < LINE_MAX"
  shows "\<exists>s'. feed W b s = Some (Reading, s') \<and> line_inv s' \<and> line_of s' = line_of s @ [b] \<and> same_but_line s s'
    \<and> c_out (s_con s') = c_out (s_con s) @ [b]"
proof -
  let ?s = "s\<lparr>s_line_buf := (s_line_buf s)[s_line_len s := b], s_line_len := s_line_len s + 1\<rparr>"
  have b: "b \<notin> {CHR 0x09, CHR 0x0D, CHR 0x0A, CHR 0x08, CHR 0x7F, CHR 0x15, CHR 0x03}"
    using assms(3) by (auto simp: in_range_def)
  have len: "s_line_len s < LINE_MAX" "length (s_line_buf s) = LINE_MAX"
    using assms(2,4) by (auto simp: line_inv_def line_of_def)
  obtain c where c: "on_con (\<lambda>c. put_byte (w_arch W) (w_uart_sr W) c b) ?s = Some (?s\<lparr>s_con := c\<rparr>)" "c_out c = c_out (s_con s) @ [b]"
    using outputsD [OF console_outputs(6) [OF assms(1)], of b ?s] by auto
  have "feed W b s = Some (Reading, ?s\<lparr>s_con := c\<rparr>)"
    using b len(1) assms(3) c(1) by (simp add: feed_def Let_def)
  then show ?thesis
    using len c(2) by (auto simp: line_inv_def line_of_def take_Suc_conv_app_nth)
qed

lemma feed_newline:
  assumes "console_ready W" "newline b"
  shows "\<exists>c. feed W b s = Some (Evaluating, s\<lparr>s_con := c\<rparr>) \<and> c_out c = c_out (s_con s) @ crlf"
proof -
  obtain c where c: "puts W crlf s = Some (s\<lparr>s_con := c\<rparr>)" "c_out c = c_out (s_con s) @ crlf"
    using outputsD [OF console_outputs(1) [OF assms(1)], of crlf s] by blast
  have "feed W b s = map_option (Pair Evaluating) (puts W crlf s)"
    using assms(2) unfolding newline_def by (elim disjE) (simp_all add: feed_def)
  then show ?thesis
    using c by (intro exI [of _ c]) simp
qed

text \<open>The bytes that polls deliver; a poll may also find nothing.\<close>

definition polled :: "'f World \<Rightarrow> (u32 \<times> u32) list \<Rightarrow> string" where
  "polled W ks = List.map_filter (\<lambda>k. poll_get_byte (w_arch W) (fst k) (snd k)) ks"

lemma polled_simps [simp]:
  "polled W [] = []"
  "polled W (k # ks) = (case poll_get_byte (w_arch W) (fst k) (snd k) of None \<Rightarrow> polled W ks | Some b \<Rightarrow> b # polled W ks)"
  by (simp_all add: polled_def map_filter_simps split: option.split)

lemma typing_turns:
  assumes W: "console_ready W"
  shows "l_state l \<in> {Idle, Reading} \<Longrightarrow> line_inv (l_sys l) \<Longrightarrow> list_all printable (polled W ks)
    \<Longrightarrow> length (line_of (l_sys l) @ polled W ks) \<le> LINE_MAX
    \<Longrightarrow> \<exists>l'. seq (map (repl_step W) ks) l = Some l' \<and> l_state l' \<in> {Idle, Reading} \<and> line_inv (l_sys l')
      \<and> line_of (l_sys l') = line_of (l_sys l) @ polled W ks \<and> same_but_line (l_sys l) (l_sys l')
      \<and> c_out (s_con (l_sys l')) = c_out (s_con (l_sys l)) @ polled W ks"
proof (induction ks arbitrary: l)
  case (Cons k ks)
  show ?case
  proof (cases "poll_get_byte (w_arch W) (fst k) (snd k)")
    case None
    then have "repl_step W k l = Some (l\<lparr>l_state := Reading\<rparr>)"
      using Cons.prems(1) by (auto simp: repl_step_def)
    then show ?thesis
      using Cons.IH [of "l\<lparr>l_state := Reading\<rparr>"] Cons.prems None by simp
  next
    case (Some b)
    obtain s' where s': "feed W b (l_sys l) = Some (Reading, s')" "line_inv s'" "line_of s' = line_of (l_sys l) @ [b]"
        "same_but_line (l_sys l) s'" "c_out (s_con s') = c_out (s_con (l_sys l)) @ [b]"
      using feed_echo [OF W Cons.prems(2), of b] Cons.prems(3,4) Some by auto
    let ?l = "l\<lparr>l_state := Reading, l_sys := s'\<rparr>"
    have "repl_step W k l = Some ?l"
      using Cons.prems(1) Some s'(1) by (auto simp: repl_step_def)
    moreover obtain l' where "seq (map (repl_step W) ks) ?l = Some l'" "l_state l' \<in> {Idle, Reading}" "line_inv (l_sys l')"
      "line_of (l_sys l') = line_of s' @ polled W ks" "same_but_line s' (l_sys l')" "c_out (s_con (l_sys l')) = c_out (s_con s') @ polled W ks"
      using Cons.IH [of ?l] Cons.prems(3,4) Some s'(2,3) by auto
    ultimately show ?thesis
      using Some s'(3,5) same_but_line_trans [OF s'(4)] by (intro exI [of _ l']) simp
  qed
qed simp

section \<open>Sessions\<close>

text \<open>The loop at its prompt, with the constants \<open>\<sigma>\<close>.\<close>

definition at_prompt :: "(string \<rightharpoonup> u32) \<Rightarrow> 'f Loop \<Rightarrow> bool" where
  "at_prompt \<sigma> l \<longleftrightarrow> l_state l = Idle \<and> line_inv (l_sys l) \<and> line_of (l_sys l) = []
    \<and> calc_inv (s_compiler (l_sys l)) \<and> lookup_symbol (symbols (s_compiler (l_sys l))) = \<sigma>"

definition same_effects :: "'f System \<Rightarrow> 'f System \<Rightarrow> bool" where
  "same_effects s s' \<longleftrightarrow> s_machine s' = s_machine s \<and> s_reg s' = s_reg s \<and> s_audit s' = s_audit s \<and> s_pool s' = s_pool s
    \<and> s_flash s' = s_flash s"

lemma seq_append: "seq (as @ bs) s = (case seq as s of None \<Rightarrow> None | Some s' \<Rightarrow> seq bs s')"
  by (induction "as" arbitrary: s) (auto split: option.split)

lemma show_line_nonempty: "show_line l \<noteq> []"
  by (cases l) simp_all

lemma evaluating_line:
  assumes l: "l_state l = Evaluating" "line_inv (l_sys l)" "line_of (l_sys l) = show_line ln"
    and c: "line_ok ln" "calc_inv (s_compiler (l_sys l))" "run_line (s_mem (l_sys l)) ln (lookup_symbol (symbols (s_compiler (l_sys l)))) = (y, \<sigma>')"
  shows "\<exists>r c'. repl_step W i l = Some (l\<lparr>l_state := Printing, l_pending := Some r, l_sys := (l_sys l)\<lparr>s_line_len := 0, s_compiler := c'\<rparr>\<rparr>)
    \<and> line_outcome (w_word W) ln y r \<and> calc_inv c' \<and> lookup_symbol (symbols c') = \<sigma>'"
proof -
  let ?s = "(l_sys l)\<lparr>s_line_len := 0\<rparr>"
  have take_line: "take_line (l_sys l) = (show_line ln, ?s)"
    using l(3) by (simp add: take_line_def line_of_def)
  have env: "env_mem (env_of W ?s) = s_mem (l_sys l)" "env_word (env_of W ?s) = w_word W"
    by (simp_all add: env_of_def s_mem_def)
  obtain r c' where "parse (env_of W ?s) (show_line ln) (s_compiler (l_sys l)) = Some (r, c')"
      "line_outcome (w_word W) ln y r" "lookup_symbol (symbols c') = \<sigma>'" "calc_inv c'"
    using parse_printed_line [OF c(1,2), of "env_of W ?s" y \<sigma>'] c(3) env by auto
  then show ?thesis
    using l(1) take_line show_line_nonempty by (auto simp: repl_step_def compile_def)
qed

lemma printing_line:
  assumes W: "console_ready W" "good_words (w_word W)" "w_arch W = Arm"
    and l: "l_state l = Printing" "l_pending l = Some r" "line_outcome (w_word W) ln y r"
  shows "\<exists>c vm. repl_step W i l = Some (l\<lparr>l_state := Idle, l_pending := None, l_sys := (l_sys l)\<lparr>s_vm := vm, s_con := c\<rparr>\<rparr>)
    \<and> c_out c = c_out (s_con (l_sys l)) @ reply ln y @ ''holy> ''"
proof -
  obtain c vm where c: "respond W (Some r) (l_sys l) = Some ((l_sys l)\<lparr>s_vm := vm, s_con := c\<rparr>)" "c_out c = c_out (s_con (l_sys l)) @ reply ln y"
    using respond_reply [OF W l(3), of "l_sys l"] by blast
  let ?s = "(l_sys l)\<lparr>s_vm := vm, s_con := c\<rparr>"
  obtain c' where c': "prompt W ?s = Some (?s\<lparr>s_con := c'\<rparr>)" "c_out c' = c_out c @ ''holy> ''"
    using outputsD [OF console_outputs(5) [OF W(1)], of ?s] by auto
  have "repl_step W i l = Some (l\<lparr>l_state := Idle, l_pending := None, l_sys := ?s\<lparr>s_con := c'\<rparr>\<rparr>)"
    using l(1,2) c(1) c'(1) by (simp add: repl_step_def respond_def del: seq.simps)
  then show ?thesis
    using c(2) c'(2) by (intro exI [of _ c'] exI [of _ vm]) simp
qed

lemma line_turns:
  assumes W: "console_ready W" "good_words (w_word W)" "w_arch W = Arm" and l: "at_prompt \<sigma> l"
    and ln: "line_ok ln" "length (show_line ln) \<le> LINE_MAX" "run_line (s_mem (l_sys l)) ln \<sigma> = (y, \<sigma>')"
    and ks: "polled W ks = show_line ln" "poll_get_byte (w_arch W) (fst k) (snd k) = Some b" "newline b"
  shows "\<exists>l'. seq (map (repl_step W) (ks @ [k, i, j])) l = Some l' \<and> at_prompt \<sigma>' l' \<and> same_effects (l_sys l) (l_sys l')
    \<and> c_out (s_con (l_sys l')) = c_out (s_con (l_sys l)) @ show_line ln @ crlf @ reply ln y @ ''holy> ''"
proof -
  obtain l1 where l1: "seq (map (repl_step W) ks) l = Some l1" "l_state l1 \<in> {Idle, Reading}" "line_inv (l_sys l1)"
      "line_of (l_sys l1) = show_line ln" "same_but_line (l_sys l) (l_sys l1)" "c_out (s_con (l_sys l1)) = c_out (s_con (l_sys l)) @ show_line ln"
    using typing_turns [OF W(1), of l ks] l ln(2) line_printable [OF ln(1)] unfolding ks(1) at_prompt_def by auto
  obtain c2 where c2: "feed W b (l_sys l1) = Some (Evaluating, (l_sys l1)\<lparr>s_con := c2\<rparr>)" "c_out c2 = c_out (s_con (l_sys l1)) @ crlf"
    using feed_newline [OF W(1) ks(3)] by blast
  let ?l2 = "l1\<lparr>l_state := Evaluating, l_sys := (l_sys l1)\<lparr>s_con := c2\<rparr>\<rparr>"
  have step2: "repl_step W k l1 = Some ?l2"
    using l1(2) ks(2) c2(1) by (auto simp: repl_step_def)
  have same: "s_compiler (l_sys l1) = s_compiler (l_sys l)" "s_machine (l_sys l1) = s_machine (l_sys l)"
    using same_but_lineD [OF l1(5)] by simp_all
  obtain r c3 where l3: "repl_step W i ?l2 = Some (?l2\<lparr>l_state := Printing, l_pending := Some r, l_sys := (l_sys ?l2)\<lparr>s_line_len := 0, s_compiler := c3\<rparr>\<rparr>)"
      "line_outcome (w_word W) ln y r" "calc_inv c3" "lookup_symbol (symbols c3) = \<sigma>'"
    using evaluating_line [of ?l2 ln y \<sigma>' W i] l1(3,4) l ln same
    by (auto simp: at_prompt_def line_inv_def line_of_def s_mem_def)
  let ?l3 = "?l2\<lparr>l_state := Printing, l_pending := Some r, l_sys := (l_sys ?l2)\<lparr>s_line_len := 0, s_compiler := c3\<rparr>\<rparr>"
  obtain c4 vm where l4: "repl_step W j ?l3 = Some (?l3\<lparr>l_state := Idle, l_pending := None, l_sys := (l_sys ?l3)\<lparr>s_vm := vm, s_con := c4\<rparr>\<rparr>)"
      "c_out c4 = c_out (s_con (l_sys ?l3)) @ reply ln y @ ''holy> ''"
    using printing_line [OF W, of ?l3 r ln y j] l3(2) by auto
  let ?l4 = "?l3\<lparr>l_state := Idle, l_pending := None, l_sys := (l_sys ?l3)\<lparr>s_vm := vm, s_con := c4\<rparr>\<rparr>"
  have "seq (map (repl_step W) (ks @ [k, i, j])) l = Some ?l4"
    using l1(1) step2 l3(1) l4(1) by (simp add: seq_append)
  moreover have "at_prompt \<sigma>' ?l4"
    using l1(3) l3(3,4) by (simp add: at_prompt_def line_inv_def line_of_def)
  moreover have "same_effects (l_sys l) (l_sys ?l4)"
    using same_but_lineD [OF l1(5)] by (simp add: same_effects_def)
  ultimately show ?thesis
    using l4(2) c2(2) l1(6) by (intro exI [of _ ?l4]) simp
qed

text \<open>What the user sees, and the constants at the end.\<close>

fun transcript :: "mem \<Rightarrow> (string \<rightharpoonup> u32) \<Rightarrow> calc_line list \<Rightarrow> string" where
  "transcript m \<sigma> [] = []"
| "transcript m \<sigma> (l # ls) =
    (let (y, \<sigma>') = run_line m l \<sigma> in show_line l @ crlf @ reply l y @ ''holy> '' @ transcript m \<sigma>' ls)"

fun constants :: "mem \<Rightarrow> (string \<rightharpoonup> u32) \<Rightarrow> calc_line list \<Rightarrow> (string \<rightharpoonup> u32)" where
  "constants m \<sigma> [] = \<sigma>"
| "constants m \<sigma> (l # ls) = constants m (snd (run_line m l \<sigma>)) ls"

text \<open>The user types the lines: polls deliver the bytes of a line, in between they may find nothing, then a line end; two more turns
  evaluate and print, whatever the receiver holds.\<close>

fun typed :: "'f World \<Rightarrow> (u32 \<times> u32) list \<Rightarrow> calc_line list \<Rightarrow> bool" where
  "typed W inps [] \<longleftrightarrow> inps = []"
| "typed W inps (l # ls) \<longleftrightarrow>
    (\<exists>ks k b i j rest. inps = ks @ k # i # j # rest \<and> polled W ks = show_line l
      \<and> poll_get_byte (w_arch W) (fst k) (snd k) = Some b \<and> newline b \<and> typed W rest ls)"

lemma session_turns:
  assumes W: "console_ready W" "good_words (w_word W)" "w_arch W = Arm"
  shows "at_prompt \<sigma> l \<Longrightarrow> typed W inps lns \<Longrightarrow> list_all (\<lambda>ln. line_ok ln \<and> length (show_line ln) \<le> LINE_MAX) lns
    \<Longrightarrow> \<exists>l'. seq (map (repl_step W) inps) l = Some l' \<and> at_prompt (constants (s_mem (l_sys l)) \<sigma> lns) l' \<and> same_effects (l_sys l) (l_sys l')
      \<and> c_out (s_con (l_sys l')) = c_out (s_con (l_sys l)) @ transcript (s_mem (l_sys l)) \<sigma> lns"
proof (induction lns arbitrary: \<sigma> l inps)
  case Nil
  then show ?case
    by (simp add: same_effects_def)
next
  case (Cons ln lns)
  obtain ks k b i j rest where inps: "inps = (ks @ [k, i, j]) @ rest" "polled W ks = show_line ln"
      "poll_get_byte (w_arch W) (fst k) (snd k) = Some b" "newline b" "typed W rest lns"
    using Cons.prems(2) by auto
  obtain y \<sigma>' where run: "run_line (s_mem (l_sys l)) ln \<sigma> = (y, \<sigma>')"
    by (cases "run_line (s_mem (l_sys l)) ln \<sigma>")
  obtain l1 where l1: "seq (map (repl_step W) (ks @ [k, i, j])) l = Some l1" "at_prompt \<sigma>' l1" "same_effects (l_sys l) (l_sys l1)"
      "c_out (s_con (l_sys l1)) = c_out (s_con (l_sys l)) @ show_line ln @ crlf @ reply ln y @ ''holy> ''"
    using line_turns [OF W Cons.prems(1) _ _ run inps(2-4), of i j] Cons.prems(3) by auto
  have mem: "s_mem (l_sys l1) = s_mem (l_sys l)"
    using l1(3) by (simp add: same_effects_def s_mem_def)
  obtain l' where l': "seq (map (repl_step W) rest) l1 = Some l'" "at_prompt (constants (s_mem (l_sys l)) \<sigma>' lns) l'"
      "same_effects (l_sys l1) (l_sys l')" "c_out (s_con (l_sys l')) = c_out (s_con (l_sys l1)) @ transcript (s_mem (l_sys l)) \<sigma>' lns"
    using Cons.IH [OF l1(2) inps(5)] Cons.prems(3) mem by auto
  have "seq (map (repl_step W) inps) l = Some l'"
    using seq_append [of "map (repl_step W) (ks @ [k, i, j])" "map (repl_step W) rest" l] l1(1) l'(1)
    unfolding inps(1) by (simp only: map_append option.case)
  then show ?case
    using l'(2-4) l1(3,4) run by (auto simp: same_effects_def)
qed

text \<open>Lines whose value does not depend on the memory, because no term is a \<open>peek\<close>.\<close>

fun memory_free :: "trm \<Rightarrow> bool" where
  "memory_free (Num n) = True"
| "memory_free (Var x) = True"
| "memory_free (Peek t) = False"
| "memory_free (Par t ops) = (memory_free t \<and> list_all (\<lambda>(c, u). memory_free u) ops)"

fun calculation :: "calc_line \<Rightarrow> bool" where
  "calculation (Bind x t ops) = memory_free (Par t ops)"
| "calculation (Eval t ops) = memory_free (Par t ops)"

lemma value_memory_free:
  "memory_free t \<Longrightarrow> value_trm \<sigma> m t = value_trm \<sigma> m' t"
  "list_all (\<lambda>(c, u). memory_free u) ops \<Longrightarrow> value_ops \<sigma> m v ops = value_ops \<sigma> m' v ops"
proof (induction t and ops arbitrary: and v rule: trm_ops_induct)
  case (Par t ops)
  then show ?case
    by (simp split: sum.split)
next
  case (Cons c u ops)
  then show ?case
    by (simp split: sum.split)
qed simp_all

lemma run_line_calculation: "calculation l \<Longrightarrow> run_line m l \<sigma> = run_line m' l \<sigma>"
  using value_memory_free(1) [of _ \<sigma> m m'] by (cases l) (simp_all only: run_line.simps calculation.simps)

lemma transcript_calculation:
  "list_all calculation lns \<Longrightarrow> transcript m \<sigma> lns = transcript m' \<sigma> lns \<and> constants m \<sigma> lns = constants m' \<sigma> lns"
proof (induction lns arbitrary: \<sigma>)
  case (Cons l lns)
  then show ?case
    using run_line_calculation [of l m \<sigma> m'] by (simp split: prod.split)
qed simp

text \<open>C3. The machine is a calculator, end to end (ARM). From power-up on, let the user type any lines of the expression language without \<open>peek\<close> terms, with any pauses, each at most
  128 characters long: evaluations \<open>E;\<close> and bindings \<open>let x = E;\<close>. Then \<open>Reset\<close> runs, and the bytes that appear on the console are exactly the banner,
  the prompt, and for each line its echo, a new line, the reply and the prompt again; where the reply is defined on the syntax tree alone and does not depend on the contents of memory (\<open>m'\<close>):
  the value in 32-bit arithmetic, in hexadecimal and decimal, with the name in front for a binding, or the message of its error. Later lines see the bindings of
  earlier ones. No line has any other effect: memory apart from the statics of the kernel, tasks, capabilities, audit log, pools and flash are as they were when the loop began.\<close>

theorem calculator_session:
  assumes W: "console_ready W" "w_arch W = Arm" "good_words (w_word W)" and L: "sections_ok L" and r: "registry_inv r"
    and lns: "typed W (drain W inps) lns" "list_all (\<lambda>ln. line_ok ln \<and> calculation ln \<and> length (show_line ln) \<le> 128) lns"
  shows "\<exists>l0 l. Reset W L r f regs sp [] m = Some (l0, None) \<and> Reset W L r f regs sp inps m = Some (l, None) \<and> l_state l = Idle
    \<and> c_out (s_con (l_sys l)) = BANNER @ ''holy> '' @ transcript m' Map.empty lns
    \<and> lookup_symbol (symbols (s_compiler (l_sys l))) = constants m' Map.empty lns
    \<and> same_effects (l_sys l0) (l_sys l)"
proof -
  have ok: "list_all (\<lambda>ln. line_ok ln \<and> length (show_line ln) \<le> LINE_MAX) lns" "list_all calculation lns"
    using lns(2) by (simp_all add: list_all_iff LINE_MAX_def)
  obtain s0 where s0: "\<And>inps. Reset W L r f regs sp inps m
      = map_option (\<lambda>l. (l, None)) (seq (map (repl_step W) (drain W inps)) \<lparr>l_state = Idle, l_pending = None, l_sys = s0\<rparr>)"
    "c_out (s_con s0) = BANNER @ ''holy> ''" "sys_wf s0" "s_compiler s0 = compiler_new" "s_line_len s0 = 0"
    using reset_reaches_loop [OF W(1,2) L r] by metis
  let ?l0 = "\<lparr>l_state = Idle, l_pending = None, l_sys = s0\<rparr>"
  have "at_prompt Map.empty ?l0"
    using s0(3-5) calc_inv_new by (simp add: at_prompt_def line_of_def sys_wf_def)
  then obtain l where "seq (map (repl_step W) (drain W inps)) ?l0 = Some l" "at_prompt (constants (s_mem s0) Map.empty lns) l"
      "same_effects s0 (l_sys l)" "c_out (s_con (l_sys l)) = BANNER @ ''holy> '' @ transcript (s_mem s0) Map.empty lns"
    using session_turns [OF W(1,3,2) _ lns(1) ok(1), of Map.empty ?l0] s0(2) by auto
  then show ?thesis
    using s0(1) [of "[]"] s0(1) [of inps] transcript_calculation [OF ok(2), of "s_mem s0" Map.empty m']
    by (intro exI [of _ ?l0] exI [of _ l]) (simp add: at_prompt_def)
qed

text \<open>A session of three lines: a binding, its use, and a division by zero.\<close>

definition type_in :: "calc_line list \<Rightarrow> (u32 \<times> u32) list" where
  "type_in lns = concat (map (\<lambda>l. map (\<lambda>b. (0x20, of_char b)) (show_line l) @ [(0x20, 13), (0, 0), (0, 0)]) lns)"

lemma polled_type_in: "polled demo_world (map (\<lambda>b. (0x20, of_char b)) t) = t"
proof (induction t)
  case (Cons b t)
  have "(of_char b :: u32) AND 0xFF = take_bit 8 (of_char b)"
    by (simp add: take_bit_eq_mask mask_eq_exp_minus_1)
  then have "unat ((of_char b :: u32) AND 0xFF) = take_bit 8 (unat (of_char b :: u32))"
    by (simp add: unsigned_take_bit_eq)
  also have "unat (of_char b :: u32) = of_char b"
    using unat_char_minus [of 0 b] by simp
  also have "take_bit 8 (of_char b :: nat) = of_char b"
    using of_char_less [of b] by (simp add: take_bit_nat_eq_self)
  finally have "unat ((of_char b :: u32) AND 0xFF) = of_char b" .
  then show ?case
    using Cons by (simp add: demo_world_def poll_get_byte_def SR_RXNE_def)
qed simp

lemma typed_type_in: "typed demo_world (type_in lns) lns"
proof (induction lns)
  case (Cons l lns)
  have "poll_get_byte (w_arch demo_world) 0x20 13 = Some (CHR 0x0D)"
    by code_simp
  moreover have "type_in (l # lns) = map (\<lambda>b. (0x20, of_char b)) (show_line l) @ (0x20, 13) # (0, 0) # (0, 0) # type_in lns"
    by (simp add: type_in_def)
  ultimately show ?case
    using Cons polled_type_in [of "show_line l"] unfolding typed.simps newline_def by fastforce
qed (simp add: type_in_def)

definition demo_lines :: "calc_line list" where
  "demo_lines = [Bind ''x'' (Num 7) [], Eval (Var ''x'') [(CHR ''*'', Num 6)], Eval (Num 1) [(CHR ''/'', Num 0)]]"

lemma demo_lines_ok: "list_all (\<lambda>ln. line_ok ln \<and> calculation ln \<and> length (show_line ln) \<le> 128) demo_lines"
  by (simp add: demo_lines_def name_ok_def command_words_def ident_start_def ident_char_def is_ascii_alphanumeric_def is_ascii_alphabetic_def
      in_range_def LINE_MAX_def digits10.simps)

lemma demo_transcript:
  "transcript m Map.empty demo_lines =
    ''let x = 7;'' @ crlf @ ''x = 0x00000007 (7)'' @ crlf @ ''holy> x*6;'' @ crlf @ ''= 0x0000002A (42)'' @ crlf
    @ ''holy> 1/0;'' @ crlf @ ''ERR DIV BY ZERO'' @ lf @ ''holy> ''"
proof -
  have texts: "value_text 7 = ''0x00000007 (7)'' @ crlf" "value_text 42 = ''0x0000002A (42)'' @ crlf"
    "show_line (Bind ''x'' (Num 7) []) = ''let x = 7;''" "show_line (Eval (Var ''x'') [(CHR ''*'', Num 6)]) = ''x*6;''"
    "show_line (Eval (Num 1) [(CHR ''/'', Num 0)]) = ''1/0;''"
    by code_simp+
  show ?thesis
    by (simp add: demo_lines_def texts arith_def del: show_line.simps)
qed

theorem calculator_session_witness:
  "\<exists>l. Reset demo_world demo_link (replicate 8 0) () (\<lambda>k. 0) 0 ((0, 0) # type_in demo_lines) (\<lambda>a. 0) = Some (l, None)
    \<and> c_out (s_con (l_sys l)) = BANNER @ ''holy> '' @ ''let x = 7;'' @ crlf @ ''x = 0x00000007 (7)'' @ crlf @ ''holy> x*6;'' @ crlf
        @ ''= 0x0000002A (42)'' @ crlf @ ''holy> 1/0;'' @ crlf @ ''ERR DIV BY ZERO'' @ lf @ ''holy> ''"
proof -
  have r: "registry_inv (replicate 8 0)"
    by (simp add: registry_inv_def WORDS_def)
  have "poll_get_byte (w_arch demo_world) 0 0 = None"
    by code_simp
  then have "drain demo_world ((0, 0) # type_in demo_lines) = type_in demo_lines"
    by simp
  then have "typed demo_world (drain demo_world ((0, 0) # type_in demo_lines)) demo_lines"
    using typed_type_in by simp
  from calculator_session [OF demo_ready(1-3) demo_sections r this demo_lines_ok, of "()" "\<lambda>k. 0" 0 "\<lambda>a. 0"]
  show ?thesis
    unfolding demo_transcript by blast
qed

end
