(* ===== verification/Isolation.thy ===== *)
theory Isolation
  imports Calculator
begin

text \<open>
  What the capability registry achieves over whole sessions, and where it ends. A session that writes to no RAM and runs no function body
  leaves the registers of a peripheral other than the console alone until its capability or the superuser's is claimed. But the registry itself lies in
  RAM (\<^verbatim>\<open>memory.x\<close>, \<^verbatim>\<open>memory-riscv.x\<close>, section \<^verbatim>\<open>.capability_registry\<close>), and every line may write RAM: one \<open>poke\<close> makes the superuser.
  In the record \<open>System\<close> the registry is a component of its own; \<open>registry_at\<close> reads it from memory, where the linker has placed it.
\<close>

section \<open>The poke command\<close>

definition show_poke :: "u32 \<Rightarrow> u32 \<Rightarrow> string" where
  "show_poke a v = ''poke '' @ digits10 (unat a) @ '' '' @ digits10 (unat v) @ '';''"

lemma reads_poke: "reads (cur_new (show_poke a v)) [Identifier ''poke'', Literal a, Literal v, Semicolon]"
proof (rule reads_new)
  fix lx assume lx: "lx_rest lx = show_poke a v"
  have last: "\<exists>lx'. lexes lx1 [Literal v, Semicolon] lx' \<and> lx_rest lx' = []" if "lx_rest lx1 = digits10 (unat v) @ '';''" for lx1
    using lexes_expression [of "Num v" "[]" lx1] that by simp
  have mid: "\<exists>lx'. lexes lx1 ([Literal a] @ [Literal v, Semicolon]) lx' \<and> lx_rest lx' = []"
    if "lx_rest lx1 = digits10 (unat a) @ CHR '' '' # digits10 (unat v) @ '';''" for lx1
  proof (rule lexes_then)
    show "\<exists>lx2. lexes lx1 [Literal a] lx2 \<and> lx_rest lx2 = CHR '' '' # digits10 (unat v) @ '';''"
      using lexes_printed(1) [of "Num a" "CHR '' '' # digits10 (unat v) @ '';''" lx1] that by simp
    show "\<exists>lx'. lexes lx2 [Literal v, Semicolon] lx' \<and> lx_rest lx' = []" if "lx_rest lx2 = CHR '' '' # digits10 (unat v) @ '';''" for lx2
      by (rule lexes_skip [OF that _ last]) simp_all
  qed
  have "next_token lx = (Identifier ''poke'', lx_advance 4 lx)"
      "lx_rest (lx_advance 4 lx) = CHR '' '' # digits10 (unat a) @ CHR '' '' # digits10 (unat v) @ '';''"
    using next_token_name [of lx "''poke''" "CHR '' '' # digits10 (unat a) @ CHR '' '' # digits10 (unat v) @ '';''"] lx
    by (simp_all add: show_poke_def name_ok_def ident_start_def ident_char_def is_ascii_alphanumeric_def is_ascii_alphabetic_def in_range_def)
  moreover have "\<exists>lx'. lexes (lx_advance 4 lx) ([Literal a] @ [Literal v, Semicolon]) lx' \<and> lx_rest lx' = []"
    by (rule lexes_skip [OF calculation(2) _ mid]) simp_all
  ultimately show "\<exists>lx'. lexes lx [Identifier ''poke'', Literal a, Literal v, Semicolon] lx' \<and> lx_rest lx' = []"
    by simp
qed

lemma parse_poke:
  "parse env (show_poke a v) c = Some (case check_cap env a of Inl e \<Rightarrow> Inl e | Inr _ \<Rightarrow> Inr (EnforcedPoke a v), c)"
proof -
  let ?n = "parse_fuel (show_poke a v)"
  have n: "10 \<le> ?n"
    by (simp add: parse_fuel_def)
  obtain cur where cur: "cur_next (cur_new (show_poke a v)) = (Identifier ''poke'', cur)" "reads cur [Literal a, Literal v, Semicolon]"
    using reads_next [OF reads_poke] by blast
  obtain cur1 where cur1: "cur_next cur = (Literal a, cur1)" "reads cur1 [Literal v, Semicolon]"
    using reads_next [OF cur(2)] by blast
  have "delivers [Literal v, Semicolon] (Inr a) (eval_operand ?n env (symbols c) (Literal a) cur1)"
    using printed_delivers(1) [of "Num a" ?n cur1 "[Literal v, Semicolon]" "symbols c" env] cur1(2) n by simp
  then obtain cur2 where cur2: "eval_operand ?n env (symbols c) (Literal a) cur1 = Some (Inr (a, cur2))" "reads cur2 [Literal v, Semicolon]"
    by (auto simp: delivers_def)
  have "delivers [Semicolon] (Inr v) (eval_expr ?n env (symbols c) None cur2)"
    using printed_expression(1) [of "Num v" "[]" ?n Semicolon cur2 "[]" "symbols c" env] cur2(2) n by (simp add: arith_op_def)
  then obtain cur3 cur4 where cur3: "eval_expr ?n env (symbols c) None cur2 = Some (Inr (v, cur3))" "expect_semicolon cur3 = Some (Inr cur4)"
    using expect_semicolon_reads by (fastforce simp: delivers_def)
  have "parse env (show_poke a v) c = command_poke ?n env cur c"
    using cur(1) by (simp add: parse_def parse_line_def parse_command_def)
  also have "\<dots> = Some (case check_cap env a of Inl e \<Rightarrow> Inl e | Inr _ \<Rightarrow> Inr (EnforcedPoke a v), c)"
    using cur1(1) cur2(1) cur3 by (simp add: command_poke_def parse_atomic_term_def sbind_def pure_def split: sum.split)
  finally show ?thesis .
qed

section \<open>The registry is in reach\<close>

definition registry_at :: "mem \<Rightarrow> u32 \<Rightarrow> registry" where
  "registry_at m b = map (\<lambda>i. peek_u32 m (b + 4 * of_nat i)) [0..<WORDS]"

definition REGISTRY_BASE :: "arch \<Rightarrow> u32" where
  "REGISTRY_BASE a = (case a of Arm \<Rightarrow> 0x20001000 | Riscv32 \<Rightarrow> 0x80001800 | Host \<Rightarrow> 0)"

lemma superuser_word: "is_superuser_active (registry_at (poke_u32 m b 0x80000000) b)"
proof -
  have "arr_get (registry_at (poke_u32 m b 0x80000000) b) 0 = Some 0x80000000"
    by (simp add: registry_at_def WORDS_def arr_get_def upt_rec)
  then show ?thesis
    by (simp add: is_superuser_active_def available_def shl1_def)
qed

lemma exec_poke_granted:
  assumes "console_ready W" "check_access (w_arch W) (s_reg s) a = Inr ()"
  shows "\<exists>s'. exec_poke W a v s = Some s' \<and> s_mem s' = poke_u32 (s_mem s) a v"
proof -
  obtain log where e: "enforced_poke_u32 (w_arch W) (s_reg s) (w_cycles W (al_count (s_audit s))) (s_audit s) (s_mem s) a v
      = (Inr (), log, poke_u32 (s_mem s) a v)"
    using assms(2) by (cases "is_superuser_active (s_reg s)") (auto simp: enforced_poke_u32_def check_access_def split: option.splits if_splits)
  let ?s = "set_mem (poke_u32 (s_mem s) a v) (s\<lparr>s_audit := log\<rparr>)"
  obtain s' where s': "puts_line W ''OK'' ?s = Some s'"
    using liveD [OF console_live(2) [OF assms(1)]] by blast
  then show ?thesis
    using keeps_fields(1) [OF console_keeps(2) s'] by (simp add: exec_poke_def e)
qed

text \<open>C10. The registry does not protect itself. On both targets and in every state of the system, with nothing claimed and no superuser, the line \<open>poke\<close> of the value
  0x80000000 at the address where the linker has placed the registry compiles, its execution is not refused, and in the memory it leaves
  the registry grants access to every address.\<close>

theorem registry_in_reach:
  assumes "console_ready W" "w_arch W = Arm \<or> w_arch W = Riscv32"
  shows "\<exists>s'. compile W (show_poke (REGISTRY_BASE (w_arch W)) 0x80000000) s
        = Some (Some (Inr (EnforcedPoke (REGISTRY_BASE (w_arch W)) 0x80000000)), s)
    \<and> execute W (EnforcedPoke (REGISTRY_BASE (w_arch W)) 0x80000000) s = Some s'
    \<and> (\<forall>addr. check_access (w_arch W) (registry_at (s_mem s') (REGISTRY_BASE (w_arch W))) addr = Inr ())"
proof -
  let ?b = "REGISTRY_BASE (w_arch W)"
  have ram: "addr_to_cap_id (w_arch W) ?b = None" "is_ram_flash (w_arch W) ?b"
    using assms(2) by (auto simp: REGISTRY_BASE_def addr_to_cap_id_def arm_addr_to_cap_def riscv_addr_to_cap_def within_def is_ram_flash_def)
  then have access: "check_access (w_arch W) (s_reg s) ?b = Inr ()"
    by (simp add: check_access_def)
  then have "check_cap (env_of W s) ?b = Inr ()"
    by (simp add: check_cap_iff env_of_def)
  moreover have "show_poke ?b 0x80000000 \<noteq> []"
    by (simp add: show_poke_def)
  ultimately have "compile W (show_poke ?b 0x80000000) s = Some (Some (Inr (EnforcedPoke ?b 0x80000000)), s)"
    by (simp add: compile_def parse_poke)
  moreover obtain s' where "exec_poke W ?b 0x80000000 s = Some s'" "s_mem s' = poke_u32 (s_mem s) ?b 0x80000000"
    using exec_poke_granted [OF assms(1) access] by blast
  ultimately show ?thesis
    using superuser_word by (auto simp: check_access_def)
qed

theorem registry_in_reach_witness:
  "\<exists>s'. execute demo_world (EnforcedPoke 0x20001000 0x80000000) (demo_system []) = Some s'
    \<and> check_access Arm (s_reg (demo_system [])) 0x40020000 = Inl GpioA \<and> check_access Arm (registry_at (s_mem s') 0x20001000) 0x40020000 = Inr ()"
proof -
  have "check_access Arm (s_reg (demo_system [])) 0x40020000 = Inl GpioA"
    unfolding demo_system_def by code_simp
  then show ?thesis
    using registry_in_reach [OF demo_ready(1), of "demo_system []"] demo_ready(2) by (auto simp: REGISTRY_BASE_def)
qed

section \<open>Claims over a command\<close>

text \<open>The registry changes by \<open>cap_claim\<close> and \<open>cap_drop\<close> only.\<close>

lemma load_from_reg: "load_from W name is words s = Some s' \<Longrightarrow> s_reg s' = s_reg s"
proof (induction W name "is" words s rule: load_from.induct)
  case (1 W name words s)
  then show ?case
    using keeps_fields(5) [OF console_keeps(2), of W _ s s'] by simp
next
  case (2 W name i "is" words s)
  obtain r nm ws where ld: "load (w_pstore_base W) (w_pstore_top W) (s_mem s) i (replicate 16 (CHR 0x00)) words = (r, nm, ws)"
    by (metis prod_cases3)
  have print: "s_reg s' = s_reg s" if "puts_line W t (s\<lparr>s_compiler := c\<rparr>) = Some s' \<or> puts_line W t s = Some s'" for t c
    using that keeps_fields(5) [OF console_keeps(2), of W t] by auto
  show ?case
  proof (cases r)
    case (Inl e)
    then show ?thesis
      using 2 ld print by (cases e) auto
  next
    case (Inr count)
    then show ?thesis
      using 2 ld print by (cases "take (length name) nm = name") (auto split: prod.splits sum.splits)
  qed
qed

lemma exec_poke_reg:
  assumes "exec_poke W addr v s = Some s'"
  shows "s_reg s' = s_reg s"
proof -
  obtain r log m where e: "enforced_poke_u32 (w_arch W) (s_reg s) (w_cycles W (al_count (s_audit s))) (s_audit s) (s_mem s) addr v
      = (r, log, m)"
    by (metis prod_cases3)
  have "\<exists>a. keeps a \<and> a (set_mem m (s\<lparr>s_audit := log\<rparr>)) = Some s'"
  proof (cases r)
    case (Inl e)
    then show ?thesis
      using assms \<open>enforced_poke_u32 _ _ _ _ _ _ _ = _\<close> unfolding exec_poke_def
      by (intro exI [of _ "seq [puts W (mem_error_bytes e), puts W lf]"]) (auto intro!: prints simp del: seq.simps)
  next
    case (Inr u)
    then show ?thesis
      using assms e unfolding exec_poke_def by (intro exI [of _ "puts_line W ''OK''"]) (auto intro!: prints)
  qed
  then show ?thesis
    using keeps_fields(5) by fastforce
qed

lemma execute_reg:
  assumes "execute W out s = Some s'" "\<forall>n. out \<noteq> Claim n \<and> out \<noteq> Drop n"
  shows "s_reg s' = s_reg s"
proof -
  note k = keeps_fields(5)
  note [simp del] = seq.simps
  have sq: "seq as t = Some s' \<Longrightarrow> (\<And>a. a \<in> set as \<Longrightarrow> keeps a) \<Longrightarrow> s_reg s' = s_reg t" for as t
    using k [OF keeps_seq] by blast
  have ln: "puts_line W x t = Some s' \<Longrightarrow> s_reg s' = s_reg t" for x t
    using k [OF console_keeps(2)] by blast
  show ?thesis
    using assms
  proof (cases out)
    case (Run p)
    then show ?thesis
      using assms by (auto simp: exec_run_def Let_def prints split: option.splits prod.splits dest!: sq ln)
  next
    case (Load n)
    then show ?thesis
      using assms load_from_reg ln by (fastforce simp: exec_load_def split: if_splits)
  next
    case (Store n)
    then show ?thesis
      using assms by (auto simp: exec_store_def split: option.splits if_splits dest!: ln)
  next
    case (Spawn n)
    then show ?thesis
      using assms by (auto simp: exec_spawn_def Let_def prints split: option.splits prod.splits if_splits dest!: sq ln)
  next
    case (PoolAlloc n)
    then show ?thesis
      using assms by (auto simp: exec_pool_alloc_def prints split: prod.splits sum.splits if_splits dest!: sq ln)
  next
    case (EnforcedPeek a)
    then show ?thesis
      using assms k [OF peek_prints(1)] by auto
  next
    case StoreList
    then show ?thesis
      using assms k [OF list_prints(1)] ln by (auto split: if_splits)
  next
    case SysAudit
    then show ?thesis
      using assms k [OF audit_prints(1)] by auto
  next
    case Help
    then show ?thesis
      using assms k [OF help_prints(1)] by auto
  next
    case Banner
    then show ?thesis
      using assms k [OF console_keeps(1)] by auto
  qed (auto simp: prints split: if_splits option.splits prod.splits dest!: sq ln exec_poke_reg)
qed

lemma out_of_range:
  assumes "registry_inv r" "\<not> i < 256"
  shows "snd (acquire r i) = r" "release r i = r"
proof -
  have "8 \<le> i div 32"
    using assms(2) by linarith
  then have "arr_get r (i div 32) = None"
    using assms(1) by (simp add: arr_get_def registry_inv_def WORDS_def)
  then show "snd (acquire r i) = r" "release r i = r"
    by (simp_all add: acquire_def release_def)
qed

lemma claim_reg:
  assumes "do_claim W n s = Some s'" "registry_inv (s_reg s)"
  shows "claimed_ids (s_reg s') \<subseteq> claimed_ids (s_reg s) \<union> unat ` set_option (resolve_name (as_slice n))"
proof -
  note [simp del] = seq.simps
  have sq: "seq as t = Some s' \<Longrightarrow> (\<And>a. a \<in> set as \<Longrightarrow> keeps a) \<Longrightarrow> s_reg s' = s_reg t" for as t
    using keeps_fields(5) [OF keeps_seq] by blast
  have cid: "claimed_ids (snd (acquire (s_reg s) i)) \<subseteq> insert i (claimed_ids (s_reg s))" for i
    using claimed_acquire [OF assms(2), of i] out_of_range(1) [OF assms(2), of i] by (cases "i < 256") auto
  show ?thesis
    using assms(1)
    by (auto simp: do_claim_def Let_def prints split_def split: option.splits if_splits dest!: sq dest: subsetD [OF cid])
qed

lemma drop_reg:
  assumes "do_drop W n s = Some s'" "registry_inv (s_reg s)"
  shows "claimed_ids (s_reg s') \<subseteq> claimed_ids (s_reg s)"
proof -
  note [simp del] = seq.simps
  have sq: "seq as t = Some s' \<Longrightarrow> (\<And>a. a \<in> set as \<Longrightarrow> keeps a) \<Longrightarrow> s_reg s' = s_reg t" for as t
    using keeps_fields(5) [OF keeps_seq] by blast
  have cid: "claimed_ids (release (s_reg s) i) \<subseteq> claimed_ids (s_reg s)" for i
    using claimed_release [OF assms(2), of i] out_of_range(2) [OF assms(2), of i] by (cases "i < 256") auto
  show ?thesis
    using assms(1) by (auto simp: do_drop_def prints split: option.splits if_splits dest!: sq dest: subsetD [OF cid])
qed

section \<open>Isolation of a peripheral\<close>

text \<open>A command that respects the protection of \<open>k\<close>: it claims neither \<open>k\<close> nor the superuser, writes no RAM or flash (where
  the registry and the state of the compiler lie), runs no function body, stores no program and spawns no task. Evaluations are allowed.\<close>

definition lawful :: "CapId \<Rightarrow> Outcome \<Rightarrow> bool" where
  "lawful k out \<longleftrightarrow>
    (case out of
       Claim n \<Rightarrow> unat ` set_option (resolve_name (as_slice n)) \<inter> {cap_num k, cap_num SuperUser} = {}
     | EnforcedPoke a v \<Rightarrow> \<not> is_ram_flash Arm a
     | SetBit a b \<Rightarrow> \<not> is_ram_flash Arm a
     | ClrBit a b \<Rightarrow> \<not> is_ram_flash Arm a
     | Run p \<Rightarrow> sp_yields_value p
     | Store n \<Rightarrow> False
     | Spawn n \<Rightarrow> False
     | _ \<Rightarrow> True)"

definition lawful_turn :: "CapId \<Rightarrow> 'f Loop \<Rightarrow> bool" where
  "lawful_turn k l \<longleftrightarrow> \<not> risky l
    \<and> (case (l_state l, l_pending l) of (Printing, Some (Inr out)) \<Rightarrow> lawful k out | _ \<Rightarrow> True)"

fun throughout :: "'f World \<Rightarrow> ('f Loop \<Rightarrow> bool) \<Rightarrow> (u32 \<times> u32) list \<Rightarrow> 'f Loop \<Rightarrow> bool" where
  "throughout W Q [] l = True"
| "throughout W Q (i # is) l = (Q l \<and> (case repl_step W i l of None \<Rightarrow> True | Some l' \<Rightarrow> throughout W Q is l'))"

definition unclaimed :: "CapId \<Rightarrow> registry \<Rightarrow> bool" where
  "unclaimed k r \<longleftrightarrow> cap_num k \<notin> claimed_ids r \<and> cap_num SuperUser \<notin> claimed_ids r"

text \<open>A byte of the register block of \<open>k\<close>; a store that reaches it from below starts in the block as well.\<close>

definition register_byte :: "CapId \<Rightarrow> u32 \<Rightarrow> bool" where
  "register_byte k c \<longleftrightarrow> (\<forall>j \<in> {0, 1, 2, 3}. addr_to_cap_id Arm (c - j) = Some k)"

lemma unclaimed_denied:
  assumes "registry_inv (s_reg s)" "unclaimed k (s_reg s)" "register_byte k c" "w_arch W = Arm"
  shows "\<not> granted_now W s c"
proof
  assume "granted_now W s c"
  then obtain a where a: "check_access Arm (s_reg s) a = Inr ()" "c - a \<in> {0, 1, 2, 3}"
    using assms(4) by (auto simp: granted_now_def)
  then have "addr_to_cap_id Arm a = Some k"
    using assms(3) unfolding register_byte_def by (metis add_diff_cancel_left' diff_add_cancel add.commute)
  then show False
    using a(1) assms(1,2) by (simp add: access_simps unclaimed_def del: cap_num.simps split: if_splits)
qed

lemma register_not_ungranted: "register_byte k c \<Longrightarrow> \<not> ungranted out c"
proof
  assume "register_byte k c" "ungranted out c"
  then have c: "addr_to_cap_id Arm c = Some k" "c - APB1ENR \<in> {0, 1, 2, 3} \<or> c - DEMCR \<in> {0, 1, 2, 3} \<or> c - DWT_CTRL \<in> {0, 1, 2, 3}"
    by (auto simp: register_byte_def ungranted_def)
  then obtain a where a: "a = APB1ENR \<or> a = DEMCR \<or> a = DWT_CTRL" "c - a \<in> {0, 1, 2, 3}"
    by metis
  have "addr_to_cap_id Arm (a + j) = None" if "j = 0 \<or> j = 1 \<or> j = 2 \<or> j = 3" for j
    using that a(1)
    by (elim disjE) (simp_all add: addr_to_cap_id_def arm_addr_to_cap_def within_def APB1ENR_def DEMCR_def DWT_CTRL_def)
  then have "addr_to_cap_id Arm (a + (c - a)) = None"
    using a(2) by blast
  then show False
    using c(1) by simp
qed

lemma value_run_keeps_mem:
  assumes "good_words (w_word W)" "w_arch W = Arm" "prog_ok (w_word W) A p" "sp_yields_value p" "exec_run W p s = Some s'"
  shows "s_mem s' = s_mem s"
proof -
  obtain v post where p: "sp_words p = code_words (w_word W) (chain v []) @ w_word W halt_prim # post"
      "sp_len p = length (code_words (w_word W) (chain v [])) + 1" "length (code_words (w_word W) (chain v [])) < 128"
    using prog_ok_words [OF assms(3)] assms(4) by auto
  have "run_native W p m = Inr (Some (chain_value v []), m)" for m
    using arm.chain_native [OF assms(1), of "[]" v post "(w_regs W, m)"] p assms(2,4) by (simp add: run_native_def arith_ops_def)
  then have "program_run W p vm = Some (Some (chain_value v []), vm_reset vm)" for vm
    using p(2) by (simp add: program_run_def)
  moreover have "keeps (seq [puts W ''= '', write_value W (chain_value v [])])"
    by (auto intro!: prints simp del: seq.simps)
  ultimately show ?thesis
    using assms(5) keeps_fields(1) by (fastforce simp: exec_run_def Let_def vm_reset_def simp del: seq.simps)
qed

lemma lawful_execute:
  assumes W: "w_arch W = Arm" "good_words (w_word W)" and s: "registry_inv (s_reg s)" "unclaimed k (s_reg s)" "register_byte k c"
    and out: "outcome_ok (env_of W s) UNIV out" "lawful k out" and ex: "execute W out s = Some s'"
  shows "unclaimed k (s_reg s')" "s_mem s' c = s_mem s c"
proof -
  show "unclaimed k (s_reg s')"
  proof (cases "\<forall>n. out \<noteq> Claim n \<and> out \<noteq> Drop n")
    case True
    then show ?thesis
      using execute_reg [OF ex] s(2) by simp
  next
    case False
    then show ?thesis
      using claim_reg [OF _ s(1)] drop_reg [OF _ s(1)] ex out(2) s(2)
      by (fastforce simp: unclaimed_def lawful_def simp del: cap_num.simps)
  qed
  show "s_mem s' c = s_mem s c"
  proof (cases "runs_code out")
    case True
    then obtain p where "out = Run p" "sp_yields_value p"
      using out(2) by (cases out) (auto simp: lawful_def)
    then show ?thesis
      using value_run_keeps_mem [OF W(2,1), of UNIV p s s'] out(1) ex by (simp add: outcome_ok_def env_of_def)
  next
    case False
    then show ?thesis
      using access_granted [OF _ W(2) out(1) ex, of c] unclaimed_denied [OF s W(1)] register_not_ungranted [OF s(3), of out] W(1) by blast
  qed
qed

text \<open>One turn: reading and compiling leave registry and memory alone, printing executes the outcome.\<close>

lemma reading_keeps:
  assumes "console_ready W" "loop_ok W l" "l_state l \<noteq> Printing" "repl_step W i l = Some l'"
  shows "s_reg (l_sys l') = s_reg (l_sys l)" "s_mem (l_sys l') = s_mem (l_sys l)"
proof -
  have "same_but_line (l_sys l) s'" if "feed W b (l_sys l) = Some (st, s')" for b st s'
    using feed_edit [OF assms(1), of "l_sys l" b] that assms(2) by (auto simp: loop_ok_def sys_wf_def)
  then have feed: "s_reg s' = s_reg (l_sys l) \<and> s_mem s' = s_mem (l_sys l)" if "feed W b (l_sys l) = Some (st, s')" for b st s'
    using same_but_lineD that by (metis s_mem_def)
  have take_line: "s_reg (snd (take_line s)) = s_reg s" "s_mem (snd (take_line s)) = s_mem s" for s :: "'a System"
    by (simp_all add: take_line_def s_mem_def)
  have "s_reg t = s_reg s \<and> s_mem t = s_mem s" if "compile W line s = Some (r, t)" for line s r t
    using that by (auto simp: compile_def s_mem_def split: if_splits option.splits)
  then have eval: "s_reg t = s_reg (l_sys l) \<and> s_mem t = s_mem (l_sys l)" if "compile W (fst (take_line (l_sys l))) (snd (take_line (l_sys l))) = Some (r, t)" for r t
    using that take_line by metis
  have "s_reg (l_sys l') = s_reg (l_sys l) \<and> s_mem (l_sys l') = s_mem (l_sys l)"
  proof (cases "l_state l = Evaluating")
    case True
    then obtain r t where "compile W (fst (take_line (l_sys l))) (snd (take_line (l_sys l))) = Some (r, t)" "l_sys l' = t"
      using assms(4) by (auto simp: repl_step_def Let_def case_prod_unfold split: option.splits)
    then show ?thesis
      using eval by simp
  next
    case False
    then have st: "l_state l = Idle \<or> l_state l = Reading"
      using assms(3) by (cases "l_state l") auto
    show ?thesis
    proof (cases "poll_get_byte (w_arch W) (fst i) (snd i)")
      case None
      then have "l' = l\<lparr>l_state := Reading\<rparr>"
        using st assms(4) by (auto simp: repl_step_def)
      then show ?thesis by simp
    next
      case (Some b)
      then obtain st s' where "feed W b (l_sys l) = Some (st, s')" "l_sys l' = s'"
        using st assms(4) by (auto simp: repl_step_def split: option.splits)
      then show ?thesis
        using feed by simp
    qed
  qed
  then show "s_reg (l_sys l') = s_reg (l_sys l)" "s_mem (l_sys l') = s_mem (l_sys l)"
    by simp_all
qed

lemma lawful_step:
  assumes W: "console_ready W" "w_arch W = Arm" "good_words (w_word W)" and l: "loop_ok W l" "lawful_turn k l"
    and s: "unclaimed k (s_reg (l_sys l))" "register_byte k c" and step: "repl_step W i l = Some l'"
  shows "unclaimed k (s_reg (l_sys l')) \<and> s_mem (l_sys l') c = s_mem (l_sys l) c"
proof (cases "l_state l = Printing")
  case False
  then show ?thesis
    using reading_keeps [OF W(1) l(1) False step] s(1) by simp
next
  case True
  let ?s = "l_sys l"
  have reg: "registry_inv (s_reg ?s)"
    using l(1) by (simp add: loop_ok_def sys_wf_def)
  obtain s1 s2 where s1: "respond W (l_pending l) ?s = Some s1" "prompt W s1 = Some s2" "l_sys l' = s2"
    using step True by (auto simp: repl_step_def respond_def split: option.splits sum.splits simp del: seq.simps)
  have "unclaimed k (s_reg s1) \<and> s_mem s1 c = s_mem ?s c"
  proof (cases "\<exists>out. l_pending l = Some (Inr out)")
    case True
    then obtain out where out: "l_pending l = Some (Inr out)"
      by blast
    then have "lawful k out" "outcome_ok (env_of W ?s) UNIV out" "execute W out ?s = Some s1"
      using l s1(1) \<open>l_state l = Printing\<close> by (simp_all add: lawful_turn_def loop_ok_def respond_def)
    then show ?thesis
      using lawful_execute [OF W(2,3) reg s] by blast
  next
    case False
    then have "\<exists>a. keeps a \<and> a ?s = Some s1"
    proof (cases "l_pending l")
      case (Some q)
      then obtain err where "q = Inl err"
        using False by (cases q) auto
      then show ?thesis
        using Some s1(1) by (intro exI [of _ "seq [puts W ''ERR '', puts W (error_text err)]"])
          (auto intro!: prints simp: respond_def simp del: seq.simps)
    qed (use s1(1) in \<open>auto simp: respond_def intro: prints\<close>)
    then show ?thesis
      using keeps_fields(1,5) s(1) by metis
  qed
  then show ?thesis
    using keeps_fields(1,5) [OF console_keeps(6) s1(2)] s1(3) by simp
qed

lemma lawful_turns:
  assumes W: "console_ready W" "w_arch W = Arm" "good_words (w_word W)" and c: "register_byte k c"
  shows "loop_ok W l \<Longrightarrow> unclaimed k (s_reg (l_sys l)) \<Longrightarrow> throughout W (lawful_turn k) inps l
    \<Longrightarrow> \<exists>l'. seq (map (repl_step W) inps) l = Some l' \<and> unclaimed k (s_reg (l_sys l')) \<and> s_mem (l_sys l') c = s_mem (l_sys l) c"
proof (induction inps arbitrary: l)
  case (Cons i inps)
  have lawful: "lawful_turn k l"
    using Cons.prems(3) by simp
  then obtain l1 where l1: "repl_step W i l = Some l1" "loop_ok W l1"
    using turn_ok [OF W Cons.prems(1), of i] by (auto simp: lawful_turn_def)
  have "unclaimed k (s_reg (l_sys l1)) \<and> s_mem (l_sys l1) c = s_mem (l_sys l) c"
    using lawful_step [OF W Cons.prems(1) lawful Cons.prems(2) c l1(1)] .
  then show ?case
    using Cons.IH [OF l1(2)] Cons.prems(3) l1(1) by auto
qed simp


section \<open>A typed command\<close>

lemma throughout_append:
  "throughout W Q (as @ bs) l \<longleftrightarrow> throughout W Q as l \<and> (case seq (map (repl_step W) as) l of None \<Rightarrow> True | Some l' \<Rightarrow> throughout W Q bs l')"
  by (induction "as" arbitrary: l) (auto split: option.split)

lemma lawful_not_printing: "l_state l \<noteq> Printing \<Longrightarrow> lawful_turn k l"
  by (cases "l_state l") (simp_all add: lawful_turn_def risky_def)

lemma typing_lawful:
  assumes W: "console_ready W"
  shows "l_state l \<in> {Idle, Reading} \<Longrightarrow> line_inv (l_sys l) \<Longrightarrow> list_all printable (polled W ks)
    \<Longrightarrow> length (line_of (l_sys l) @ polled W ks) \<le> LINE_MAX \<Longrightarrow> throughout W (lawful_turn k) ks l"
proof (induction ks rule: rev_induct)
  case (snoc x ks)
  have pre: "list_all printable (polled W ks)" "length (line_of (l_sys l) @ polled W ks) \<le> LINE_MAX"
    using snoc.prems(3,4) by (auto simp: polled_def map_filter_def split: option.splits)
  then obtain l' where "seq (map (repl_step W) ks) l = Some l'" "l_state l' \<in> {Idle, Reading}"
    using typing_turns [OF W snoc.prems(1,2)] by metis
  then show ?case
    using snoc.IH [OF snoc.prems(1,2) pre] lawful_not_printing [of l' k]
    by (auto simp: throughout_append split: option.split)
qed simp

lemma poke_printable: "list_all printable (show_poke a v)"
  using digits10_digits [of "unat a"] digits10_digits [of "unat v"]
  by (auto simp: show_poke_def list_all_iff is_ascii_digit_def in_range_def)

text \<open>The line \<open>poke a v;\<close>, for an address that the registry grants: every turn is lawful, and the word is written.\<close>

lemma poke_line_turns:
  assumes W: "console_ready W" and l: "l_state l = Idle" "line_inv (l_sys l)" "line_of (l_sys l) = []"
    and granted: "check_access (w_arch W) (s_reg (l_sys l)) a = Inr ()" and ok: "lawful q (EnforcedPoke a v)" "length (show_poke a v) \<le> LINE_MAX"
    and ks: "polled W ks = show_poke a v" "poll_get_byte (w_arch W) (fst k) (snd k) = Some b" "newline b"
  shows "throughout W (lawful_turn q) (ks @ [k, i, j]) l
    \<and> (\<exists>l'. seq (map (repl_step W) (ks @ [k, i, j])) l = Some l' \<and> s_mem (l_sys l') = poke_u32 (s_mem (l_sys l)) a v)"
proof -
  have typed: "list_all printable (polled W ks)" "length (line_of (l_sys l) @ polled W ks) \<le> LINE_MAX"
    using l(3) ok(2) poke_printable unfolding ks(1) by simp_all
  obtain l1 where l1: "seq (map (repl_step W) ks) l = Some l1" "l_state l1 \<in> {Idle, Reading}" "line_inv (l_sys l1)"
      "line_of (l_sys l1) = show_poke a v" "same_but_line (l_sys l) (l_sys l1)"
    using typing_turns [OF W, of l ks] l typed unfolding ks(1) by auto
  obtain c2 where c2: "feed W b (l_sys l1) = Some (Evaluating, (l_sys l1)\<lparr>s_con := c2\<rparr>)"
    using feed_newline [OF W ks(3)] by blast
  let ?s = "(l_sys l1)\<lparr>s_con := c2, s_line_len := 0\<rparr>"
  let ?l2 = "l1\<lparr>l_state := Evaluating, l_sys := (l_sys l1)\<lparr>s_con := c2\<rparr>\<rparr>" and ?l3 = "l1\<lparr>l_state := Printing, l_pending := Some (Inr (EnforcedPoke a v)), l_sys := ?s\<rparr>"
  have same: "s_reg ?s = s_reg (l_sys l)" "s_mem ?s = s_mem (l_sys l)"
    using same_but_lineD [OF l1(5)] by (simp_all add: s_mem_def)
  have step2: "repl_step W k l1 = Some ?l2"
    using l1(2) ks(2) c2 by (auto simp: repl_step_def)
  have "take_line ((l_sys l1)\<lparr>s_con := c2\<rparr>) = (show_poke a v, ?s)"
    using l1(4) by (simp add: take_line_def line_of_def)
  moreover have "show_poke a v \<noteq> []" "check_cap (env_of W ?s) a = Inr ()"
    using granted same(1) by (simp_all add: show_poke_def check_cap_iff env_of_def)
  ultimately have step3: "repl_step W i ?l2 = Some ?l3"
    by (simp add: repl_step_def compile_def parse_poke)
  obtain s4 where s4: "exec_poke W a v ?s = Some s4" "s_mem s4 = poke_u32 (s_mem ?s) a v"
    using exec_poke_granted [OF W, of ?s a] granted same(1) by auto
  obtain s5 where s5: "prompt W s4 = Some s5"
    using liveD [OF console_live(7) [OF W]] by blast
  let ?l4 = "?l3\<lparr>l_state := Idle, l_pending := None, l_sys := s5\<rparr>"
  have step4: "repl_step W j ?l3 = Some ?l4"
    using s4(1) s5 by (simp add: repl_step_def)
  have "lawful_turn q ?l3"
    using ok(1) by (simp add: lawful_turn_def risky_def)
  then have "throughout W (lawful_turn q) [k, i, j] l1"
    using step2 step3 step4 lawful_not_printing [of l1 q] lawful_not_printing [of ?l2 q] l1(2) by auto
  then show ?thesis
    using typing_lawful [OF W, of l ks q] l typed l1(1) step2 step3 step4 keeps_fields(1) [OF console_keeps(6) s5] s4(2) same(2)
    by (simp add: throughout_append seq_append)
qed

text \<open>Port B is claimed, port A is not. The line \<open>poke 1073873940 1;\<close> sets a register of port B, and the register of port A is as it was.\<close>

definition port_b :: registry where
  "port_b = [2, 0, 0, 0, 0, 0, 0, 0]"

definition poke_port_b :: "(u32 \<times> u32) list" where
  "poke_port_b = map (\<lambda>b. (0x20, of_char b)) (show_poke 0x40020414 1) @ [(0x20, 13), (0, 0), (0, 0)]"

lemma port_b_ok: "registry_inv port_b" "unclaimed GpioA port_b" "register_byte GpioA 0x40020014" "check_access Arm port_b 0x40020414 = Inr ()"
proof -
  show inv: "registry_inv port_b"
    by (simp add: registry_inv_def WORDS_def port_b_def)
  have claimed: "claimed_ids port_b \<inter> {0, 31} = {}"
    by (auto simp: claimed_ids_def port_b_def bit_iff_odd)
  then show "unclaimed GpioA port_b"
    by (auto simp: unclaimed_def)
  show "register_byte GpioA 0x40020014"
    by (auto simp: register_byte_def addr_to_cap_id_def arm_addr_to_cap_def within_def)
  show "check_access Arm port_b 0x40020414 = Inr ()"
    by code_simp
qed

lemma poke_port_b_turns:
  assumes "l_state l = Idle" "line_inv (l_sys l)" "line_of (l_sys l) = []" "s_reg (l_sys l) = port_b"
  shows "throughout demo_world (lawful_turn GpioA) poke_port_b l
    \<and> (\<exists>l'. seq (map (repl_step demo_world) poke_port_b) l = Some l' \<and> s_mem (l_sys l') = poke_u32 (s_mem (l_sys l)) 0x40020414 1)"
proof -
  have "lawful GpioA (EnforcedPoke 0x40020414 1)" "length (show_poke 0x40020414 1) \<le> LINE_MAX"
    by (simp_all add: lawful_def is_ram_flash_def within_def show_poke_def digits10.simps LINE_MAX_def)
  moreover have "poll_get_byte (w_arch demo_world) 0x20 13 = Some (CHR 0x0D)"
    by code_simp
  ultimately show ?thesis
    using poke_line_turns [OF demo_ready(1) assms(1-3), where a = "0x40020414" and q = GpioA and v = 1 and k = "(0x20, 13)" and b = "CHR 0x0D"
        and i = "(0, 0)" and j = "(0, 0)" and ks = "map (\<lambda>b. (0x20, of_char b)) (show_poke 0x40020414 1)"] polled_type_in port_b_ok(4) assms(4) demo_ready(2)
    by (simp add: poke_port_b_def newline_def)
qed


end
