(* ===== verification/Exec_Buffer.thy ===== *)
theory Exec_Buffer
  imports Emitter Memory_Frames
begin

text \<open>
  The two emitters as they write to memory: a cursor into \<open>EXEC_BUFFER\<close>, a capacity and a length (\<^verbatim>\<open>src/compiler/emitter.rs\<close>), and
  the entry address of the buffer (\<^verbatim>\<open>src/kernel/exec.rs\<close>). Theory \<open>Emitter\<close> describes the same buffer as a list of instructions;
  the memory is shown to refine it. What both need of stores of one size is the locale \<open>unit_store\<close>.
\<close>

section \<open>The emitters on memory\<close>

record BufEmitter =
  be_cursor :: u32
  be_cap_words :: nat
  be_len_words :: nat

definition poke_u16 :: "mem \<Rightarrow> u32 \<Rightarrow> u16 \<Rightarrow> mem" where
  "poke_u16 m addr v = m(addr := ucast v, addr + 1 := ucast (drop_bit 8 v))"

definition peek_u16 :: "mem \<Rightarrow> u32 \<Rightarrow> u16" where
  "peek_u16 m addr = ucast (m addr) OR push_bit 8 (ucast (m (addr + 1)))"

definition Thumb2Emitter_new :: "u32 \<Rightarrow> BufEmitter" where
  "Thumb2Emitter_new exec_buffer = \<lparr>be_cursor = exec_buffer, be_cap_words = EXEC_BUFFER_SIZE Arm div 2, be_len_words = 0\<rparr>"

definition push16 :: "BufEmitter \<Rightarrow> u16 \<Rightarrow> mem \<Rightarrow> (EmitError + unit) \<times> BufEmitter \<times> mem" where
  "push16 e hw m =
    (if be_len_words e \<ge> be_cap_words e then (Inl Overflow, e, m)
     else (Inr (), e\<lparr>be_cursor := be_cursor e + 2, be_len_words := be_len_words e + 1\<rparr>, poke_u16 m (be_cursor e) hw))"

definition Riscv32Emitter_new :: "u32 \<Rightarrow> BufEmitter" where
  "Riscv32Emitter_new exec_buffer = \<lparr>be_cursor = exec_buffer, be_cap_words = EXEC_BUFFER_SIZE Riscv32 div 4, be_len_words = 0\<rparr>"

definition push32 :: "BufEmitter \<Rightarrow> u32 \<Rightarrow> mem \<Rightarrow> (EmitError + unit) \<times> BufEmitter \<times> mem" where
  "push32 e word m =
    (if be_len_words e \<ge> be_cap_words e then (Inl Overflow, e, m)
     else (Inr (), e\<lparr>be_cursor := be_cursor e + 4, be_len_words := be_len_words e + 1\<rparr>, poke_u32 m (be_cursor e) word))"

text \<open>The address that is called: on ARM with the bit that selects the Thumb state.\<close>

definition exec_buffer_entry :: "arch \<Rightarrow> u32 \<Rightarrow> u32" where
  "exec_buffer_entry a base = (if a = Arm then base OR 1 else base)"

text \<open>Pushes in sequence, each followed by \<open>?\<close>.\<close>

fun push_seq :: "(BufEmitter \<Rightarrow> 'h \<Rightarrow> mem \<Rightarrow> (EmitError + unit) \<times> BufEmitter \<times> mem) \<Rightarrow> BufEmitter \<Rightarrow> 'h list \<Rightarrow> mem
    \<Rightarrow> (EmitError + unit) \<times> BufEmitter \<times> mem" where
  "push_seq push e [] m = (Inr (), e, m)"
| "push_seq push e (h # hs) m =
    (case push e h m of
       (Inl err, e', m') \<Rightarrow> (Inl err, e', m')
     | (Inr _, e', m') \<Rightarrow> push_seq push e' hs m')"

section \<open>Stores of one size\<close>

locale unit_store =
  fixes put :: "mem \<Rightarrow> u32 \<Rightarrow> 'h \<Rightarrow> mem"
    and get :: "mem \<Rightarrow> u32 \<Rightarrow> 'h"
    and sz :: nat
    and push :: "BufEmitter \<Rightarrow> 'h \<Rightarrow> mem \<Rightarrow> (EmitError + unit) \<times> BufEmitter \<times> mem"
  assumes get_put: "get (put m a h) a = h"
    and put_frame: "frame m (put m a h) a sz"
    and get_local: "(\<And>k. k < sz \<Longrightarrow> m' (a + of_nat k) = m (a + of_nat k)) \<Longrightarrow> get m' a = get m a"
    and sz_pos: "0 < sz" "sz \<le> 4"
    and push: "push e h m =
      (if be_len_words e \<ge> be_cap_words e then (Inl Overflow, e, m)
       else (Inr (), e\<lparr>be_cursor := be_cursor e + of_nat sz, be_len_words := be_len_words e + 1\<rparr>, put m (be_cursor e) h))"
begin

text \<open>The emitter and the memory hold the instructions of the list.\<close>

definition holds :: "u32 \<Rightarrow> BufEmitter \<Rightarrow> mem \<Rightarrow> 'h Emitter \<Rightarrow> bool" where
  "holds b e m em \<longleftrightarrow> be_cap_words e = em_cap em \<and> be_len_words e = length (em_code em) \<and> be_len_words e \<le> be_cap_words e
    \<and> be_cursor e = b + of_nat (sz * be_len_words e) \<and> (\<forall>i<length (em_code em). get m (b + of_nat (sz * i)) = em_code em ! i)"

lemma push_refines:
  assumes h: "holds b e m em" and cap: "sz * be_cap_words e < 2 ^ 31" and p: "push e h m = (r, e', m')"
  shows "\<exists>em'. push_code em h = (r, em') \<and> holds b e' m' em' \<and> frame m m' b (sz * be_cap_words e) \<and> be_cap_words e' = be_cap_words e"
proof (cases "be_len_words e \<ge> be_cap_words e")
  case True
  then show ?thesis
    using h p by (auto simp: push push_code_def holds_def frame_def)
next
  case False
  let ?n = "be_len_words e"
  have e: "be_cap_words e = em_cap em" "?n = length (em_code em)" "be_cursor e = b + of_nat (sz * ?n)"
      "\<And>i. i < ?n \<Longrightarrow> get m (b + of_nat (sz * i)) = em_code em ! i"
    using h by (simp_all add: holds_def)
  have r: "r = Inr ()" "m' = put m (b + of_nat (sz * ?n)) h"
      "e' = e\<lparr>be_cursor := be_cursor e + of_nat sz, be_len_words := ?n + 1\<rparr>"
    using p False e(3) by (simp_all add: push)
  have room: "sz * ?n + sz \<le> sz * be_cap_words e"
    using False mult_le_mono2 [of "Suc ?n" "be_cap_words e" sz] by simp
  have fr: "frame m m' (b + of_nat (sz * ?n)) sz"
    unfolding r(2) by (rule put_frame)
  have old: "get m' (b + of_nat (sz * i)) = em_code em ! i" if "i < ?n" for i
  proof -
    have i: "sz * i + sz \<le> sz * ?n"
      using that mult_le_mono2 [of "Suc i" ?n sz] by simp
    have "m' (b + of_nat (sz * i) + of_nat k) = m (b + of_nat (sz * i) + of_nat k)" if "k < sz" for k
      using frame_byte [OF fr, of "sz * i + k"] i room cap sz_pos that by (simp add: add.assoc)
    then have "get m' (b + of_nat (sz * i)) = get m (b + of_nat (sz * i))"
      by (rule get_local)
    then show ?thesis
      using e(4) [OF that] by simp
  qed
  have "get m' (b + of_nat (sz * i)) = (em_code em @ [h]) ! i" if "i < Suc ?n" for i
    using that old e(2) by (cases "i = ?n") (auto simp: r(2) get_put nth_append simp del: of_nat_mult)
  then have "holds b e' m' (em\<lparr>em_code := em_code em @ [h]\<rparr>)"
    using False e unfolding holds_def r(3) by (simp add: algebra_simps)
  moreover have "frame m m' b (sz * be_cap_words e)"
    using frame_shift [OF fr, of "sz * be_cap_words e"] room cap by simp
  ultimately show ?thesis
    using False e r by (auto simp: push_code_def)
qed

lemma push_seq_refines:
  "holds b e m em \<Longrightarrow> sz * be_cap_words e < 2 ^ 31 \<Longrightarrow> push_seq push e hs m = (r, e', m')
    \<Longrightarrow> \<exists>em'. push_all em hs = (r, em') \<and> holds b e' m' em' \<and> frame m m' b (sz * be_cap_words e)"
proof (induction hs arbitrary: e m em)
  case Nil
  then show ?case by (simp add: frame_def)
next
  case (Cons h hs)
  obtain r1 e1 m1 where p: "push e h m = (r1, e1, m1)"
    by (cases "push e h m") auto
  obtain em1 where em1: "push_code em h = (r1, em1)" "holds b e1 m1 em1" "frame m m1 b (sz * be_cap_words e)" "be_cap_words e1 = be_cap_words e"
    using push_refines [OF Cons.prems(1,2) p] by blast
  show ?case
  proof (cases r1)
    case (Inl err)
    then show ?thesis
      using Cons.prems(3) p em1 by auto
  next
    case (Inr u)
    then have "push_seq push e1 hs m1 = (r, e', m')"
      using Cons.prems(3) p by simp
    then obtain em' where "push_all em1 hs = (r, em')" "holds b e' m' em'" "frame m1 m' b (sz * be_cap_words e)"
      using Cons.IH [OF em1(2)] Cons.prems(2) em1(4) by auto
    then show ?thesis
      using em1(1) Inr frame_trans [OF em1(3)] by auto
  qed
qed

end

interpretation halfwords: unit_store poke_u16 peek_u16 2 push16
proof
  show "peek_u16 (poke_u16 m a h) a = h" for m a h
    by (intro bit_word_eqI) (auto simp: peek_u16_def poke_u16_def bit_simps)
  show "frame m (poke_u16 m a h) a 2" for m a h
    unfolding frame_def
  proof (intro allI impI)
    fix c :: u32 assume "2 \<le> unat (c - a)"
    then have "c \<noteq> a" "c \<noteq> a + 1"
      by auto
    then show "poke_u16 m a h c = m c"
      by (simp add: poke_u16_def)
  qed
  show "peek_u16 m' a = peek_u16 m a" if "\<And>k. k < 2 \<Longrightarrow> m' (a + of_nat k) = m (a + of_nat k)" for m m' a
    using that [of 0] that [of 1] by (simp add: peek_u16_def)
qed (simp_all add: push16_def)

interpretation words: unit_store poke_u32 peek_u32 4 push32
proof
  show "peek_u32 m' a = peek_u32 m a" if "\<And>k. k < 4 \<Longrightarrow> m' (a + of_nat k) = m (a + of_nat k)" for m m' a
    using that [of 0] that [of 1] that [of 2] that [of 3] by (simp add: peek_u32_def)
qed (simp_all add: push32_def frame_poke)

section \<open>The buffer in memory holds the emitted code\<close>

text \<open>C26. Emission writes the program and nothing else. Push any sequence of instructions through an emitter of either back end, starting at the base of the
  executable buffer. The answers are those of the list model, the overflow error included; afterwards the buffer in memory holds the accepted
  instructions one after the other from its base on, and no byte outside the buffer has changed.\<close>

theorem emission_fills_buffer:
  assumes "push_seq push16 (Thumb2Emitter_new b) hs m = (r, e, m')" "push_seq push32 (Riscv32Emitter_new b') ws n = (q, e', n')"
  shows "(\<exists>em. push_all thumb_into_exec_buffer hs = (r, em) \<and> be_len_words e = length (em_code em)
      \<and> (\<forall>i<length (em_code em). peek_u16 m' (b + of_nat (2 * i)) = em_code em ! i) \<and> frame m m' b (EXEC_BUFFER_SIZE Arm))
    \<and> (\<exists>em. push_all riscv_into_exec_buffer ws = (q, em) \<and> be_len_words e' = length (em_code em)
      \<and> (\<forall>i<length (em_code em). peek_u32 n' (b' + of_nat (4 * i)) = em_code em ! i) \<and> frame n n' b' (EXEC_BUFFER_SIZE Riscv32))"
proof -
  have start: "halfwords.holds b (Thumb2Emitter_new b) m thumb_into_exec_buffer" "words.holds b' (Riscv32Emitter_new b') n riscv_into_exec_buffer"
    by (simp_all add: halfwords.holds_def words.holds_def Thumb2Emitter_new_def Riscv32Emitter_new_def thumb_into_exec_buffer_def riscv_into_exec_buffer_def)
  have size: "2 * be_cap_words (Thumb2Emitter_new b) = EXEC_BUFFER_SIZE Arm" "4 * be_cap_words (Riscv32Emitter_new b') = EXEC_BUFFER_SIZE Riscv32"
    by (simp_all add: Thumb2Emitter_new_def Riscv32Emitter_new_def EXEC_BUFFER_SIZE_def)
  have small: "EXEC_BUFFER_SIZE a < 2 ^ 31" for a
    by (cases a) (simp_all add: EXEC_BUFFER_SIZE_def)
  show ?thesis
    using halfwords.push_seq_refines [OF start(1) _ assms(1)] words.push_seq_refines [OF start(2) _ assms(2)]
    unfolding size halfwords.holds_def words.holds_def using small by blast
qed

text \<open>Two instructions per back end.\<close>

theorem emission_fills_buffer_witness:
  "peek_u16 (snd (snd (push_seq push16 (Thumb2Emitter_new 0x20002000) [0x2007, 0x4770] (\<lambda>_. 0)))) 0x20002002 = 0x4770
    \<and> peek_u32 (snd (snd (push_seq push32 (Riscv32Emitter_new 0x80001000) [0x00700513, 0x00008067] (\<lambda>_. 0)))) 0x80001004 = 0x00008067"
proof -
  let ?p = "push_seq push16 (Thumb2Emitter_new 0x20002000) [0x2007, 0x4770] (\<lambda>_. 0)"
  let ?q = "push_seq push32 (Riscv32Emitter_new 0x80001000) [0x00700513, 0x00008067] (\<lambda>_. 0)"
  have "push_all thumb_into_exec_buffer [0x2007, 0x4770] = (Inr (), \<lparr>em_code = [0x2007, 0x4770], em_cap = 2048\<rparr>)"
    "push_all riscv_into_exec_buffer [0x00700513, 0x00008067] = (Inr (), \<lparr>em_code = [0x00700513, 0x00008067], em_cap = 192\<rparr>)"
    by (simp_all add: push_code_def thumb_into_exec_buffer_def riscv_into_exec_buffer_def EXEC_BUFFER_SIZE_def)
  note all = this
  have "?p = (fst ?p, fst (snd ?p), snd (snd ?p))" "?q = (fst ?q, fst (snd ?q), snd (snd ?q))"
    by (simp_all only: prod.collapse)
  from emission_fills_buffer [OF this] all have
    "\<forall>i<2. peek_u16 (snd (snd ?p)) (0x20002000 + of_nat (2 * i)) = [0x2007, 0x4770] ! i"
    "\<forall>i<2. peek_u32 (snd (snd ?q)) (0x80001000 + of_nat (4 * i)) = [0x00700513, 0x00008067] ! i"
    by (simp_all del: push_seq.simps push_all.simps)
  from this(1) [rule_format, of 1] this(2) [rule_format, of 1] show ?thesis
    by (simp del: push_seq.simps)
qed

end
