(* ===== verification/Hal_Stubs.thy ===== *)
theory Hal_Stubs
  imports Cap_Engine Hal_Switch Interfaces
begin

text \<open>
  The remaining operations of the architecture crates: execution buffers, claims and the interrupt operations that only issue
  a barrier. A trait of \<^verbatim>\<open>crates/hros-hal\<close> is a record of its methods and an implementation is a value of it; the
  implementing types have no fields, so that the methods act on memory alone. Barriers have no effect on the state of the model.
\<close>

section \<open>Execution buffers\<close>

datatype hal_EmitError = HalOverflow | HalBadRegister | HalUnaligned

record ExecutionBuffer =
  eb_base :: u32
  eb_len :: nat
  eb_emit16 :: "u16 \<Rightarrow> mem \<Rightarrow> (hal_EmitError + unit) \<times> mem"
  eb_emit32 :: "u32 \<Rightarrow> mem \<Rightarrow> (hal_EmitError + unit) \<times> mem"
  eb_flush_icache :: "mem \<Rightarrow> mem"
  eb_call :: "nat \<Rightarrow> mem \<Rightarrow> u32 \<times> mem"
  eb_emit_ret :: "mem \<Rightarrow> (hal_EmitError + unit) \<times> mem"

definition EB_SIZE :: nat where "EB_SIZE = 4096"

definition eb_remaining :: "ExecutionBuffer \<Rightarrow> nat" where
  "eb_remaining b = EB_SIZE - eb_len b"

definition ArmExecBuffer :: ExecutionBuffer where
  "ArmExecBuffer =
    \<lparr>eb_base = 0x20002000, eb_len = 0, eb_emit16 = (\<lambda>hw m. (Inr (), m)), eb_emit32 = (\<lambda>w m. (Inr (), m)), eb_flush_icache = (\<lambda>m. m),
     eb_call = (\<lambda>off m. (0, m)), eb_emit_ret = (\<lambda>m. (Inr (), m))\<rparr>"

definition RiscvExecBuffer :: ExecutionBuffer where
  "RiscvExecBuffer =
    \<lparr>eb_base = 0x08000000, eb_len = 0, eb_emit16 = (\<lambda>hw m. (Inr (), m)), eb_emit32 = (\<lambda>w m. (Inr (), m)), eb_flush_icache = (\<lambda>m. m),
     eb_call = (\<lambda>off m. (0, m)), eb_emit_ret = (\<lambda>m. (Inr (), m))\<rparr>"

definition X86ExecBuffer :: ExecutionBuffer where
  "X86ExecBuffer =
    \<lparr>eb_base = 0x100000, eb_len = 4096, eb_emit16 = (\<lambda>hw m. (Inr (), m)), eb_emit32 = (\<lambda>w m. (Inr (), m)), eb_flush_icache = (\<lambda>m. m),
     eb_call = (\<lambda>off m. (0, m)), eb_emit_ret = (\<lambda>m. (Inr (), m))\<rparr>"

section \<open>Claims\<close>

record ClaimOps =
  co_addr_to_cap :: "u32 \<Rightarrow> u16 option"
  co_acquire :: "u16 \<Rightarrow> bool"
  co_release :: "u16 \<Rightarrow> unit"
  co_available :: "u16 \<Rightarrow> bool"

definition ArmClaims :: ClaimOps where
  "ArmClaims = \<lparr>co_addr_to_cap = (\<lambda>addr. None), co_acquire = (\<lambda>i. False), co_release = (\<lambda>i. ()), co_available = (\<lambda>i. True)\<rparr>"

definition RiscvClaims :: ClaimOps where
  "RiscvClaims = \<lparr>co_addr_to_cap = (\<lambda>addr. None), co_acquire = (\<lambda>i. False), co_release = (\<lambda>i. ()), co_available = (\<lambda>i. True)\<rparr>"

definition X86Claims :: ClaimOps where
  "X86Claims = \<lparr>co_addr_to_cap = x86_addr_to_cap, co_acquire = (\<lambda>i. True), co_release = (\<lambda>i. ()), co_available = (\<lambda>i. True)\<rparr>"

section \<open>Interrupt operations\<close>

definition arm_attach :: "nat \<Rightarrow> u32 option \<Rightarrow> mem \<Rightarrow> mem" where
  "arm_attach slot h m = (if slot < 32 then m else m)"

definition riscv_attach :: "nat \<Rightarrow> u32 option \<Rightarrow> mem \<Rightarrow> mem" where
  "riscv_attach slot h m = m"

definition riscv_ack :: "nat \<Rightarrow> mem \<Rightarrow> mem" where
  "riscv_ack slot m = m"

definition riscv_is_nmi :: "nat \<Rightarrow> bool" where
  "riscv_is_nmi slot \<longleftrightarrow> False"

definition x86_relocate :: "u64 \<Rightarrow> mem \<Rightarrow> mem" where
  "x86_relocate table m = m"

definition x86_pending :: "nat option" where
  "x86_pending = None"

definition x86_attach :: "nat \<Rightarrow> u32 option \<Rightarrow> mem \<Rightarrow> mem" where
  "x86_attach slot h m = m"

definition x86_ack :: "nat \<Rightarrow> mem \<Rightarrow> mem" where
  "x86_ack slot m = m"

definition x86_is_nmi :: "nat \<Rightarrow> bool" where
  "x86_is_nmi slot \<longleftrightarrow> False"

text \<open>x86 saves nothing.\<close>

definition x86_save_callee :: "u64 \<Rightarrow> u64" where
  "x86_save_callee sp = sp"

definition x86_restore_callee :: "u64 \<Rightarrow> u64" where
  "x86_restore_callee sp = sp"

section \<open>The stubs against the contracts\<close>

text \<open>The operations of an engine as operations on a registry, which they leave as it is. Whatever set of ids one takes as the
  claimed ones of a registry, no engine of the architecture crates is a capability set, the contract that the kernel's bitmap fulfils: on ARM and RISC-V
  every id is free and none can be claimed, and on x86 one that is claimed can be claimed again.\<close>

definition engine_acquire :: "ClaimOps \<Rightarrow> 'r \<Rightarrow> nat \<Rightarrow> bool \<times> 'r" where
  "engine_acquire E r i = (co_acquire E (of_nat i), r)"

definition engine_release :: "ClaimOps \<Rightarrow> 'r \<Rightarrow> nat \<Rightarrow> 'r" where
  "engine_release E r i = (case co_release E (of_nat i) of () \<Rightarrow> r)"

definition engine_available :: "ClaimOps \<Rightarrow> 'r \<Rightarrow> nat \<Rightarrow> bool" where
  "engine_available E r i = co_available E (of_nat i)"

theorem engines_not_capability_sets:
  assumes "E \<in> {ArmClaims, RiscvClaims, X86Claims}" "invar r" "i \<in> ids"
  shows "\<not> capability_set (engine_acquire E) (engine_release E) (engine_available E) invar claimed ids"
proof
  assume "capability_set (engine_acquire E) (engine_release E) (engine_available E) invar claimed ids"
  then have "engine_available E r i \<longleftrightarrow> i \<notin> claimed r" "fst (engine_acquire E r i) \<longleftrightarrow> i \<notin> claimed r"
    "claimed (snd (engine_acquire E r i)) = insert i (claimed r)"
    using assms(2,3) by (auto simp: capability_set_def)
  then show False
    using assms(1) by (auto simp: engine_available_def engine_acquire_def ArmClaims_def RiscvClaims_def X86Claims_def)
qed

text \<open>Emission: any sequence of halfwords is reported as emitted, although nothing is stored and the length does not grow; on x86 that
  holds with no capacity remaining.\<close>

fun emit_all :: "ExecutionBuffer \<Rightarrow> u16 list \<Rightarrow> mem \<Rightarrow> (hal_EmitError + unit) \<times> mem" where
  "emit_all b [] m = (Inr (), m)"
| "emit_all b (hw # hws) m = (case eb_emit16 b hw m of (Inl e, m') \<Rightarrow> (Inl e, m') | (Inr _, m') \<Rightarrow> emit_all b hws m')"

theorem hal_emission_lost:
  assumes "b \<in> {ArmExecBuffer, RiscvExecBuffer, X86ExecBuffer}"
  shows "emit_all b hws m = (Inr (), m)" "eb_remaining b = (if b = X86ExecBuffer then 0 else 4096)" "fst (eb_call b off m) = 0"
proof -
  have "eb_emit16 b = (\<lambda>hw m. (Inr (), m))"
    using assms by (auto simp: ArmExecBuffer_def RiscvExecBuffer_def X86ExecBuffer_def)
  then show "emit_all b hws m = (Inr (), m)"
    by (induction hws) simp_all
  show "eb_remaining b = (if b = X86ExecBuffer then 0 else 4096)" "fst (eb_call b off m) = 0"
    using assms by (auto simp: ArmExecBuffer_def RiscvExecBuffer_def X86ExecBuffer_def eb_remaining_def EB_SIZE_def)
qed

end
