(* ===== verification/Build.thy ===== *)
theory Build
  imports HROS_Prelude "HOL-Library.Sublist"
begin

text \<open>
  The build script \<^verbatim>\<open>build.rs\<close>, which selects and validates the linker script, and the task printer \<^verbatim>\<open>xtask\<close>. The
  environment variables and the files are arguments; a panic is the left side of the result, the printed lines are the right side.
\<close>

section \<open>The build script\<close>

datatype build_error =
    NoManifestDir
  | ReadFailed string string
  | NoRegions string
  | NoInclude string string
  | NoLayout string string

text \<open>\<open>str::contains\<close> and \<open>Path::join\<close> for a relative file name.\<close>

fun contains :: "string \<Rightarrow> string \<Rightarrow> bool" where
  "contains [] pat = (pat = [])"
| "contains (c # s) pat = (prefix pat (c # s) \<or> contains s pat)"

definition path_join :: "string \<Rightarrow> string \<Rightarrow> string" where
  "path_join dir name = (if dir = [] \<or> last dir = CHR ''/'' then dir @ name else dir @ ''/'' @ name)"

definition select_script :: "string \<Rightarrow> string \<times> string" where
  "select_script arch =
    (if arch = ''riscv32'' then (''memory-riscv.x'', ''memory-layout-riscv.x'') else (''memory.x'', ''memory-layout.x''))"

definition build_main ::
    "(string \<rightharpoonup> string) \<Rightarrow> (string \<Rightarrow> string + string) \<Rightarrow> (string \<Rightarrow> bool) \<Rightarrow> build_error + string list" where
  "build_main env read_to_string exists =
    (let arch = (case env ''CARGO_CFG_TARGET_ARCH'' of None \<Rightarrow> ''arm'' | Some a \<Rightarrow> a);
         (script, layout) = select_script arch
     in case env ''CARGO_MANIFEST_DIR'' of
          None \<Rightarrow> Inl NoManifestDir
        | Some manifest_dir \<Rightarrow>
            (let path = path_join manifest_dir script
             in case read_to_string path of
                  Inl e \<Rightarrow> Inl (ReadFailed path e)
                | Inr contents \<Rightarrow>
                    if \<not> contains contents ''ORIGIN'' \<or> \<not> contains contents ''LENGTH'' then Inl (NoRegions script)
                    else if \<not> contains contents (''INCLUDE '' @ layout) then Inl (NoInclude script layout)
                    else (let layout_path = path_join manifest_dir layout
                          in if \<not> exists layout_path then Inl (NoLayout layout layout_path)
                             else Inr [''cargo:rerun-if-changed='' @ script, ''cargo:rerun-if-changed='' @ layout,
                                    ''cargo:rerun-if-env-changed=CARGO_CFG_TARGET_ARCH'', ''cargo:rustc-link-arg=-T'' @ script])))"

section \<open>The tasks\<close>

definition xtask_main :: "string list \<Rightarrow> string" where
  "xtask_main args =
    (let task = (if length args > 1 then args ! 1 else ''help'')
     in if task = ''qemu-arm'' then ''cargo run --target thumbv7em-none-eabihf --release''
        else if task = ''qemu-riscv'' then ''cargo run --target riscv32imac-unknown-none-elf --release''
        else if task = ''fuzz'' then ''cargo fuzz run uart_mutator -- -max_total_time=60''
        else if task = ''bench'' then ''cargo bench --target thumbv7em-none-eabihf''
        else ''xtask: qemu-arm | qemu-riscv | fuzz | bench'')"

section \<open>What the build script accepts\<close>

lemma contains_sublist: "contains s pat \<longleftrightarrow> sublist pat s"
  by (induction s) (auto simp: sublist_Cons_right)

text \<open>The script goes through exactly if the directory is known, the script of the target can be read, names its regions and includes the
  layout of the same target, and that layout exists; and then the script it hands to the linker is the one it has validated.\<close>

theorem build_main_accepts:
  assumes "select_script (case env ''CARGO_CFG_TARGET_ARCH'' of None \<Rightarrow> ''arm'' | Some a \<Rightarrow> a) = (script, layout)"
  shows "(\<exists>out. build_main env rd ex = Inr out) \<longleftrightarrow>
      (\<exists>dir text. env ''CARGO_MANIFEST_DIR'' = Some dir \<and> rd (path_join dir script) = Inr text \<and> sublist ''ORIGIN'' text \<and> sublist ''LENGTH'' text
        \<and> sublist (''INCLUDE '' @ layout) text \<and> ex (path_join dir layout))"
    and "build_main env rd ex = Inr out \<Longrightarrow> filter (prefix ''cargo:rustc-link-arg='') out = [''cargo:rustc-link-arg=-T'' @ script]"
proof -
  show "(\<exists>out. build_main env rd ex = Inr out) \<longleftrightarrow>
      (\<exists>dir text. env ''CARGO_MANIFEST_DIR'' = Some dir \<and> rd (path_join dir script) = Inr text \<and> sublist ''ORIGIN'' text \<and> sublist ''LENGTH'' text
        \<and> sublist (''INCLUDE '' @ layout) text \<and> ex (path_join dir layout))"
    unfolding build_main_def assms Let_def by (auto simp: contains_sublist split: option.split sum.split)
  assume "build_main env rd ex = Inr out"
  then show "filter (prefix ''cargo:rustc-link-arg='') out = [''cargo:rustc-link-arg=-T'' @ script]"
    unfolding build_main_def assms Let_def by (auto split: option.splits sum.splits if_splits)
qed

end
