(* ===== verification/Spec2Isabelle.thy ===== *)
theory Spec2Isabelle
  imports Cap_Registry Cap_Audit Cap_Tokens Kernel_Memory Lexer Uart Symbols Threaded_VM Parser
    Parser_Safety Emitter Native Bench Scheduler Wcet Pool Pstore Multitask
    Interrupt Pcie Drivers Repl Repl_Safety Repl_Invariant Boot Cap_Engine Hros_Cap Hal_Switch Hros_Jit Crate_Drivers
    Task_Bodies Expressions Statements Calculator Isolation Exec_Buffer Hal_Stubs Build
begin

text \<open>
  A verification development for HR-OS, a bare-metal kernel in Rust for ARM Cortex-M and RISC-V whose user
  interface is an interactive compiler: a line read from the serial console is compiled in one pass to threaded
  code or to machine code and run in ring 0. A registry of capability bits decides which peripherals a
  line may touch.

  \<^bold>\<open>Parts and interaction.\<close> The command loop (\<^verbatim>\<open>src/src/drivers/repl.rs\<close>) polls the UART, edits a
  line, has the compiler parse it, and executes the outcome. The parser calls the lexer, the symbol table and
  the registry; its token streams run on the threaded engine or, if they can be translated, as machine code from
  the emitters. Commands claim and drop capabilities, access registers through the enforced accesses (which
  log what the superuser does), allocate from pools, save and load programs, and spawn tasks, which
  the PendSV handler switches. The boot code (\<^verbatim>\<open>src/src/main.rs\<close>) copies and clears the sections, prints a banner, relocates
  the vector table and enters the loop. The crates under \<^verbatim>\<open>src/crates/\<close> hold the task queue, the analyses of execution times, a hardware
  abstraction with three architectures, and second versions of the registry, the lexer and some drivers.

  \<^bold>\<open>Theories.\<close> Paths are below \<^verbatim>\<open>src/src/\<close> unless they start with \<^verbatim>\<open>crates\<close>. Definitions have the
  names of the Rust items they translate.
  \<^item> \<open>HROS_Prelude\<close>, \<open>Interfaces\<close>, \<open>Ring_Buffers\<close>, \<open>Memory_Frames\<close>: machine integers and arrays; the
    locales \<open>capability_set\<close>, \<open>bounded_fifo\<close> and \<open>bounded_map\<close>; index arithmetic; framing.
  \<^item> \<open>Cap_Registry\<close> (\<^verbatim>\<open>capabilities/registry.rs\<close>), \<open>Cap_Audit\<close> (\<^verbatim>\<open>audit.rs\<close>), \<open>Cap_Tokens\<close>
    (\<^verbatim>\<open>tokens.rs\<close>): the bit field refines a set of claimed ids, the access decision against a table of the memory map, the vector
    check against the scalar one, the log as the last sixteen events, linearity of tokens.
  \<^item> \<open>Byte_Memory\<close>, \<open>Kernel_Memory\<close> (\<^verbatim>\<open>kernel/memory.rs\<close>): the flat memory, enforced accesses and
    the start-up loops.
  \<^item> \<open>Lexer\<close> (\<^verbatim>\<open>compiler/lexer.rs\<close>), \<open>Symbols\<close>, \<open>Parser\<close>, \<open>Parser_Safety\<close>
    (\<^verbatim>\<open>compiler/parser.rs\<close>): tokens, the open-addressing table as a map, and the statement parsers. Parsing always
    ends, keeps the compiler well formed, and compiles only accesses that the registry granted; sessions are sequences of lines and of functions that \<open>load\<close> installs.
  \<^item> \<open>Threaded_VM\<close> (\<^verbatim>\<open>compiler/primitives.rs\<close>, \<^verbatim>\<open>kernel/exec.rs\<close>): expressions leave their
    value, compiled programs stop and write granted words only.
  \<^item> \<open>Expressions\<close>: the expression language of the compiler as syntax trees with a printer and a value. A printed line of any depth and length lexes to the
    tokens of its tree and compiles to its value, its binding or its error.
  \<^item> \<open>Statements\<close>: the \<open>loop\<close> command over printed statements, which compiles to the accesses of its block as often as its count says; the \<open>peek\<close> term, which
    reads an address that the registry denies to the \<open>peek\<close> command.
  \<^item> \<open>Emitter\<close> (\<^verbatim>\<open>compiler/emitter.rs\<close>), \<open>Native\<close> (\<^verbatim>\<open>compiler/native.rs\<close>), \<open>Bench\<close>
    (\<^verbatim>\<open>kernel/bench.rs\<close>): the encodings against a decoder, the translation against a semantics of the
    instructions (locale \<open>code_target\<close>, interpreted for both targets), agreement with the threaded engine where it
    holds and the difference where it does not; the whole benchmark, with the counter as an argument, and what it reports.
  \<^item> \<open>Exec_Buffer\<close> (\<^verbatim>\<open>compiler/emitter.rs\<close>, \<^verbatim>\<open>kernel/exec.rs\<close>): the emitters with their cursors on memory, through the locale \<open>unit_store\<close> for stores
    of halfwords and words: they refine the instruction lists of \<open>Emitter\<close> and stay within the buffer.
  \<^item> \<open>Uart\<close>, \<open>Drivers\<close>, \<open>Pstore\<close>, \<open>Pcie\<close> (\<^verbatim>\<open>drivers/\<close>): the receive ring and the number printers; PWM, SPI,
    timer and flash sequences; the program store; the bus sweep and the DMA ring.
  \<^item> \<open>Pool\<close>, \<open>Multitask\<close>, \<open>Task_Bodies\<close>, \<open>Interrupt\<close> (\<^verbatim>\<open>kernel/\<close>): bump allocators, the task table with the
    context switch, the counter tasks under preemption at every instruction, and the vector table.
  \<^item> \<open>Repl\<close>, \<open>Repl_Safety\<close> (\<^verbatim>\<open>drivers/repl.rs\<close>): the whole system as one record, each command, and the loop.
    The loop implements a line editor, every turn completes, and a command changes granted memory only, with the exceptions that its theorem lists.
  \<^item> \<open>Repl_Invariant\<close>, \<open>Boot\<close> (\<^verbatim>\<open>main.rs\<close>): well-formedness of the system record, kept by every command, and the
    session from reset (ARM): the boot code reaches the loop, and up to a \<open>load\<close>, \<open>spi_tx\<close> or \<open>flash_test\<close> every turn returns a well-formed state.
  \<^item> \<open>Calculator\<close>: from reset (ARM), the bytes on the console of a session of evaluations and bindings without \<open>peek\<close> terms are those that the syntax trees of \<open>Expressions\<close>
    determine; the statement runs through boot, line editor, lexer, parser, symbol table, Thumb code and number formats.
  \<^item> \<open>Isolation\<close>: a peripheral (other than the console) whose capability is unclaimed keeps its registers over whole sessions that leave RAM alone (ARM); and the limit
    of that protection, since the registry itself lies in RAM, where every line may write.
  \<^item> \<open>Scheduler\<close>, \<open>Wcet\<close> (\<^verbatim>\<open>crates/hros-kernel\<close>): the task queue under every interleaving of
    one producer and one consumer, and the response time analysis.
  \<^item> \<open>Cap_Engine\<close> (\<^verbatim>\<open>crates/hros-arch-arm\<close>, \<^verbatim>\<open>-riscv\<close>, \<^verbatim>\<open>-x86\<close>), \<open>Hros_Cap\<close> (\<^verbatim>\<open>crates/hros-cap\<close>): the trait
    \<^verbatim>\<open>VectorCapabilityEngine\<close> as the locale \<open>vector_engine\<close>, extended by \<open>strict_engine\<close> for engines that refuse a range beyond their
    window; four interpretations, their agreement, and the exact decision of the crate's range check.
  \<^item> \<open>Hal_Switch\<close> (the same crates): the trait \<^verbatim>\<open>ContextSwitch\<close> as the locale \<open>callee_switch\<close>, interpreted for ARM and RISC-V: a
    switch away and back restores what it saves; the interrupt controllers.
  \<^item> \<open>Hal_Stubs\<close> (the same crates): execution buffers, claims and barriers-only operations; no engine is a \<open>capability_set\<close>, and
    emission stores nothing.
  \<^item> \<open>Build\<close> (\<^verbatim>\<open>build.rs\<close>, \<^verbatim>\<open>xtask\<close>): the build script accepts exactly the linker scripts that fit their target.
  \<^item> \<open>Hros_Jit\<close> (\<^verbatim>\<open>crates/hros-jit\<close>, \<^verbatim>\<open>crates/hros-kernel/src/fuzz.rs\<close>): the lexer of the crate against \<open>takeWhile\<close> and
    \<open>dropWhile\<close>; the fuzz loop returns and the generator is a bijection; the watchdog window in single precision.
  \<^item> \<open>Crate_Drivers\<close> (\<^verbatim>\<open>crates/hros-drivers\<close>, \<^verbatim>\<open>crates/hros-kernel/src/lib.rs\<close>): the DMA ring on 32-bit indices refines the queue of
    \<open>Pcie\<close>; the section loops, the bit operations and the timer are those of the kernel.

  \<^bold>\<open>Modelling.\<close> Integers are words of their width, so that wrap-around is that of the release build. \<open>usize\<close> is
  a 32-bit word where it is an address and a natural number where it is an index below an array bound.
  A fallible operation returns \<open>error + value\<close>; \<open>None\<close> stands for not returning, or for an access outside an array
  through a raw pointer. Statics are passed explicitly and are not part of the flat memory: a store to the address of a static is seen
  in memory only (\<open>Isolation\<close> reads the registry from there), and the emission of code into \<open>EXEC_BUFFER\<close> is not (\<open>Exec_Buffer\<close> treats it on its own).
  Device traffic of the drivers is kept apart from the flat memory as well: the bytes stored to the data register of the UART are the output of the console,
  and \<open>flash_test\<close> acts on the record of the flash controller; the theorems on memory except both. Hardware is an argument: status
  registers are functions of the number of reads, the cycle counter of the number of events, and the flash controller
  is a record of its read and write functions. Addresses chosen by the linker (primitives, stacks, pools, tables) are
  arguments too, with the hypotheses that the linker script grants.

  \<^bold>\<open>Fuel.\<close> Only the parser uses fuel. An expression needs at most the number of remaining bytes and
  the look-ahead plus 2, a statement twice that number plus 3, and a block twice plus 4; \<open>parse\<close> takes
  three times the length of the line plus 10, and the session theorem includes that this suffices. Loops that wait for
  hardware are \<open>partial_function (option)\<close>, with lemmas that they return when the hardware is ready.

  \<^bold>\<open>Not modelled.\<close> Cycle counts and pipeline barriers, which have no effect on the state of the model; the interleaving of
  interrupts with ordinary code outside the task queue and the receive ring; the RISC-V instructions that set the stack pointer before any Rust code;
  the stubs of \<^verbatim>\<open>hros-drivers\<close>, which have no effect; the entry of \<^verbatim>\<open>hros-core\<close>, which calls modules that do not exist; module lists.
\<close>

end
